(* ===== verification/Rust_Prelude.thy ===== *)
theory Rust_Prelude
  imports Main "HOL-Library.Word"
begin

text \<open>
  The shared base of the development.

  \<^item> Rust's fixed-width unsigned integers are words (\<open>u8\<close>, \<open>u32\<close>, \<open>u64\<close>). The plain operators
    \<open>+\<close>, \<open>-\<close>, \<open>*\<close> of the runtime code wrap in a release build, which is what the operators of
    \<^typ>\<open>'a word\<close> do. The named operations of the standard library (\<open>saturating_add\<close>,
    \<open>checked_sub\<close>, ...) are defined here once, for every width.
  \<^item> \<open>usize\<close> values that are lengths of vectors are \<^typ>\<open>nat\<close>.
  \<^item> A function that returns \<open>Result<A, E>\<close> has the type \<open>'e + 'a\<close> with \<open>Inl\<close> the error; a function
    that returns \<open>Option<A>\<close> has the type \<open>'a option\<close>.

  The collection \<open>u_arith\<close> turns goals about words into goals about natural numbers: it reads the
  order and equality of words through \<^const>\<open>unat\<close> and says what \<^const>\<open>unat\<close> of each operation is.
\<close>

named_theorems u_arith \<open>words read as natural numbers\<close>

type_synonym u8 = "8 word"
type_synonym u32 = "32 word"
type_synonym u64 = "64 word"
type_synonym bytes = "u8 list"
type_synonym ('e, 'a) result = "'e + 'a"

section \<open>Integer operations of the standard library\<close>

definition umax :: "'a::len word" where
  "umax = - 1"

definition saturating_add :: "'a::len word \<Rightarrow> 'a word \<Rightarrow> 'a word" where
  "saturating_add a b = (if unat a + unat b < 2 ^ LENGTH('a) then a + b else umax)"

definition saturating_sub :: "'a::len word \<Rightarrow> 'a word \<Rightarrow> 'a word" where
  "saturating_sub a b = (if b \<le> a then a - b else 0)"

definition saturating_mul :: "'a::len word \<Rightarrow> 'a word \<Rightarrow> 'a word" where
  "saturating_mul a b = (if unat a * unat b < 2 ^ LENGTH('a) then a * b else umax)"

definition saturating_pow :: "'a::len word \<Rightarrow> u32 \<Rightarrow> 'a word" where
  "saturating_pow a e = (if unat a ^ unat e < 2 ^ LENGTH('a) then a ^ unat e else umax)"

definition checked_add :: "'a::len word \<Rightarrow> 'a word \<Rightarrow> 'a word option" where
  "checked_add a b = (if unat a + unat b < 2 ^ LENGTH('a) then Some (a + b) else None)"

definition checked_sub :: "'a::len word \<Rightarrow> 'a word \<Rightarrow> 'a word option" where
  "checked_sub a b = (if b \<le> a then Some (a - b) else None)"

definition checked_mul :: "'a::len word \<Rightarrow> 'a word \<Rightarrow> 'a word option" where
  "checked_mul a b = (if unat a * unat b < 2 ^ LENGTH('a) then Some (a * b) else None)"

definition checked_div :: "'a::len word \<Rightarrow> 'a word \<Rightarrow> 'a word option" where
  "checked_div a b = (if b = 0 then None else Some (a div b))"

text \<open>\<open>saturating_inc\<close> and \<open>saturating_dec\<close> of \<open>sp_runtime::Saturating\<close>, and the conversion
  \<open>saturated_into\<close> of a length into a word.\<close>

definition saturating_inc :: "'a::len word \<Rightarrow> 'a word" where
  "saturating_inc a = saturating_add a 1"

definition saturating_dec :: "'a::len word \<Rightarrow> 'a word" where
  "saturating_dec a = saturating_sub a 1"

definition saturated_from :: "nat \<Rightarrow> 'a::len word" where
  "saturated_from n = (if n < 2 ^ LENGTH('a) then of_nat n else umax)"

text \<open>Evaluation compares binary integers, where the definitions compare natural numbers.\<close>

lemma unat_less_code:
  "unat a + unat b < 2 ^ LENGTH('a) \<longleftrightarrow> uint a + uint b < 2 ^ LENGTH('a)"
  "unat a * unat b < 2 ^ LENGTH('a) \<longleftrightarrow> uint a * uint b < 2 ^ LENGTH('a)"
  "unat a ^ unat (e :: u32) < 2 ^ LENGTH('a) \<longleftrightarrow> uint a ^ unat e < 2 ^ LENGTH('a)"
  for a b :: "'a::len word"
  by (simp_all only: uint_nat of_nat_less_numeral_power_cancel_iff flip: of_nat_add of_nat_mult of_nat_power)

lemmas [code] =
  saturating_add_def[unfolded unat_less_code] saturating_mul_def[unfolded unat_less_code]
  saturating_pow_def[unfolded unat_less_code] checked_add_def[unfolded unat_less_code]
  checked_mul_def[unfolded unat_less_code]

lemma saturated_from_code [code]:
  "(saturated_from n :: 'a::len word) = (if int n < 2 ^ LENGTH('a) then of_nat n else umax)"
  by (simp only: saturated_from_def of_nat_less_numeral_power_cancel_iff)

section \<open>Reading words as natural numbers\<close>

lemma unat_bound: "unat (a :: 'a::len word) < 2 ^ LENGTH('a)"
  by (rule unsigned_less)

lemma unat_umax [u_arith]: "unat (umax :: 'a::len word) = 2 ^ LENGTH('a) - 1"
  by (simp add: umax_def unsigned_minus_1_eq_mask mask_eq_exp_minus_1)

lemma unat_le_umax: "unat (a :: 'a::len word) \<le> 2 ^ LENGTH('a) - 1"
  using unat_bound [of a] by linarith

lemma le_umax [simp]: "a \<le> (umax :: 'a::len word)"
  using unat_le_umax [of a] by (simp add: word_le_nat_alt unat_umax)

lemma umax_le_iff [simp]: "umax \<le> (a :: 'a::len word) \<longleftrightarrow> a = umax"
  using antisym [OF le_umax] by blast

lemma not_umax_less [simp]: "\<not> umax < (a :: 'a::len word)"
  by (simp add: not_less)

lemma min_bound_exact: "(n :: nat) < m \<Longrightarrow> min n (m - 1) = n"
  by (simp add: min_def)

lemma min_bound_over: "\<not> (n :: nat) < m \<Longrightarrow> min n (m - 1) = m - 1"
  by linarith

lemmas u_order [u_arith] = word_le_nat_alt word_less_nat_alt word_unat_eq_iff

lemma unat_plus_exact:
  "unat a + unat b < 2 ^ LENGTH('a) \<Longrightarrow> unat (a + b :: 'a::len word) = unat a + unat b"
  by (simp add: unat_word_ariths)

lemma unat_mult_exact:
  "unat a * unat b < 2 ^ LENGTH('a) \<Longrightarrow> unat (a * b :: 'a::len word) = unat a * unat b"
  by (simp add: unat_word_ariths)

lemma unat_minus_exact:
  "unat b \<le> unat a \<Longrightarrow> unat (a - b :: 'a::len word) = unat a - unat b"
  by (simp add: unat_sub word_le_nat_alt)

lemma unat_saturating_add [u_arith]:
  "unat (saturating_add a b :: 'a::len word) = min (unat a + unat b) (2 ^ LENGTH('a) - 1)"
  by (simp add: saturating_add_def unat_plus_exact unat_umax min_bound_exact min_bound_over)

lemma saturating_add_eq_0: "saturating_add a b = (0 :: 'a::len word) \<longleftrightarrow> a = 0 \<and> b = 0"
proof -
  have "saturating_add a b = 0 \<longleftrightarrow> unat (saturating_add a b) = 0" by (simp only: unsigned_eq_0_iff)
  also have "\<dots> \<longleftrightarrow> unat a + unat b = 0"
    using unat_bound[of a] unat_bound[of b]
    by (cases "LENGTH('a)") (auto simp: unat_saturating_add min_def)
  finally show ?thesis by (simp add: unsigned_eq_0_iff)
qed

lemma unat_saturating_sub [u_arith]:
  "unat (saturating_sub a b :: 'a::len word) = unat a - unat b"
  by (auto simp: saturating_sub_def unat_minus_exact word_le_nat_alt)

lemma unat_saturating_mul [u_arith]:
  "unat (saturating_mul a b :: 'a::len word) = min (unat a * unat b) (2 ^ LENGTH('a) - 1)"
  by (simp add: saturating_mul_def unat_mult_exact unat_umax min_bound_exact min_bound_over del: One_nat_def)

lemma unat_saturating_inc [u_arith]:
  "unat (saturating_inc a :: 'a::len word) = min (Suc (unat a)) (2 ^ LENGTH('a) - 1)"
  by (cases "LENGTH('a) = 1") (auto simp: saturating_inc_def u_arith)

lemma unat_saturating_dec [u_arith]:
  "unat (saturating_dec a :: 'a::len word) = unat a - 1"
  by (simp add: saturating_dec_def u_arith)

lemma unat_saturated_from [u_arith]:
  "unat (saturated_from n :: 'a::len word) = min n (2 ^ LENGTH('a) - 1)"
  by (simp add: saturated_from_def unat_umax unat_of_nat min_bound_exact min_bound_over)

lemma checked_add_Some_iff:
  "checked_add a b = Some (c :: 'a::len word) \<longleftrightarrow> unat c = unat a + unat b"
proof
  show "checked_add a b = Some c \<Longrightarrow> unat c = unat a + unat b"
    by (auto simp: checked_add_def unat_plus_exact split: if_splits)
  assume eq: "unat c = unat a + unat b"
  then have "unat a + unat b < 2 ^ LENGTH('a)"
    by (metis unat_bound)
  with eq show "checked_add a b = Some c"
    by (simp add: checked_add_def word_unat_eq_iff unat_plus_exact)
qed

lemma checked_add_None_iff:
  "checked_add a b = None \<longleftrightarrow> 2 ^ LENGTH('a) \<le> unat a + unat (b :: 'a::len word)"
  by (auto simp: checked_add_def)

lemma checked_sub_Some_iff:
  "checked_sub a b = Some (c :: 'a::len word) \<longleftrightarrow> unat a = unat b + unat c"
  by (auto simp: checked_sub_def u_order unat_minus_exact split: if_splits)

lemma checked_sub_None_iff:
  "checked_sub a b = None \<longleftrightarrow> unat a < unat (b :: 'a::len word)"
  by (auto simp: checked_sub_def u_order)

lemma checked_div_Some_iff:
  "checked_div a b = Some (c :: 'a::len word) \<longleftrightarrow> b \<noteq> 0 \<and> unat c = unat a div unat b"
  by (auto simp: checked_div_def word_unat_eq_iff unat_div split: if_splits)

lemmas checked_iffs = checked_add_Some_iff checked_add_None_iff checked_sub_Some_iff
  checked_sub_None_iff checked_div_Some_iff

end
