(* ===== verification/BTree_Map.thy ===== *)
theory BTree_Map
  imports Rust_Prelude
begin

text \<open>
  \<open>alloc::collections::BTreeMap\<close> of Rust's standard library, as the association list its iterator
  yields: keys strictly increasing. The library promises a finite map whose iteration order is the
  order of the keys, and nothing in the modelled code depends on more than that. The locale
  \<open>ordered_map\<close> is this promise; the association list provides it.
\<close>

type_synonym ('k, 'v) btree = "('k \<times> 'v) list"

abbreviation bt_get :: "('k, 'v) btree \<Rightarrow> 'k \<Rightarrow> 'v option" where
  "bt_get \<equiv> map_of"

fun bt_insert :: "'k::linorder \<Rightarrow> 'v \<Rightarrow> ('k, 'v) btree \<Rightarrow> ('k, 'v) btree" where
  "bt_insert k v [] = [(k, v)]"
| "bt_insert k v ((k', v') # m) =
     (if k < k' then (k, v) # (k', v') # m
      else if k = k' then (k, v) # m
      else (k', v') # bt_insert k v m)"

definition bt_remove :: "'k \<Rightarrow> ('k, 'v) btree \<Rightarrow> ('k, 'v) btree" where
  "bt_remove k m = filter (\<lambda>(k', _). k' \<noteq> k) m"

definition bt_retain :: "('k \<Rightarrow> 'v \<Rightarrow> bool) \<Rightarrow> ('k, 'v) btree \<Rightarrow> ('k, 'v) btree" where
  "bt_retain p m = filter (\<lambda>(k, v). p k v) m"

text \<open>\<open>collect()\<close> of an iterator of pairs: the pairs are inserted one after the other.\<close>

definition bt_collect :: "('k::linorder \<times> 'v) list \<Rightarrow> ('k, 'v) btree" where
  "bt_collect kvs = fold (\<lambda>(k, v) m. bt_insert k v m) kvs []"

definition bt_wf :: "('k::linorder, 'v) btree \<Rightarrow> bool" where
  "bt_wf m \<longleftrightarrow> sorted_wrt (<) (map fst m)"

section \<open>The promise of an ordered map\<close>

locale ordered_map =
  fixes wf :: "'m \<Rightarrow> bool"
    and get :: "'m \<Rightarrow> 'k::linorder \<Rightarrow> 'v option"
    and put :: "'k \<Rightarrow> 'v \<Rightarrow> 'm \<Rightarrow> 'm"
    and del :: "'k \<Rightarrow> 'm \<Rightarrow> 'm"
    and entries :: "'m \<Rightarrow> ('k \<times> 'v) list"
  assumes get_put: "wf m \<Longrightarrow> get (put k v m) = (get m)(k \<mapsto> v)"
    and get_del: "wf m \<Longrightarrow> get (del k m) = (get m)(k := None)"
    and wf_put: "wf m \<Longrightarrow> wf (put k v m)"
    and wf_del: "wf m \<Longrightarrow> wf (del k m)"
    and entries_sorted: "wf m \<Longrightarrow> sorted_wrt (<) (map fst (entries m))"
    and entries_get: "wf m \<Longrightarrow> (k, v) \<in> set (entries m) \<longleftrightarrow> get m k = Some v"
begin

lemma put_same: "wf m \<Longrightarrow> get (put k v m) k = Some v"
  by (simp add: get_put)

lemma put_other: "wf m \<Longrightarrow> j \<noteq> k \<Longrightarrow> get (put k v m) j = get m j"
  by (simp add: get_put)

lemma entries_distinct: "wf m \<Longrightarrow> distinct (map fst (entries m))"
  using entries_sorted strict_sorted_iff by blast

lemma dom_entries: "wf m \<Longrightarrow> dom (get m) = fst ` set (entries m)"
  using entries_get by force

end

section \<open>The association list keeps it\<close>

lemma bt_wf_Nil [simp]: "bt_wf []"
  by (simp add: bt_wf_def)

lemma bt_wf_Cons:
  "bt_wf ((k, v) # m) \<longleftrightarrow> bt_wf m \<and> (\<forall>k' \<in> fst ` set m. k < k')"
  by (auto simp: bt_wf_def)

lemma bt_wf_distinct: "bt_wf m \<Longrightarrow> distinct (map fst m)"
  by (simp add: bt_wf_def strict_sorted_iff)

lemma map_of_bt_insert: "map_of (bt_insert k v m) = (map_of m)(k \<mapsto> v)"
  by (induction m) auto

lemma keys_bt_insert: "fst ` set (bt_insert k v m) = insert k (fst ` set m)"
  by (simp flip: dom_map_of_conv_image_fst add: map_of_bt_insert)

lemma bt_wf_insert: "bt_wf m \<Longrightarrow> bt_wf (bt_insert k v m)"
proof (induction m)
  case Nil
  then show ?case by (simp add: bt_wf_Cons)
next
  case (Cons x m)
  obtain k' v' where x: "x = (k', v')" by (cases x)
  with Cons show ?case
    by (auto simp: bt_wf_Cons keys_bt_insert)
qed

lemma bt_wf_filter: "bt_wf m \<Longrightarrow> bt_wf (filter p m)"
  by (induction m) (auto simp: bt_wf_Cons)

lemma bt_wf_retain: "bt_wf m \<Longrightarrow> bt_wf (bt_retain p m)"
  by (simp add: bt_retain_def bt_wf_filter)

lemma map_of_bt_remove: "map_of (bt_remove k m) = (map_of m)(k := None)"
  by (induction m) (auto simp: bt_remove_def)

lemma map_of_bt_retain:
  "bt_wf m \<Longrightarrow> map_of (bt_retain p m) k =
     (case map_of m k of Some v \<Rightarrow> if p k v then Some v else None | None \<Rightarrow> None)"
proof (induction m)
  case Nil
  then show ?case by (simp add: bt_retain_def)
next
  case (Cons x m)
  obtain k' v' where x: "x = (k', v')" by (cases x)
  have "k' \<notin> fst ` set m" using Cons.prems by (auto simp: x bt_wf_Cons)
  then have "map_of m k' = None" by (simp add: map_of_eq_None_iff)
  with Cons show ?case
    by (auto simp: x bt_retain_def bt_wf_Cons split: option.splits)
qed

lemma bt_ext:
  assumes "bt_wf m" "bt_wf n" "map_of m = map_of n"
  shows "m = n"
proof (rule map_sorted_distinct_set_unique[where f = fst])
  show sets: "set m = set n"
    using set_map_of_compr[OF bt_wf_distinct[OF assms(1)]]
      set_map_of_compr[OF bt_wf_distinct[OF assms(2)]] assms(3) by (simp only:)
  show "inj_on fst (set m \<union> set n)"
    using bt_wf_distinct[OF assms(1)] sets by (simp add: distinct_map)
qed (use assms(1,2) in \<open>simp_all add: bt_wf_def strict_sorted_iff\<close>)

lemma bt_wf_collect: "bt_wf (bt_collect kvs)"
proof -
  have "bt_wf m \<Longrightarrow> bt_wf (fold (\<lambda>(k, v) m. bt_insert k v m) kvs m)" for m :: "('a, 'b) btree"
    by (induction kvs arbitrary: m) (auto simp: bt_wf_insert)
  then show ?thesis by (simp add: bt_collect_def)
qed

lemma map_of_bt_collect: "map_of (bt_collect kvs) = map_of (rev kvs)"
proof -
  have "map_of (fold (\<lambda>(k, v) m. bt_insert k v m) kvs m) = map_of m ++ map_of (rev kvs)"
    for m :: "('a, 'b) btree"
    by (induction kvs arbitrary: m) (auto simp: map_of_bt_insert)
  then show ?thesis by (simp add: bt_collect_def)
qed

lemma set_bt_collect: "(k, v) \<in> set (bt_collect kvs) \<Longrightarrow> (k, v) \<in> set kvs"
  using map_of_bt_collect[of kvs] bt_wf_distinct[OF bt_wf_collect, of kvs]
  by (metis map_of_SomeD map_of_is_SomeI set_rev)

interpretation bt: ordered_map bt_wf bt_get bt_insert bt_remove "\<lambda>m. m"
proof (unfold_locales, goal_cases)
  case 1
  show ?case by (rule map_of_bt_insert)
next
  case 2
  show ?case by (rule map_of_bt_remove)
next
  case 3
  then show ?case by (rule bt_wf_insert)
next
  case 4
  then show ?case by (simp add: bt_remove_def bt_wf_filter)
next
  case 5
  then show ?case by (simp add: bt_wf_def)
next
  case 6
  then show ?case by (simp add: bt_wf_distinct)
qed

end
