(* ===== verification/Overlay_Changeset.thy ===== *)
theory Overlay_Changeset
  imports BTree_Map
begin

text \<open>
  The transactional overlay of the state machine
  (\<open>substrate/primitives/state-machine/src/overlayed_changes/changeset.rs\<close>): a map from keys to all
  versions of their values, one version per open transaction that wrote the key, with the set of
  written keys for every open transaction.

  The two vectors that the code uses as stacks (\<open>transactions\<close> of an entry and \<open>dirty_keys\<close> of the
  map) are lists with the newest element first. The set of dirty keys is the sorted list that the
  iterator of a \<open>BTreeSet\<close> yields. A failed \<open>expect\<close> or \<open>assert!\<close> is \<^const>\<open>None\<close>.
\<close>

section \<open>Extrinsic indices\<close>

type_synonym Extrinsics = "u32 list"

definition extrinsics_insert :: "u32 \<Rightarrow> Extrinsics \<Rightarrow> Extrinsics" where
  "extrinsics_insert ext self = (if self \<noteq> [] \<and> last self = ext then self else self @ [ext])"

definition extrinsics_extend :: "Extrinsics \<Rightarrow> Extrinsics \<Rightarrow> Extrinsics" where
  "extrinsics_extend self other = self @ other"

definition copy_extrinsics_into :: "Extrinsics \<Rightarrow> u32 list \<Rightarrow> u32 list" where
  "copy_extrinsics_into self dest = fold insort_insert self dest"

section \<open>Entries\<close>

datatype NoOpenTransaction = NoOpenTransaction
datatype AlreadyInRuntime = AlreadyInRuntime
datatype NotInRuntime = NotInRuntime

datatype ExecutionMode = Client | Runtime

record 'v InnerValue =
  iv_value :: 'v
  iv_extrinsics :: Extrinsics

record 'v OverlayedEntry =
  transactions :: "'v InnerValue list"

definition entry_default :: "'v OverlayedEntry" where
  "entry_default = \<lparr>transactions = []\<rparr>"

definition value_ref :: "'v OverlayedEntry \<Rightarrow> 'v option" where
  "value_ref self = (case transactions self of [] \<Rightarrow> None | t # _ \<Rightarrow> Some (iv_value t))"

definition entry_extrinsics :: "'v OverlayedEntry \<Rightarrow> u32 list" where
  "entry_extrinsics self =
     fold (\<lambda>t. copy_extrinsics_into (iv_extrinsics t)) (rev (transactions self)) []"

definition set_value_mut :: "'v \<Rightarrow> 'v OverlayedEntry \<Rightarrow> 'v OverlayedEntry option" where
  "set_value_mut v self = (case transactions self of [] \<Rightarrow> None
     | t # ts \<Rightarrow> Some \<lparr>transactions = t\<lparr>iv_value := v\<rparr> # ts\<rparr>)"

definition pop_transaction :: "'v OverlayedEntry \<Rightarrow> ('v InnerValue \<times> 'v OverlayedEntry) option" where
  "pop_transaction self = (case transactions self of [] \<Rightarrow> None
     | t # ts \<Rightarrow> Some (t, \<lparr>transactions = ts\<rparr>))"

definition map_transaction_extrinsics ::
  "(Extrinsics \<Rightarrow> Extrinsics) \<Rightarrow> 'v OverlayedEntry \<Rightarrow> 'v OverlayedEntry option" where
  "map_transaction_extrinsics f self = (case transactions self of [] \<Rightarrow> None
     | t # ts \<Rightarrow> Some \<lparr>transactions = t\<lparr>iv_extrinsics := f (iv_extrinsics t)\<rparr> # ts\<rparr>)"

definition entry_set ::
  "'v \<Rightarrow> bool \<Rightarrow> u32 option \<Rightarrow> 'v OverlayedEntry \<Rightarrow> 'v OverlayedEntry option" where
  "entry_set v first_write_in_tx at_extrinsic self =
     (case (if first_write_in_tx \<or> transactions self = []
            then Some \<lparr>transactions = \<lparr>iv_value = v, iv_extrinsics = []\<rparr> # transactions self\<rparr>
            else set_value_mut v self) of None \<Rightarrow> None
      | Some e \<Rightarrow> (case at_extrinsic of None \<Rightarrow> Some e
          | Some extrinsic \<Rightarrow> map_transaction_extrinsics (extrinsics_insert extrinsic) e))"

section \<open>The map\<close>

record ('k, 'v) OverlayedMap =
  changes :: "('k, 'v OverlayedEntry) btree"
  dirty_keys :: "'k list list"
  num_client_transactions :: nat
  execution_mode :: ExecutionMode

definition map_default :: "('k, 'v) OverlayedMap" where
  "map_default = \<lparr>changes = [], dirty_keys = [], num_client_transactions = 0,
     execution_mode = Client\<rparr>"

text \<open>\<open>From<StorageMap>\<close>: the given values are committed.\<close>

definition from_storage_map :: "('k::linorder, 'w) btree \<Rightarrow> ('k, 'w option) OverlayedMap" where
  "from_storage_map storage = \<lparr>changes = bt_collect (map (\<lambda>(k, v).
       (k, \<lparr>transactions = [\<lparr>iv_value = Some v, iv_extrinsics = []\<rparr>]\<rparr>)) storage),
     dirty_keys = [], num_client_transactions = 0, execution_mode = Client\<rparr>"

fun insert_dirty :: "'k::linorder list list \<Rightarrow> 'k \<Rightarrow> 'k list list \<times> bool" where
  "insert_dirty [] key = ([], False)"
| "insert_dirty (dk # rest) key = (insort_insert key dk # rest, key \<notin> set dk)"

definition transaction_depth :: "('k, 'v) OverlayedMap \<Rightarrow> nat" where
  "transaction_depth self = length (dirty_keys self)"

definition spawn_child :: "('k, 'v) OverlayedMap \<Rightarrow> ('k2, 'v2) OverlayedMap" where
  "spawn_child self = \<lparr>changes = [], dirty_keys = replicate (transaction_depth self) [],
     num_client_transactions = num_client_transactions self, execution_mode = execution_mode self\<rparr>"

definition map_is_empty :: "('k, 'v) OverlayedMap \<Rightarrow> bool" where
  "map_is_empty self \<longleftrightarrow> changes self = []"

definition map_get :: "('k, 'v) OverlayedMap \<Rightarrow> 'k \<Rightarrow> 'v OverlayedEntry option" where
  "map_get self key = bt_get (changes self) key"

definition entry_or_default :: "('k, 'v) OverlayedMap \<Rightarrow> 'k \<Rightarrow> 'v OverlayedEntry" where
  "entry_or_default self key = (case bt_get (changes self) key of Some e \<Rightarrow> e | None \<Rightarrow> entry_default)"

definition map_set ::
  "'k::linorder \<Rightarrow> 'v \<Rightarrow> u32 option \<Rightarrow> ('k, 'v) OverlayedMap \<Rightarrow> ('k, 'v) OverlayedMap option" where
  "map_set key v at_extrinsic self = (case insert_dirty (dirty_keys self) key of (dirty, first) \<Rightarrow>
     (case entry_set v first at_extrinsic (entry_or_default self key) of None \<Rightarrow> None
      | Some e \<Rightarrow> Some (self\<lparr>changes := bt_insert key e (changes self), dirty_keys := dirty\<rparr>)))"

definition drain_committed :: "('k, 'v) OverlayedMap \<Rightarrow> ('k \<times> 'v) list option" where
  "drain_committed self = (if transaction_depth self = 0
     then those (map (\<lambda>(k, e). map_option (\<lambda>(t, _). (k, iv_value t)) (pop_transaction e)) (changes self))
     else None)"

definition enter_runtime ::
  "('k, 'v) OverlayedMap \<Rightarrow> (AlreadyInRuntime, ('k, 'v) OverlayedMap) result" where
  "enter_runtime self = (case execution_mode self of Runtime \<Rightarrow> Inl AlreadyInRuntime
     | Client \<Rightarrow> Inr (self\<lparr>execution_mode := Runtime,
         num_client_transactions := transaction_depth self\<rparr>))"

definition has_open_runtime_transactions :: "('k, 'v) OverlayedMap \<Rightarrow> bool" where
  "has_open_runtime_transactions self \<longleftrightarrow> transaction_depth self > num_client_transactions self"

definition start_transaction :: "('k, 'v) OverlayedMap \<Rightarrow> ('k, 'v) OverlayedMap" where
  "start_transaction self = self\<lparr>dirty_keys := [] # dirty_keys self\<rparr>"

text \<open>The body of the loop in \<open>close_transaction\<close>, on the changes and the remaining dirty sets.\<close>

definition close_key ::
  "bool \<Rightarrow> 'k::linorder \<Rightarrow> ('k, 'v OverlayedEntry) btree \<times> 'k list list \<Rightarrow>
   (('k, 'v OverlayedEntry) btree \<times> 'k list list) option" where
  "close_key rollback key st = (case st of (chg, dirty) \<Rightarrow>
     (case bt_get chg key of None \<Rightarrow> None
      | Some overlayed \<Rightarrow>
        if rollback then (case pop_transaction overlayed of None \<Rightarrow> None
          | Some (_, e) \<Rightarrow> Some (if transactions e = [] then bt_remove key chg else bt_insert key e chg, dirty))
        else
          (let (dirty', has_predecessor) = (case dirty of
               dk # rest \<Rightarrow> (insort_insert key dk # rest, key \<in> set dk)
             | [] \<Rightarrow> ([], length (transactions overlayed) > 1))
           in if has_predecessor
              then (case pop_transaction overlayed of None \<Rightarrow> None
                | Some (dropped_tx, e) \<Rightarrow> (case set_value_mut (iv_value dropped_tx) e of None \<Rightarrow> None
                  | Some e' \<Rightarrow> (case map_transaction_extrinsics
                        (\<lambda>x. extrinsics_extend x (iv_extrinsics dropped_tx)) e' of None \<Rightarrow> None
                    | Some e'' \<Rightarrow> Some (bt_insert key e'' chg, dirty'))))
              else Some (chg, dirty'))))"

fun close_keys ::
  "bool \<Rightarrow> 'k::linorder list \<Rightarrow> ('k, 'v OverlayedEntry) btree \<times> 'k list list \<Rightarrow>
   (('k, 'v OverlayedEntry) btree \<times> 'k list list) option" where
  "close_keys rollback [] st = Some st"
| "close_keys rollback (key # keys) st = (case close_key rollback key st of None \<Rightarrow> None
     | Some st' \<Rightarrow> close_keys rollback keys st')"

definition close_transaction ::
  "bool \<Rightarrow> ('k::linorder, 'v) OverlayedMap \<Rightarrow>
   (NoOpenTransaction, ('k, 'v) OverlayedMap) result option" where
  "close_transaction rollback self =
     (if execution_mode self = Runtime \<and> \<not> has_open_runtime_transactions self
      then Some (Inl NoOpenTransaction)
      else case dirty_keys self of [] \<Rightarrow> Some (Inl NoOpenTransaction)
        | dk # rest \<Rightarrow> (case close_keys rollback dk (changes self, rest) of None \<Rightarrow> None
            | Some (chg, dirty) \<Rightarrow> Some (Inr (self\<lparr>changes := chg, dirty_keys := dirty\<rparr>))))"

definition rollback_transaction ::
  "('k::linorder, 'v) OverlayedMap \<Rightarrow> (NoOpenTransaction, ('k, 'v) OverlayedMap) result option" where
  "rollback_transaction self = close_transaction True self"

definition commit_transaction ::
  "('k::linorder, 'v) OverlayedMap \<Rightarrow> (NoOpenTransaction, ('k, 'v) OverlayedMap) result option" where
  "commit_transaction self = close_transaction False self"

lemma close_key_length:
  "close_key rollback key (chg, dirty) = Some (chg', dirty') \<Longrightarrow> length dirty' = length dirty"
  by (auto simp: close_key_def Let_def split: option.splits if_splits list.splits prod.splits)

lemma close_keys_length:
  "close_keys rollback keys (chg, dirty) = Some (chg', dirty') \<Longrightarrow> length dirty' = length dirty"
proof (induction keys arbitrary: chg dirty)
  case (Cons key keys)
  then show ?case by (fastforce split: option.splits dest: close_key_length)
qed simp

lemma close_transaction_depth:
  "close_transaction rollback self = Some (Inr self') \<Longrightarrow>
     length (dirty_keys self') < length (dirty_keys self)"
  by (auto simp: close_transaction_def split: if_splits list.splits option.splits dest: close_keys_length)

text \<open>The loop of \<open>exit_runtime\<close>: every round closes a transaction, so it ends.\<close>

function rollback_dangling ::
  "('k::linorder, 'v) OverlayedMap \<Rightarrow> ('k, 'v) OverlayedMap option" where
  "rollback_dangling self = (if has_open_runtime_transactions self
     then (case rollback_transaction self of
         Some (Inr self') \<Rightarrow> rollback_dangling self'
       | _ \<Rightarrow> None)
     else Some self)"
  by pat_completeness auto
termination
  by (relation "measure (\<lambda>m. length (dirty_keys m))")
     (auto simp: rollback_transaction_def dest: close_transaction_depth)

declare rollback_dangling.simps [simp del]

definition exit_runtime ::
  "('k::linorder, 'v) OverlayedMap \<Rightarrow> (NotInRuntime, ('k, 'v) OverlayedMap) result option" where
  "exit_runtime self = (case execution_mode self of Client \<Rightarrow> Some (Inl NotInRuntime)
     | Runtime \<Rightarrow> (case rollback_dangling (self\<lparr>execution_mode := Client\<rparr>) of None \<Rightarrow> None
         | Some self' \<Rightarrow> Some (Inr self')))"

section \<open>Change sets\<close>

text \<open>
  \<open>modify\<close> registers a write and returns a reference to the value; here it returns the map and the
  value that the reference points to. A write through the reference is \<open>assign\<close>.
\<close>

definition modify ::
  "'k::linorder \<Rightarrow> 'w \<Rightarrow> u32 option \<Rightarrow> ('k, 'w option) OverlayedMap \<Rightarrow>
   (('k, 'w option) OverlayedMap \<times> 'w option) option" where
  "modify key init at_extrinsic self =
     (let overlayed = entry_or_default self key;
          (dirty, first_write_in_tx) = insert_dirty (dirty_keys self) key;
          clone_into_new_tx = (case transactions overlayed of
              tx # _ \<Rightarrow> if first_write_in_tx then Some (iv_value tx) else None
            | [] \<Rightarrow> Some (Some init))
      in case (case clone_into_new_tx of
              Some cloned \<Rightarrow> entry_set cloned first_write_in_tx at_extrinsic overlayed
            | None \<Rightarrow> Some overlayed) of None \<Rightarrow> None
         | Some e \<Rightarrow> (case value_ref e of None \<Rightarrow> None
             | Some v \<Rightarrow> Some (self\<lparr>changes := bt_insert key e (changes self), dirty_keys := dirty\<rparr>, v)))"

definition assign ::
  "'k::linorder \<Rightarrow> 'v \<Rightarrow> ('k, 'v) OverlayedMap \<Rightarrow> ('k, 'v) OverlayedMap option" where
  "assign key v self = (case set_value_mut v (entry_or_default self key) of None \<Rightarrow> None
     | Some e \<Rightarrow> Some (self\<lparr>changes := bt_insert key e (changes self)\<rparr>))"

fun clear_entries ::
  "('k::linorder \<Rightarrow> 'w option OverlayedEntry \<Rightarrow> bool) \<Rightarrow> u32 option \<Rightarrow>
   ('k \<times> 'w option OverlayedEntry) list \<Rightarrow> 'k list list \<Rightarrow> u32 \<Rightarrow>
   (('k \<times> 'w option OverlayedEntry) list \<times> 'k list list \<times> u32) option" where
  "clear_entries predicate at_extrinsic [] dirty count = Some ([], dirty, count)"
| "clear_entries predicate at_extrinsic ((key, val) # rest) dirty count =
     (if predicate key val
      then (case value_ref val of None \<Rightarrow> None
        | Some v \<Rightarrow>
          (let count' = (if v \<noteq> None then count + 1 else count);
               (dirty', first) = insert_dirty dirty key
           in case entry_set None first at_extrinsic val of None \<Rightarrow> None
              | Some val' \<Rightarrow> (case clear_entries predicate at_extrinsic rest dirty' count' of None \<Rightarrow> None
                  | Some (rest', d, n) \<Rightarrow> Some ((key, val') # rest', d, n))))
      else (case clear_entries predicate at_extrinsic rest dirty count of None \<Rightarrow> None
        | Some (rest', d, n) \<Rightarrow> Some ((key, val) # rest', d, n)))"

definition clear_where ::
  "('k::linorder \<Rightarrow> 'w option OverlayedEntry \<Rightarrow> bool) \<Rightarrow> u32 option \<Rightarrow>
   ('k, 'w option) OverlayedMap \<Rightarrow> (('k, 'w option) OverlayedMap \<times> u32) option" where
  "clear_where predicate at_extrinsic self =
     (case clear_entries predicate at_extrinsic (changes self) (dirty_keys self) 0 of None \<Rightarrow> None
      | Some (chg, dirty, count) \<Rightarrow> Some (self\<lparr>changes := chg, dirty_keys := dirty\<rparr>, count))"

definition changes_after :: "('k::linorder, 'v) OverlayedMap \<Rightarrow> 'k \<Rightarrow> ('k \<times> 'v OverlayedEntry) list" where
  "changes_after self key = filter (\<lambda>(k, _). key < k) (changes self)"

end
