(* ===== verification/Overlay_Refinement.thy ===== *)
theory Overlay_Refinement
  imports Overlay_Changeset
begin

text \<open>
  What the transactional overlay promises: it is a stack of plain maps, one for the committed
  values and one for every open transaction. A write changes the top map, starting a transaction
  copies it, a rollback drops it, and a commit drops the one below it. The versions and the dirty
  sets of the code implement this stack without ever copying a map.
\<close>

section \<open>The stack of maps\<close>

definition ver :: "('k, 'v OverlayedEntry) btree \<Rightarrow> 'k \<Rightarrow> 'v InnerValue list" where
  "ver chg k = (case bt_get chg k of None \<Rightarrow> [] | Some e \<Rightarrow> transactions e)"

definition newest :: "'v InnerValue list \<Rightarrow> 'v option" where
  "newest ts = (case ts of [] \<Rightarrow> None | t # _ \<Rightarrow> Some (iv_value t))"

fun views :: "'k list list \<Rightarrow> ('k \<Rightarrow> 'v InnerValue list) \<Rightarrow> ('k \<rightharpoonup> 'v) list" where
  "views [] vs = [\<lambda>k. newest (vs k)]"
| "views (dk # rest) vs =
     (\<lambda>k. newest (vs k)) # views rest (\<lambda>k. if k \<in> set dk then tl (vs k) else vs k)"

definition abs_map :: "('k, 'v) OverlayedMap \<Rightarrow> ('k \<rightharpoonup> 'v) list" where
  "abs_map m = views (dirty_keys m) (ver (changes m))"

section \<open>The invariant\<close>

definition chg_ok :: "('k::linorder, 'v OverlayedEntry) btree \<Rightarrow> bool" where
  "chg_ok chg \<longleftrightarrow> bt_wf chg \<and> list_all (\<lambda>(_, e). transactions e \<noteq> []) chg"

text \<open>The versions of a key are those of the transactions that wrote it, and at most one more.\<close>

fun counts :: "'k::linorder list list \<Rightarrow> ('k \<Rightarrow> nat) \<Rightarrow> bool" where
  "counts [] n \<longleftrightarrow> (\<forall>k. n k \<le> 1)"
| "counts (dk # rest) n \<longleftrightarrow> (\<forall>k \<in> set dk. n k > 0) \<and> sorted dk \<and> distinct dk \<and>
     counts rest (\<lambda>k. if k \<in> set dk then n k - 1 else n k)"

definition map_wf :: "('k::linorder, 'v) OverlayedMap \<Rightarrow> bool" where
  "map_wf m \<longleftrightarrow> chg_ok (changes m) \<and> counts (dirty_keys m) (\<lambda>k. length (ver (changes m) k)) \<and>
     (execution_mode m = Runtime \<longrightarrow> num_client_transactions m \<le> transaction_depth m)"

lemma chg_ok_entry: "chg_ok chg \<Longrightarrow> bt_get chg k = Some e \<Longrightarrow> transactions e \<noteq> []"
  by (auto simp: chg_ok_def list_all_iff dest!: map_of_SomeD)

lemma chg_okI:
  assumes "bt_wf chg" "\<And>k e. bt_get chg k = Some e \<Longrightarrow> transactions e \<noteq> []"
  shows "chg_ok chg"
  using assms by (auto simp: chg_ok_def list_all_iff bt_wf_distinct)

lemma ver_Nil: "chg_ok chg \<Longrightarrow> ver chg k = [] \<longleftrightarrow> bt_get chg k = None"
  by (auto simp: ver_def split: option.splits dest: chg_ok_entry)

lemma ver_insert: "ver (bt_insert k e chg) = (ver chg)(k := transactions e)"
  by (auto simp: ver_def map_of_bt_insert)

lemma ver_remove: "ver (bt_remove k chg) = (ver chg)(k := [])"
  by (auto simp: ver_def map_of_bt_remove)

lemma chg_ok_insert: "chg_ok chg \<Longrightarrow> transactions e \<noteq> [] \<Longrightarrow> chg_ok (bt_insert k e chg)"
  by (rule chg_okI)
     (auto simp: bt_wf_insert map_of_bt_insert chg_ok_entry split: if_splits, simp add: chg_ok_def bt_wf_insert)

lemma chg_ok_remove: "chg_ok chg \<Longrightarrow> chg_ok (bt_remove k chg)"
  by (auto simp: chg_ok_def list_all_iff bt.wf_del) (auto simp: bt_remove_def)

lemmas chg_simps = ver_insert ver_remove chg_ok_insert chg_ok_remove

lemma counts_cong: "(\<And>k. n k = n' k) \<Longrightarrow> counts ds n = counts ds n'"
  by (rule arg_cong[where f = "counts ds"]) auto

lemma views_length [simp]: "length (views ds vs) = Suc (length ds)"
  by (induction ds vs rule: views.induct) auto

lemma views_not_Nil [simp]: "views ds vs \<noteq> []"
  by (cases ds) auto

lemma hd_views: "hd (views ds vs) = (\<lambda>k. newest (vs k))"
  by (cases ds) auto

section \<open>Writes\<close>

lemma iv_update: "t\<lparr>iv_value := v\<rparr> = \<lparr>iv_value = v, iv_extrinsics = iv_extrinsics t\<rparr>"
  by (cases t) simp

lemma entry_set_Some:
  "\<exists>x. entry_set v first at e = Some \<lparr>transactions =
     \<lparr>iv_value = v, iv_extrinsics = x\<rparr> # (if first \<or> transactions e = [] then transactions e else tl (transactions e))\<rparr>"
  by (cases "transactions e")
     (auto simp: entry_set_def set_value_mut_def map_transaction_extrinsics_def iv_update
       split: option.splits)

lemma entry_or_default_ver: "transactions (entry_or_default m k) = ver (changes m) k"
  by (auto simp: entry_or_default_def ver_def entry_default_def split: option.splits)

text \<open>A write at one key, as it acts on the versions.\<close>

lemma views_write:
  assumes "counts ds (\<lambda>k. length (vs k))" "insert_dirty ds k = (ds', first)"
    and "vs' = vs(k := t # (if first \<or> vs k = [] then vs k else tl (vs k)))"
  shows "views ds' vs' = (hd (views ds vs))(k \<mapsto> iv_value t) # tl (views ds vs)"
    "counts ds' (\<lambda>k. length (vs' k))"
proof (atomize (full), cases ds)
  case Nil
  with assms have "ds' = []" "\<not> first" "length (vs k) \<le> 1" by auto
  then show "views ds' vs' = (hd (views ds vs))(k \<mapsto> iv_value t) # tl (views ds vs) \<and>
      counts ds' (\<lambda>k. length (vs' k))"
    using Nil assms(1,3) by (cases "vs k") (auto simp: newest_def fun_eq_iff)
next
  case (Cons dk rest)
  with assms(2) have ds': "ds' = insort_insert k dk # rest" "first \<longleftrightarrow> k \<notin> set dk" by auto
  have below: "(\<lambda>j. if j \<in> set (insort_insert k dk) then tl (vs' j) else vs' j) =
      (\<lambda>j. if j \<in> set dk then tl (vs j) else vs j)"
    using assms(1) Cons ds'(2) by (auto simp: assms(3) fun_eq_iff set_insort_insert)
  have below': "(\<lambda>j. if j \<in> set (insort_insert k dk) then length (vs' j) - 1 else length (vs' j)) =
      (\<lambda>j. if j \<in> set dk then length (vs j) - 1 else length (vs j))"
    using assms(1) Cons ds'(2) by (auto simp: assms(3) fun_eq_iff set_insort_insert)
  have top: "(\<lambda>j. newest (vs' j)) = (\<lambda>j. newest (vs j))(k \<mapsto> iv_value t)"
    by (auto simp: assms(3) newest_def)
  have "\<forall>j \<in> set (insort_insert k dk). 0 < length (vs' j)"
    using assms(1) Cons by (auto simp: assms(3) set_insort_insert)
  with assms(1) show "views ds' vs' = (hd (views ds vs))(k \<mapsto> iv_value t) # tl (views ds vs) \<and>
      counts ds' (\<lambda>k. length (vs' k))"
    by (simp add: Cons ds'(1) below below' top sorted_insort_insert distinct_insort_insert del: length_greater_0_conv)
qed

lemma map_set_ok:
  assumes "map_wf m"
  shows "\<exists>m'. map_set k v at m = Some m' \<and> map_wf m' \<and>
    abs_map m' = (hd (abs_map m))(k \<mapsto> v) # tl (abs_map m) \<and>
    num_client_transactions m' = num_client_transactions m \<and> execution_mode m' = execution_mode m \<and>
    transaction_depth m' = transaction_depth m"
proof -
  obtain ds first where ds: "insert_dirty (dirty_keys m) k = (ds, first)" by fastforce
  obtain x where x: "entry_set v first at (entry_or_default m k) = Some \<lparr>transactions =
     \<lparr>iv_value = v, iv_extrinsics = x\<rparr> # (if first \<or> ver (changes m) k = [] then ver (changes m) k
       else tl (ver (changes m) k))\<rparr>"
    using entry_set_Some[of v first at "entry_or_default m k"] by (auto simp: entry_or_default_ver)
  have len: "length ds = length (dirty_keys m)" using ds by (cases "dirty_keys m") auto
  note w = views_write[OF _ ds refl, of "ver (changes m)" "\<lparr>iv_value = v, iv_extrinsics = x\<rparr>"]
  from assms w show ?thesis
    by (simp add: map_set_def ds x map_wf_def chg_simps abs_map_def transaction_depth_def len)
qed

section \<open>Closing a transaction\<close>

lemma close_key_rollback:
  assumes "chg_ok chg" "ver chg k \<noteq> []"
  shows "\<exists>chg'. close_key True k (chg, d) = Some (chg', d) \<and> chg_ok chg' \<and>
    ver chg' = (ver chg)(k := tl (ver chg k))"
proof -
  from assms(2) obtain e t ts where "bt_get chg k = Some e" "transactions e = t # ts" "ver chg k = t # ts"
    by (auto simp: ver_def split: option.splits list.splits) (metis neq_Nil_conv)
  then show ?thesis
    using assms(1) by (cases ts) (auto simp: close_key_def pop_transaction_def chg_simps)
qed

lemma close_keys_rollback:
  "chg_ok chg \<Longrightarrow> distinct keys \<Longrightarrow> \<forall>k \<in> set keys. ver chg k \<noteq> [] \<Longrightarrow>
   \<exists>chg'. close_keys True keys (chg, d) = Some (chg', d) \<and> chg_ok chg' \<and>
     ver chg' = (\<lambda>k. if k \<in> set keys then tl (ver chg k) else ver chg k)"
proof (induction keys arbitrary: chg)
  case (Cons k keys)
  from close_key_rollback[of chg k d] Cons.prems obtain chg1 where
    1: "close_key True k (chg, d) = Some (chg1, d)" "chg_ok chg1" "ver chg1 = (ver chg)(k := tl (ver chg k))"
    by auto
  have "\<exists>chg'. close_keys True keys (chg1, d) = Some (chg', d) \<and> chg_ok chg' \<and>
      ver chg' = (\<lambda>j. if j \<in> set keys then tl (ver chg1 j) else ver chg1 j)"
    by (rule Cons.IH[OF 1(2)]) (use Cons.prems in \<open>auto simp: 1(3)\<close>)
  then obtain chg' where 2: "close_keys True keys (chg1, d) = Some (chg', d)" "chg_ok chg'"
    "ver chg' = (\<lambda>j. if j \<in> set keys then tl (ver chg1 j) else ver chg1 j)" by blast
  have "ver chg' = (\<lambda>j. if j \<in> set (k # keys) then tl (ver chg j) else ver chg j)"
    using Cons.prems(2) by (auto simp: 2(3) fun_eq_iff 1(3))
  with 1 2 show ?case by auto
qed simp

text \<open>The value of the closed transaction replaces the one below it.\<close>

fun merge_top :: "'v InnerValue list \<Rightarrow> 'v InnerValue list" where
  "merge_top (t # u # ts) =
     \<lparr>iv_value = iv_value t, iv_extrinsics = iv_extrinsics u @ iv_extrinsics t\<rparr> # ts"
| "merge_top ts = ts"

definition merges :: "'k list list \<Rightarrow> 'k \<Rightarrow> bool" where
  "merges d k = (case d of [] \<Rightarrow> True | dk # _ \<Rightarrow> k \<in> set dk)"

definition add_dirty :: "'k::linorder list \<Rightarrow> 'k list list \<Rightarrow> 'k list list" where
  "add_dirty keys d = (case d of [] \<Rightarrow> [] | dk # rest \<Rightarrow> fold insort_insert keys dk # rest)"

lemma merge_top_simps [simp]:
  "newest (merge_top ts) = newest ts" "merge_top ts = [] \<longleftrightarrow> ts = []"
  "length ts > 1 \<Longrightarrow> tl (merge_top ts) = tl (tl ts)"
  "length ts > 1 \<Longrightarrow> length (merge_top ts) = length ts - 1"
  by (cases ts rule: merge_top.cases; simp add: newest_def)+

lemma close_key_commit:
  assumes "chg_ok chg" "ver chg k \<noteq> []" "d \<noteq> [] \<Longrightarrow> merges d k \<Longrightarrow> length (ver chg k) > 1"
  shows "\<exists>chg'. close_key False k (chg, d) = Some (chg', add_dirty [k] d) \<and> chg_ok chg' \<and>
    ver chg' = (ver chg)(k := if merges d k then merge_top (ver chg k) else ver chg k)"
proof -
  from assms(2) obtain e where e: "bt_get chg k = Some e" "transactions e = ver chg k"
    by (auto simp: ver_def split: option.splits)
  show ?thesis
    using assms e
    by (cases d; cases "ver chg k" rule: merge_top.cases)
       (auto simp: close_key_def pop_transaction_def set_value_mut_def map_transaction_extrinsics_def
         extrinsics_extend_def merges_def add_dirty_def chg_simps iv_update fun_upd_idem)
qed

lemma add_dirty_Cons: "add_dirty keys (add_dirty [k] d) = add_dirty (k # keys) d"
  by (simp add: add_dirty_def split: list.splits)

lemma merges_add_dirty: "j \<noteq> k \<Longrightarrow> merges (add_dirty [k] d) j = merges d j"
  by (auto simp: merges_def add_dirty_def set_insort_insert split: list.splits)

lemma add_dirty_Nil_iff [simp]: "add_dirty keys d = [] \<longleftrightarrow> d = []"
  by (simp add: add_dirty_def split: list.splits)

lemma close_keys_commit:
  assumes "chg_ok chg" "distinct keys"
    and "\<And>k. k \<in> set keys \<Longrightarrow> ver chg k \<noteq> []"
    and "\<And>k. k \<in> set keys \<Longrightarrow> d \<noteq> [] \<Longrightarrow> merges d k \<Longrightarrow> length (ver chg k) > 1"
  shows "\<exists>chg'. close_keys False keys (chg, d) = Some (chg', add_dirty keys d) \<and> chg_ok chg' \<and>
    ver chg' = (\<lambda>k. if k \<in> set keys \<and> merges d k then merge_top (ver chg k) else ver chg k)"
  using assms
proof (induction keys arbitrary: chg d)
  case Nil
  then show ?case by (simp add: add_dirty_def split: list.splits)
next
  case (Cons k keys)
  from close_key_commit[of chg k d] Cons.prems obtain chg1 where
    1: "close_key False k (chg, d) = Some (chg1, add_dirty [k] d)" "chg_ok chg1"
      "ver chg1 = (ver chg)(k := if merges d k then merge_top (ver chg k) else ver chg k)"
    by auto
  have other: "ver chg1 j = ver chg j" "merges (add_dirty [k] d) j = merges d j" if "j \<in> set keys" for j
    using that Cons.prems(2) 1(3) merges_add_dirty[of j k d] by auto
  have "\<exists>chg'. close_keys False keys (chg1, add_dirty [k] d) = Some (chg', add_dirty keys (add_dirty [k] d)) \<and>
      chg_ok chg' \<and> ver chg' = (\<lambda>j. if j \<in> set keys \<and> merges (add_dirty [k] d) j
        then merge_top (ver chg1 j) else ver chg1 j)"
    by (rule Cons.IH[OF 1(2)]) (use Cons.prems other in auto)
  then obtain chg' where 2: "close_keys False keys (chg1, add_dirty [k] d) = Some (chg', add_dirty (k # keys) d)"
    "chg_ok chg'" "ver chg' = (\<lambda>j. if j \<in> set keys \<and> merges (add_dirty [k] d) j
        then merge_top (ver chg1 j) else ver chg1 j)"
    by (auto simp: add_dirty_Cons)
  have "ver chg' = (\<lambda>j. if j \<in> set (k # keys) \<and> merges d j then merge_top (ver chg j) else ver chg j)"
    using Cons.prems(2) by (auto simp: 2(3) fun_eq_iff other 1(3))
  with 1 2 show ?case by auto
qed

lemma fold_insort_insert:
  "set (fold insort_insert keys dk) = set keys \<union> set dk"
  "sorted dk \<Longrightarrow> sorted (fold insort_insert keys dk)"
  "distinct dk \<Longrightarrow> distinct (fold insort_insert keys dk)"
  by (induction keys arbitrary: dk)
     (auto simp: set_insort_insert sorted_insort_insert distinct_insort_insert)

lemma views_commit:
  assumes "counts (dk # rest) (\<lambda>k. length (vs k))"
    and "vs' = (\<lambda>k. if k \<in> set dk \<and> merges rest k then merge_top (vs k) else vs k)"
  shows "views (add_dirty dk rest) vs' =
      hd (views (dk # rest) vs) # tl (tl (views (dk # rest) vs)) \<and>
    counts (add_dirty dk rest) (\<lambda>k. length (vs' k))"
proof (cases rest)
  case Nil
  have "length (vs' k) \<le> 1" for k
  proof -
    have "(if k \<in> set dk then length (vs k) - 1 else length (vs k)) \<le> 1"
      using assms(1) by (simp add: Nil)
    then show ?thesis
      by (cases "vs k" rule: merge_top.cases) (auto simp: assms(2) merges_def Nil split: if_splits)
  qed
  then show ?thesis
    using Nil by (simp add: add_dirty_def assms(2)) (simp add: fun_eq_iff)
next
  case (Cons dk2 rest2)
  have pos: "vs k \<noteq> []" if "k \<in> set dk" for k using assms(1) that by auto
  have two: "length (vs k) > 1" if "k \<in> set dk" "k \<in> set dk2" for k
    using assms(1) that Cons by fastforce
  have dk2: "vs k \<noteq> []" if "k \<in> set dk2" for k
    using assms(1) that Cons two[of k] by (cases "k \<in> set dk") (fastforce, force)
  let ?d = "fold insort_insert dk dk2"
  have below: "(\<lambda>k. if k \<in> set ?d then tl (vs' k) else vs' k) = (\<lambda>k. if k \<in> set dk2
      then tl (if k \<in> set dk then tl (vs k) else vs k) else (if k \<in> set dk then tl (vs k) else vs k))"
    using two by (auto simp: fun_eq_iff fold_insort_insert assms(2) Cons merges_def)
  have below': "(\<lambda>k. if k \<in> set ?d then length (vs' k) - 1 else length (vs' k)) = (\<lambda>k. if k \<in> set dk2
      then (if k \<in> set dk then length (vs k) - 1 else length (vs k)) - 1
      else (if k \<in> set dk then length (vs k) - 1 else length (vs k)))"
    using two by (auto simp: fun_eq_iff fold_insort_insert assms(2) Cons merges_def)
  have top: "(\<lambda>k. newest (vs' k)) = (\<lambda>k. newest (vs k))" by (auto simp: assms(2))
  have "\<forall>k \<in> set ?d. vs' k \<noteq> []"
    using pos dk2 by (auto simp: fold_insort_insert assms(2))
  with assms(1) below' show ?thesis
    by (simp add: Cons add_dirty_def below top fold_insort_insert(2,3))
qed

lemma counts_pos: "counts (dk # rest) n \<Longrightarrow> k \<in> set dk \<Longrightarrow> n k > 0"
  "counts (dk # rest) n \<Longrightarrow> k \<in> set dk \<Longrightarrow> rest \<noteq> [] \<Longrightarrow> merges rest k \<Longrightarrow> n k > 1"
  by (cases rest; fastforce simp: merges_def)+

text \<open>The context in which a transaction may be closed.\<close>

definition may_close :: "('k, 'v) OverlayedMap \<Rightarrow> bool" where
  "may_close m \<longleftrightarrow> dirty_keys m \<noteq> [] \<and> (execution_mode m = Runtime \<longrightarrow> has_open_runtime_transactions m)"

lemma close_transaction_err:
  "\<not> may_close m \<Longrightarrow> close_transaction r m = Some (Inl NoOpenTransaction)"
  by (cases "dirty_keys m") (auto simp: may_close_def close_transaction_def)

lemma rollback_ok:
  assumes "map_wf m" "may_close m"
  shows "\<exists>m'. rollback_transaction m = Some (Inr m') \<and> map_wf m' \<and> abs_map m' = tl (abs_map m) \<and>
    num_client_transactions m' = num_client_transactions m \<and> execution_mode m' = execution_mode m"
proof -
  from assms(2) obtain dk rest where d: "dirty_keys m = dk # rest"
    by (auto simp: may_close_def neq_Nil_conv)
  from assms(1) have c: "chg_ok (changes m)" "counts (dk # rest) (\<lambda>k. length (ver (changes m) k))"
    by (auto simp: map_wf_def d)
  then obtain chg where "close_keys True dk (changes m, rest) = Some (chg, rest)" "chg_ok chg"
    "ver chg = (\<lambda>k. if k \<in> set dk then tl (ver (changes m) k) else ver (changes m) k)"
    using close_keys_rollback[of "changes m" dk rest] by auto
  moreover have "counts rest (\<lambda>k. length (if k \<in> set dk then tl (ver (changes m) k) else ver (changes m) k))"
    using c(2) by (simp add: if_distrib cong: if_cong)
  ultimately show ?thesis
    using assms d
    by (auto simp: rollback_transaction_def close_transaction_def may_close_def map_wf_def abs_map_def
        has_open_runtime_transactions_def transaction_depth_def)
qed

lemma commit_ok:
  assumes "map_wf m" "may_close m"
  shows "\<exists>m'. commit_transaction m = Some (Inr m') \<and> map_wf m' \<and>
    abs_map m' = hd (abs_map m) # tl (tl (abs_map m)) \<and>
    num_client_transactions m' = num_client_transactions m \<and> execution_mode m' = execution_mode m"
proof -
  from assms(2) obtain dk rest where d: "dirty_keys m = dk # rest"
    by (auto simp: may_close_def neq_Nil_conv)
  from assms(1) have c: "chg_ok (changes m)" "counts (dk # rest) (\<lambda>k. length (ver (changes m) k))"
    by (auto simp: map_wf_def d)
  note pos = counts_pos[OF c(2)]
  have "\<exists>chg. close_keys False dk (changes m, rest) = Some (chg, add_dirty dk rest) \<and> chg_ok chg \<and>
    ver chg = (\<lambda>k. if k \<in> set dk \<and> merges rest k then merge_top (ver (changes m) k) else ver (changes m) k)"
    by (rule close_keys_commit[OF c(1)]) (use c(2) pos in auto)
  then obtain chg where "close_keys False dk (changes m, rest) = Some (chg, add_dirty dk rest)" "chg_ok chg"
    and v: "ver chg = (\<lambda>k. if k \<in> set dk \<and> merges rest k then merge_top (ver (changes m) k) else ver (changes m) k)"
    by blast
  moreover have "length (add_dirty dk rest) = length rest" by (simp add: add_dirty_def split: list.splits)
  ultimately show ?thesis
    using assms d views_commit[OF c(2) v]
    by (auto simp: commit_transaction_def close_transaction_def may_close_def map_wf_def abs_map_def
        has_open_runtime_transactions_def transaction_depth_def)
qed

section \<open>Runtime mode\<close>

lemma abs_map_length: "length (abs_map m) = Suc (transaction_depth m)"
  by (simp add: abs_map_def transaction_depth_def)

lemma rollback_dangling_ok:
  "map_wf m \<Longrightarrow> execution_mode m = Client \<Longrightarrow>
   \<exists>m'. rollback_dangling m = Some m' \<and> map_wf m' \<and>
     abs_map m' = drop (transaction_depth m - num_client_transactions m) (abs_map m) \<and>
     num_client_transactions m' = num_client_transactions m \<and> execution_mode m' = Client"
proof (induction m rule: rollback_dangling.induct)
  case (1 m)
  show ?case
  proof (cases "has_open_runtime_transactions m")
    case True
    then have "may_close m"
      by (auto simp: may_close_def has_open_runtime_transactions_def transaction_depth_def)
    from rollback_ok[OF "1.prems"(1) this] obtain m1 where
      m1: "rollback_transaction m = Some (Inr m1)" "map_wf m1" "abs_map m1 = tl (abs_map m)"
        "num_client_transactions m1 = num_client_transactions m" "execution_mode m1 = Client"
      using "1.prems"(2) by auto
    have "transaction_depth m1 = transaction_depth m - 1"
      using m1(3) abs_map_length[of m] abs_map_length[of m1] by simp
    with "1.IH"[OF True m1(1) refl m1(2,5)] True m1 show ?thesis
      by (simp add: rollback_dangling.simps[of m] has_open_runtime_transactions_def drop_Suc[symmetric] Suc_diff_Suc)
  next
    case False
    then show ?thesis
      using "1.prems" by (simp add: rollback_dangling.simps[of m] has_open_runtime_transactions_def)
  qed
qed

lemma start_ok:
  assumes "map_wf m"
  shows "map_wf (start_transaction m)" "abs_map (start_transaction m) = hd (abs_map m) # abs_map m"
  using assms
  by (auto simp: start_transaction_def map_wf_def abs_map_def transaction_depth_def hd_views)

section \<open>The promise of a transactional store\<close>

locale transactional =
  fixes ok :: "'s \<Rightarrow> bool"
    and stack :: "'s \<Rightarrow> ('k \<rightharpoonup> 'v) list"
    and closable :: "'s \<Rightarrow> bool"
    and put :: "'k \<Rightarrow> 'v \<Rightarrow> 'x \<Rightarrow> 's \<Rightarrow> 's option"
    and start :: "'s \<Rightarrow> 's"
    and rollback :: "'s \<Rightarrow> (NoOpenTransaction, 's) result option"
    and commit :: "'s \<Rightarrow> (NoOpenTransaction, 's) result option"
  assumes put: "ok s \<Longrightarrow> \<exists>s'. put k v x s = Some s' \<and> ok s' \<and>
      stack s' = (hd (stack s))(k \<mapsto> v) # tl (stack s) \<and> closable s' = closable s"
    and start: "ok s \<Longrightarrow> ok (start s) \<and> stack (start s) = hd (stack s) # stack s \<and> closable (start s)"
    and rollback: "ok s \<Longrightarrow> closable s \<Longrightarrow>
      \<exists>s'. rollback s = Some (Inr s') \<and> ok s' \<and> stack s' = tl (stack s)"
    and commit: "ok s \<Longrightarrow> closable s \<Longrightarrow>
      \<exists>s'. commit s = Some (Inr s') \<and> ok s' \<and> stack s' = hd (stack s) # tl (tl (stack s))"
    and refuse: "\<not> closable s \<Longrightarrow> rollback s = Some (Inl NoOpenTransaction) \<and>
      commit s = Some (Inl NoOpenTransaction)"
    and stack: "stack s \<noteq> []"
begin

primrec puts :: "('k \<times> 'v \<times> 'x) list \<Rightarrow> 's \<Rightarrow> 's option" where
  "puts [] s = Some s"
| "puts (w # ws) s = (case put (fst w) (fst (snd w)) (snd (snd w)) s of None \<Rightarrow> None
     | Some s' \<Rightarrow> puts ws s')"

lemma puts_ok:
  "ok s \<Longrightarrow> \<exists>s'. puts ws s = Some s' \<and> ok s' \<and> closable s' = closable s \<and>
     stack s' = (hd (stack s) ++ map_of (rev (map (\<lambda>(k, v, _). (k, v)) ws))) # tl (stack s)"
proof (induction ws arbitrary: s)
  case Nil
  then show ?case using stack[of s] by simp
next
  case (Cons w ws)
  obtain k v x where w: "w = (k, v, x)" by (cases w)
  from put[OF Cons.prems, of k v x] obtain s1 where s1: "put k v x s = Some s1" "ok s1"
    "stack s1 = (hd (stack s))(k \<mapsto> v) # tl (stack s)" "closable s1 = closable s" by blast
  from Cons.IH[OF s1(2)] obtain s' where s': "puts ws s1 = Some s'" "ok s'" "closable s' = closable s1"
    "stack s' = (hd (stack s1) ++ map_of (rev (map (\<lambda>(k, v, _). (k, v)) ws))) # tl (stack s1)" by blast
  have "stack s' = (hd (stack s) ++ map_of (rev (map (\<lambda>(k, v, _). (k, v)) (w # ws)))) # tl (stack s)"
    unfolding s'(4) s1(3) by (simp add: w map_add_assoc)
  with s1 s' show ?case by (simp add: w)
qed

lemma rollback_restores:
  assumes "ok s"
  shows "\<exists>s1 s2. puts ws (start s) = Some s1 \<and> rollback s1 = Some (Inr s2) \<and> ok s2 \<and> stack s2 = stack s"
proof -
  from start[OF assms] puts_ok[of "start s" ws] obtain s1 where "puts ws (start s) = Some s1" "ok s1"
    "closable s1" "tl (stack s1) = stack s" by auto
  with rollback[of s1] show ?thesis by auto
qed

lemma commit_keeps:
  assumes "ok s"
  shows "\<exists>s1 s2. puts ws (start s) = Some s1 \<and> commit s1 = Some (Inr s2) \<and> ok s2 \<and>
    (\<exists>s3. puts ws s = Some s3 \<and> stack s2 = stack s3)"
proof -
  from start[OF assms] puts_ok[of "start s" ws] obtain s1 where "puts ws (start s) = Some s1" "ok s1"
    "closable s1" "stack s1 = (hd (stack s) ++ map_of (rev (map (\<lambda>(k, v, _). (k, v)) ws))) # stack s" by auto
  with commit[of s1] puts_ok[OF assms, of ws] show ?thesis by auto
qed

end

interpretation ov: transactional map_wf abs_map may_close map_set start_transaction
  rollback_transaction commit_transaction
proof (unfold_locales, goal_cases)
  case (1 m k v x)
  from map_set_ok[OF 1, of k v x] obtain m' where m': "map_set k v x m = Some m'" "map_wf m'"
    "abs_map m' = (hd (abs_map m))(k \<mapsto> v) # tl (abs_map m)"
    "num_client_transactions m' = num_client_transactions m" "execution_mode m' = execution_mode m"
    "transaction_depth m' = transaction_depth m" by blast
  have "dirty_keys m' = [] \<longleftrightarrow> dirty_keys m = []"
    using m'(6) unfolding transaction_depth_def by (metis length_0_conv)
  with m' have "may_close m' = may_close m"
    by (simp add: may_close_def has_open_runtime_transactions_def)
  with m' show ?case by auto
next
  case (2 m)
  then show ?case
    using start_ok[OF 2]
    by (auto simp: may_close_def start_transaction_def has_open_runtime_transactions_def map_wf_def
        transaction_depth_def)
next
  case (3 m)
  then show ?case using rollback_ok by blast
next
  case (4 m)
  then show ?case using commit_ok by blast
next
  case (5 m)
  then show ?case by (simp add: rollback_transaction_def commit_transaction_def close_transaction_err)
next
  case (6 m)
  show ?case by (simp add: abs_map_def)
qed

section \<open>Whole runs\<close>

datatype overlay_error = ErrNoOpenTransaction | ErrAlreadyInRuntime | ErrNotInRuntime

datatype ('k, 'v) overlay_op =
    OpSet 'k 'v "u32 option" | OpStart | OpRollback | OpCommit | OpEnterRuntime | OpExitRuntime

fun close_result :: "('e, 'a) result option \<Rightarrow> overlay_error \<Rightarrow> (overlay_error, 'a) result option" where
  "close_result None err = None"
| "close_result (Some (Inl _)) err = Some (Inl err)"
| "close_result (Some (Inr m)) err = Some (Inr m)"

fun apply_op ::
  "('k::linorder, 'v) overlay_op \<Rightarrow> ('k, 'v) OverlayedMap \<Rightarrow>
   (overlay_error, ('k, 'v) OverlayedMap) result option" where
  "apply_op (OpSet k v at) m = map_option Inr (map_set k v at m)"
| "apply_op OpStart m = Some (Inr (start_transaction m))"
| "apply_op OpRollback m = close_result (rollback_transaction m) ErrNoOpenTransaction"
| "apply_op OpCommit m = close_result (commit_transaction m) ErrNoOpenTransaction"
| "apply_op OpEnterRuntime m = close_result (Some (enter_runtime m)) ErrAlreadyInRuntime"
| "apply_op OpExitRuntime m = close_result (exit_runtime m) ErrNotInRuntime"

text \<open>The abstract machine: the stack of maps, the number of protected transactions, the mode.\<close>

type_synonym ('k, 'v) overlay_spec = "('k \<rightharpoonup> 'v) list \<times> nat \<times> ExecutionMode"

fun spec_op ::
  "('k, 'v) overlay_op \<Rightarrow> ('k, 'v) overlay_spec \<Rightarrow> (overlay_error, ('k, 'v) overlay_spec) result" where
  "spec_op (OpSet k v _) (s, n, md) = Inr ((hd s)(k \<mapsto> v) # tl s, n, md)"
| "spec_op OpStart (s, n, md) = Inr (hd s # s, n, md)"
| "spec_op OpRollback (s, n, md) = (if length s - 1 > (if md = Runtime then n else 0)
     then Inr (tl s, n, md) else Inl ErrNoOpenTransaction)"
| "spec_op OpCommit (s, n, md) = (if length s - 1 > (if md = Runtime then n else 0)
     then Inr (hd s # tl (tl s), n, md) else Inl ErrNoOpenTransaction)"
| "spec_op OpEnterRuntime (s, n, md) =
     (if md = Runtime then Inl ErrAlreadyInRuntime else Inr (s, length s - 1, Runtime))"
| "spec_op OpExitRuntime (s, n, md) =
     (if md = Client then Inl ErrNotInRuntime else Inr (drop (length s - 1 - n) s, n, Client))"

definition abs_overlay :: "('k, 'v) OverlayedMap \<Rightarrow> ('k, 'v) overlay_spec" where
  "abs_overlay m = (abs_map m, num_client_transactions m, execution_mode m)"

lemma may_close_abs:
  "may_close m \<longleftrightarrow> length (abs_map m) - 1 > (if execution_mode m = Runtime then num_client_transactions m else 0)"
  by (auto simp: abs_map_length may_close_def has_open_runtime_transactions_def transaction_depth_def)

lemma apply_op_refines:
  assumes "map_wf m"
  shows "\<exists>r. apply_op op m = Some r \<and> spec_op op (abs_overlay m) = map_sum id abs_overlay r \<and>
    pred_sum (\<lambda>_. True) map_wf r"
proof (cases op)
  case (OpSet k v at)
  then show ?thesis using map_set_ok[OF assms, of k v at] by (auto simp: abs_overlay_def)
next
  case OpStart
  then show ?thesis using start_ok[OF assms] by (simp add: abs_overlay_def start_transaction_def)
next
  case OpRollback
  show ?thesis
  proof (cases "may_close m")
    case True
    with rollback_ok[OF assms] OpRollback show ?thesis
      by (auto simp: abs_overlay_def may_close_abs split: if_splits)
  next
    case False
    with ov.refuse[OF False] OpRollback show ?thesis by (auto simp: abs_overlay_def may_close_abs)
  qed
next
  case OpCommit
  show ?thesis
  proof (cases "may_close m")
    case True
    with commit_ok[OF assms] OpCommit show ?thesis
      by (auto simp: abs_overlay_def may_close_abs split: if_splits)
  next
    case False
    with ov.refuse[OF False] OpCommit show ?thesis by (auto simp: abs_overlay_def may_close_abs)
  qed
next
  case OpEnterRuntime
  with assms show ?thesis
    by (cases "execution_mode m")
       (auto simp: enter_runtime_def abs_overlay_def abs_map_length map_wf_def abs_map_def transaction_depth_def)
next
  case OpExitRuntime
  show ?thesis
  proof (cases "execution_mode m")
    case Client
    then show ?thesis using OpExitRuntime by (simp add: exit_runtime_def abs_overlay_def)
  next
    case Runtime
    let ?c = "m\<lparr>execution_mode := Client\<rparr>"
    have "map_wf ?c" "abs_map ?c = abs_map m" "transaction_depth ?c = transaction_depth m"
      using assms by (simp_all add: map_wf_def abs_map_def transaction_depth_def)
    with rollback_dangling_ok[of ?c] Runtime OpExitRuntime show ?thesis
      by (auto simp: exit_runtime_def abs_overlay_def abs_map_length)
  qed
qed

fun run_ops ::
  "('k::linorder, 'v) overlay_op list \<Rightarrow> ('k, 'v) OverlayedMap \<Rightarrow>
   (overlay_error list \<times> ('k, 'v) OverlayedMap) option" where
  "run_ops [] m = Some ([], m)"
| "run_ops (op # ops) m = (case apply_op op m of None \<Rightarrow> None
     | Some (Inl e) \<Rightarrow> map_option (apfst (Cons e)) (run_ops ops m)
     | Some (Inr m') \<Rightarrow> run_ops ops m')"

fun spec_run ::
  "('k, 'v) overlay_op list \<Rightarrow> ('k, 'v) overlay_spec \<Rightarrow> overlay_error list \<times> ('k, 'v) overlay_spec" where
  "spec_run [] s = ([], s)"
| "spec_run (op # ops) s = (case spec_op op s of
       Inl e \<Rightarrow> apfst (Cons e) (spec_run ops s)
     | Inr s' \<Rightarrow> spec_run ops s')"

lemma run_ops_refines:
  "map_wf m \<Longrightarrow> \<exists>es m'. run_ops ops m = Some (es, m') \<and> map_wf m' \<and>
     spec_run ops (abs_overlay m) = (es, abs_overlay m')"
proof (induction ops arbitrary: m)
  case (Cons op ops)
  from apply_op_refines[OF Cons.prems, of op] obtain r where
    r: "apply_op op m = Some r" "spec_op op (abs_overlay m) = map_sum id abs_overlay r"
      "pred_sum (\<lambda>_. True) map_wf r" by blast
  show ?case
  proof (cases r)
    case (Inl e)
    with r Cons.IH[OF Cons.prems] show ?thesis by auto
  next
    case (Inr m1)
    with r Cons.IH[of m1] show ?thesis by auto
  qed
qed simp

lemma map_default_wf: "map_wf map_default"
  by (simp add: map_wf_def map_default_def chg_ok_def ver_def)

lemma abs_map_default: "abs_overlay map_default = ([Map.empty], 0, Client)"
  by (auto simp: abs_overlay_def abs_map_def map_default_def newest_def ver_def)

lemma map_get_view: "Option.bind (map_get m k) value_ref = hd (abs_map m) k"
  by (auto simp: map_get_def value_ref_def abs_map_def hd_views newest_def ver_def
      split: option.splits)

text \<open>C2: any sequence of writes, starts, commits, rollbacks and mode changes, from an empty overlay,
  runs without a panic, and its errors, the protected transactions and the values that each nesting
  level sees are those of a plain stack of maps.\<close>

theorem overlay_runs_as_stack:
  "\<exists>es m. run_ops ops map_default = Some (es, m) \<and>
     spec_run ops ([Map.empty], 0, Client) = (es, abs_overlay m) \<and>
     (\<forall>k. Option.bind (map_get m k) value_ref = hd (abs_map m) k)"
  using run_ops_refines[OF map_default_wf, of ops] by (auto simp: abs_map_default map_get_view)

section \<open>Modify, clear and drain\<close>

lemma modify_ok:
  assumes "map_wf m"
  shows "\<exists>m'. modify k init at m = Some (m', case hd (abs_map m) k of None \<Rightarrow> Some init | Some v \<Rightarrow> v) \<and>
    map_wf m' \<and> abs_map m' = (hd (abs_map m))(k \<mapsto> case hd (abs_map m) k of None \<Rightarrow> Some init | Some v \<Rightarrow> v)
      # tl (abs_map m)"
proof -
  let ?vs = "ver (changes m)" and ?v = "case hd (abs_map m) k of None \<Rightarrow> Some init | Some v \<Rightarrow> v"
  obtain ds first where ds: "insert_dirty (dirty_keys m) k = (ds, first)" by fastforce
  have len: "length ds = length (dirty_keys m)" using ds by (cases "dirty_keys m") auto
  have v: "?v = (case ?vs k of [] \<Rightarrow> Some init | t # _ \<Rightarrow> iv_value t)"
    by (simp add: abs_map_def hd_views newest_def split: list.splits)
  define w where "w = (case ?vs k of [] \<Rightarrow> entry_set (Some init) first at (entry_or_default m k)
    | t # _ \<Rightarrow> if first then entry_set (iv_value t) first at (entry_or_default m k)
        else Some (entry_or_default m k))"
  have "\<exists>x. w = Some \<lparr>transactions = \<lparr>iv_value = ?v, iv_extrinsics = x\<rparr> #
      (if first \<or> ?vs k = [] then ?vs k else tl (?vs k))\<rparr>"
  proof (cases "?vs k")
    case Nil
    then show ?thesis
      using entry_set_Some[of "Some init" first at "entry_or_default m k"]
      by (simp add: w_def v entry_or_default_ver)
  next
    case (Cons t ts)
    then have "entry_or_default m k = \<lparr>transactions = t # ts\<rparr>"
      using entry_or_default_ver[of m k] by (cases "entry_or_default m k") simp
    moreover have "\<lparr>iv_value = iv_value t, iv_extrinsics = iv_extrinsics t\<rparr> = t" by (cases t) simp
    ultimately have "\<not> first \<Longrightarrow> w = Some \<lparr>transactions =
        \<lparr>iv_value = iv_value t, iv_extrinsics = iv_extrinsics t\<rparr> # ts\<rparr>"
      using Cons by (simp add: w_def)
    moreover have "first \<Longrightarrow> ?thesis"
      using Cons entry_set_Some[of "iv_value t" True at "entry_or_default m k"]
      by (simp add: w_def v entry_or_default_ver)
    ultimately show ?thesis using Cons by (cases first) (auto simp: v)
  qed
  then obtain x where x: "w = Some \<lparr>transactions = \<lparr>iv_value = ?v, iv_extrinsics = x\<rparr> #
      (if first \<or> ?vs k = [] then ?vs k else tl (?vs k))\<rparr>" by blast
  have "modify k init at m = (case w of None \<Rightarrow> None | Some e \<Rightarrow> (case value_ref e of None \<Rightarrow> None
      | Some v \<Rightarrow> Some (m\<lparr>changes := bt_insert k e (changes m), dirty_keys := ds\<rparr>, v)))"
    by (simp add: modify_def ds w_def entry_or_default_ver Let_def split: list.splits)
  moreover note views_write[OF _ ds refl, of ?vs "\<lparr>iv_value = ?v, iv_extrinsics = x\<rparr>"]
  ultimately show ?thesis
    using assms by (simp add: x value_ref_def map_wf_def chg_simps abs_map_def transaction_depth_def len)
qed

text \<open>The keys that \<open>clear_where\<close> deletes and how many of them had a value.\<close>

definition cleared :: "('k \<Rightarrow> 'w option OverlayedEntry \<Rightarrow> bool) \<Rightarrow> ('k \<times> 'w option OverlayedEntry) list \<Rightarrow> 'k set" where
  "cleared p es = {k. \<exists>e. (k, e) \<in> set es \<and> p k e}"

definition cleared_values ::
  "('k \<Rightarrow> 'w option OverlayedEntry \<Rightarrow> bool) \<Rightarrow> ('k \<times> 'w option OverlayedEntry) list \<Rightarrow> nat" where
  "cleared_values p es = length (filter (\<lambda>(k, e). p k e \<and> newest (transactions e) \<noteq> Some None) es)"

lemma clear_entries_ok:
  assumes "distinct (map fst es)" "list_all (\<lambda>(_, e). transactions e \<noteq> []) es"
    and "counts ds (\<lambda>k. length (vs k))" "\<And>k e. (k, e) \<in> set es \<Longrightarrow> vs k = transactions e"
  shows "\<exists>es' ds'. clear_entries p at es ds n = Some (es', ds', n + of_nat (cleared_values p es)) \<and>
    map fst es' = map fst es \<and> list_all (\<lambda>(_, e). transactions e \<noteq> []) es' \<and> length ds' = length ds \<and>
    (let vs' = (\<lambda>k. case map_of es' k of None \<Rightarrow> vs k | Some e \<Rightarrow> transactions e)
     in counts ds' (\<lambda>k. length (vs' k)) \<and>
        views ds' vs' = (\<lambda>k. if k \<in> cleared p es then Some None else hd (views ds vs) k) # tl (views ds vs))"
  using assms
proof (induction es arbitrary: ds vs n)
  case Nil
  then show ?case by (cases "views ds vs") (auto simp: cleared_def cleared_values_def)
next
  case (Cons x es)
  obtain k e where x: "x = (k, e)" by (cases x)
  have "vs k = transactions e" using Cons.prems(4)[of k e] by (simp add: x)
  with Cons.prems(2) have vk: "vs k = transactions e" "vs k \<noteq> []" by (simp_all add: x)
  have k: "k \<notin> fst ` set es" using Cons.prems(1) by (simp add: x)
  show ?case
  proof (cases "p k e")
    case False
    from Cons.IH[of ds vs n] Cons.prems obtain es' ds' where
      IH: "clear_entries p at es ds n = Some (es', ds', n + of_nat (cleared_values p es))"
        "map fst es' = map fst es" "list_all (\<lambda>(_, e). transactions e \<noteq> []) es'" "length ds' = length ds"
        "counts ds' (\<lambda>k. length (case map_of es' k of None \<Rightarrow> vs k | Some e \<Rightarrow> transactions e))"
        "views ds' (\<lambda>k. case map_of es' k of None \<Rightarrow> vs k | Some e \<Rightarrow> transactions e) =
          (\<lambda>k. if k \<in> cleared p es then Some None else hd (views ds vs) k) # tl (views ds vs)"
      by (auto simp: x Let_def)
    have "map_of es' k = None" using k IH(2) by (metis map_of_eq_None_iff image_set)
    then have same: "(case (if j = k then Some e else map_of es' j) of None \<Rightarrow> vs j | Some e \<Rightarrow> transactions e) =
        (case map_of es' j of None \<Rightarrow> vs j | Some e \<Rightarrow> transactions e)" for j
      using vk by simp
    have "cleared p (x # es) = cleared p es" "cleared_values p (x # es) = cleared_values p es"
      using False by (auto simp: cleared_def cleared_values_def x)
    then show ?thesis
      using IH False vk(2) by (simp add: x same Let_def vk(1)[symmetric])
  next
    case True
    obtain t ts where t: "transactions e = t # ts" using vk by (cases "transactions e") auto
    obtain d1 first where d1: "insert_dirty ds k = (d1, first)" by fastforce
    have len: "length d1 = length ds" using d1 by (cases ds) auto
    obtain y where y: "entry_set None first at e = Some \<lparr>transactions = \<lparr>iv_value = None, iv_extrinsics = y\<rparr> #
       (if first \<or> vs k = [] then vs k else tl (vs k))\<rparr>"
      using entry_set_Some[of None first at e] by (auto simp: vk(1))
    define e1 where "e1 = \<lparr>transactions = \<lparr>iv_value = None, iv_extrinsics = y\<rparr> #
       (if first \<or> vs k = [] then vs k else tl (vs k))\<rparr>"
    define vs1 where "vs1 = vs(k := transactions e1)"
    have w: "views d1 vs1 = (hd (views ds vs))(k \<mapsto> None) # tl (views ds vs)" "counts d1 (\<lambda>k. length (vs1 k))"
      using views_write[OF Cons.prems(3) d1, of vs1 "\<lparr>iv_value = None, iv_extrinsics = y\<rparr>"]
      by (simp_all add: vs1_def e1_def)
    let ?n = "if iv_value t \<noteq> None then n + 1 else n"
    have "\<exists>es' ds'. clear_entries p at es d1 ?n = Some (es', ds', ?n + of_nat (cleared_values p es)) \<and>
      map fst es' = map fst es \<and> list_all (\<lambda>(_, e). transactions e \<noteq> []) es' \<and> length ds' = length d1 \<and>
      (let vs' = (\<lambda>k. case map_of es' k of None \<Rightarrow> vs1 k | Some e \<Rightarrow> transactions e)
       in counts ds' (\<lambda>k. length (vs' k)) \<and>
          views ds' vs' = (\<lambda>k. if k \<in> cleared p es then Some None else hd (views d1 vs1) k) # tl (views d1 vs1))"
    proof (rule Cons.IH)
      fix j e' assume j: "(j, e') \<in> set es"
      with k have "j \<noteq> k" by force
      with j Cons.prems(4)[of j e'] show "vs1 j = transactions e'" by (simp add: x vs1_def)
    qed (use Cons.prems w(2) in \<open>simp_all add: x\<close>)
    then obtain es' ds' where
      IH: "clear_entries p at es d1 ?n = Some (es', ds', ?n + of_nat (cleared_values p es))"
        "map fst es' = map fst es" "list_all (\<lambda>(_, e). transactions e \<noteq> []) es'" "length ds' = length ds"
        "counts ds' (\<lambda>k. length (case map_of es' k of None \<Rightarrow> vs1 k | Some e \<Rightarrow> transactions e))"
        "views ds' (\<lambda>k. case map_of es' k of None \<Rightarrow> vs1 k | Some e \<Rightarrow> transactions e) =
          (\<lambda>j. if j \<in> cleared p es then Some None else hd (views d1 vs1) j) # tl (views d1 vs1)"
      unfolding Let_def len by blast
    have nk: "map_of es' k = None" using k IH(2) by (metis map_of_eq_None_iff image_set)
    have same: "(case (if j = k then Some e1 else map_of es' j) of None \<Rightarrow> vs j | Some e \<Rightarrow> transactions e) =
        (case map_of es' j of None \<Rightarrow> vs1 j | Some e \<Rightarrow> transactions e)" for j
      using nk by (auto simp: vs1_def split: option.splits)
    have cl: "(\<lambda>j. if j \<in> cleared p es then Some None else hd (views d1 vs1) j) =
        (\<lambda>j. if j \<in> cleared p (x # es) then Some None else hd (views ds vs) j)"
      using True by (auto simp: cleared_def x w(1) fun_eq_iff)
    have "clear_entries p at (x # es) ds n = Some ((k, e1) # es', ds', ?n + of_nat (cleared_values p es))"
      using True IH(1) by (simp add: x value_ref_def t d1 y e1_def[symmetric] Let_def)
    moreover have "?n + of_nat (cleared_values p es) = n + of_nat (cleared_values p (x # es))"
      using True by (simp add: cleared_values_def x t newest_def)
    ultimately show ?thesis
      using IH(2-6) cl w(1)
      by (simp add: x Let_def same) (simp add: e1_def)
  qed
qed

lemma clear_where_ok:
  assumes "map_wf m"
  shows "\<exists>m'. clear_where p at m = Some (m', of_nat (cleared_values p (changes m))) \<and> map_wf m' \<and>
    abs_map m' = (\<lambda>k. if k \<in> cleared p (changes m) then Some None else hd (abs_map m) k) # tl (abs_map m)"
proof -
  have wf: "bt_wf (changes m)" "list_all (\<lambda>(_, e). transactions e \<noteq> []) (changes m)"
    "counts (dirty_keys m) (\<lambda>k. length (ver (changes m) k))"
    using assms by (simp_all add: map_wf_def chg_ok_def)
  have get: "ver (changes m) k = transactions e" if "(k, e) \<in> set (changes m)" for k e
    using that wf(1) by (simp add: ver_def bt_wf_distinct)
  from clear_entries_ok[OF bt_wf_distinct[OF wf(1)] wf(2,3) get, of p at 0]
  obtain es' ds' where c: "clear_entries p at (changes m) (dirty_keys m) 0 =
      Some (es', ds', of_nat (cleared_values p (changes m)))"
    and keys: "map fst es' = map fst (changes m)"
    and ok: "list_all (\<lambda>(_, e). transactions e \<noteq> []) es'" "length ds' = length (dirty_keys m)"
    and v: "counts ds' (\<lambda>k. length (case map_of es' k of None \<Rightarrow> ver (changes m) k | Some e \<Rightarrow> transactions e))"
      "views ds' (\<lambda>k. case map_of es' k of None \<Rightarrow> ver (changes m) k | Some e \<Rightarrow> transactions e) =
        (\<lambda>k. if k \<in> cleared p (changes m) then Some None else hd (views (dirty_keys m) (ver (changes m))) k)
          # tl (views (dirty_keys m) (ver (changes m)))"
    by (auto simp: Let_def)
  have dom: "map_of es' k = None \<longleftrightarrow> map_of (changes m) k = None" for k
    using keys by (metis image_set map_of_eq_None_iff)
  have ver: "(\<lambda>k. case map_of es' k of None \<Rightarrow> ver (changes m) k | Some e \<Rightarrow> transactions e) = ver es'"
  proof (rule ext)
    fix k
    show "(case map_of es' k of None \<Rightarrow> ver (changes m) k | Some e \<Rightarrow> transactions e) = ver es' k"
      using dom[of k] by (cases "map_of es' k") (simp_all add: ver_def)
  qed
  have "chg_ok es'" using ok wf(1) keys by (simp add: chg_ok_def bt_wf_def)
  with assms c v ok(2) show ?thesis
    by (simp add: clear_where_def map_wf_def abs_map_def ver[symmetric] transaction_depth_def
        cong: if_cong)
qed

lemma drain_ok:
  assumes "map_wf m"
  shows "drain_committed m = (if transaction_depth m = 0
    then Some (map (\<lambda>(k, e). (k, iv_value (hd (transactions e)))) (changes m)) else None)"
proof -
  have "those (map (\<lambda>(k, e). map_option (\<lambda>(t, _). (k, iv_value t)) (pop_transaction e)) es) =
      Some (map (\<lambda>(k, e). (k, iv_value (hd (transactions e)))) es)"
    if "list_all (\<lambda>(_, e). transactions e \<noteq> []) es" for es :: "('a, 'b OverlayedEntry) btree"
    using that by (induction es) (auto simp: pop_transaction_def neq_Nil_conv)
  with assms show ?thesis by (simp add: drain_committed_def map_wf_def chg_ok_def)
qed

text \<open>On a well-formed overlay, \<open>clear_where\<close> deletes in the current transaction exactly the
  entries that the predicate selects and leaves every other value and every outer transaction as it
  was; it returns the number of selected entries that held a value.\<close>

theorem clear_where_deletes:
  assumes "map_wf m"
  shows "\<exists>m'. clear_where p at m = Some (m', of_nat (cleared_values p (changes m))) \<and> map_wf m' \<and>
    tl (abs_map m') = tl (abs_map m) \<and>
    hd (abs_map m') = (\<lambda>k. if k \<in> cleared p (changes m) then Some None else hd (abs_map m) k)"
  using clear_where_ok[OF assms, of p at] by auto

text \<open>\<open>modify\<close> never panics on a well-formed overlay; it hands out the value the key has in the
  overlay, or the initial value where the key is not there, registers it as written in the current
  transaction only, and a rollback of that transaction brings back the values from before.\<close>

theorem modify_then_rollback:
  assumes "map_wf m"
  shows "\<exists>m1 v m2. modify k init at (start_transaction m) = Some (m1, v) \<and>
    v = (case hd (abs_map m) k of None \<Rightarrow> Some init | Some w \<Rightarrow> w) \<and> hd (abs_map m1) k = Some v \<and>
    rollback_transaction m1 = Some (Inr m2) \<and> abs_map m2 = abs_map m"
proof -
  from modify_ok[OF start_ok(1)[OF assms], of k init at] obtain m1 where
    m1: "modify k init at (start_transaction m) = Some (m1, case hd (abs_map m) k of None \<Rightarrow> Some init | Some w \<Rightarrow> w)"
      "map_wf m1" "abs_map m1 = (hd (abs_map m))(k \<mapsto> case hd (abs_map m) k of None \<Rightarrow> Some init | Some w \<Rightarrow> w)
        # abs_map m"
    using start_ok(2)[OF assms] by auto
  have "num_client_transactions m1 = num_client_transactions m \<and> execution_mode m1 = execution_mode m"
    using m1(1) by (auto simp: modify_def Let_def start_transaction_def split: option.splits prod.splits list.splits)
  then have "may_close m1"
    using m1(3) assms by (auto simp: may_close_abs abs_map_length map_wf_def)
  from rollback_ok[OF m1(2) this] m1 show ?thesis by auto
qed

section \<open>Examples\<close>

definition ex_entry_map :: "(nat, nat option) OverlayedMap" where
  "ex_entry_map = \<lparr>changes = [(1, \<lparr>transactions = [\<lparr>iv_value = Some 5, iv_extrinsics = []\<rparr>]\<rparr>),
       (2, \<lparr>transactions = [\<lparr>iv_value = Some 6, iv_extrinsics = []\<rparr>]\<rparr>)],
     dirty_keys = [], num_client_transactions = 0, execution_mode = Client\<rparr>"

lemma ex_entry_map_wf: "map_wf ex_entry_map"
  by (auto simp: ex_entry_map_def map_wf_def chg_ok_def bt_wf_def ver_def)

theorem clear_where_deletes_witness:
  "map_wf ex_entry_map \<and> (\<exists>m'. clear_where (\<lambda>k _. k = 1) None ex_entry_map = Some (m', 1) \<and>
     hd (abs_map m') 1 = Some None \<and> hd (abs_map m') 2 = hd (abs_map ex_entry_map) 2)"
  using clear_where_deletes[OF ex_entry_map_wf, of "\<lambda>k _. k = 1" None] ex_entry_map_wf
  by (auto simp: cleared_def cleared_values_def ex_entry_map_def newest_def)

theorem modify_then_rollback_witness:
  "map_wf ex_entry_map \<and> (\<exists>m1 m2. modify 3 9 None (start_transaction ex_entry_map) = Some (m1, Some 9) \<and>
     rollback_transaction m1 = Some (Inr m2) \<and> abs_map m2 = abs_map ex_entry_map)"
proof -
  have "hd (abs_map ex_entry_map) 3 = None"
    by (simp add: ex_entry_map_def abs_map_def newest_def ver_def)
  then show ?thesis
    using modify_then_rollback[OF ex_entry_map_wf, of 3 9 None] ex_entry_map_wf by auto
qed

end
