(* ===== verification/Overlay_State.thy ===== *)
theory Overlay_State
  imports Overlay_Refinement "HOL-Library.List_Lexorder" "HOL-Library.Product_Lexorder"
    "HOL-Library.Monad_Syntax"
begin

text \<open>
  \<open>OverlayedChanges\<close> (\<open>substrate/primitives/state-machine/src/overlayed_changes/mod.rs\<close> and
  \<open>offchain.rs\<close>): the top-level change set, one change set for every child trie, the off-chain index,
  the statistics and the cached storage transaction. The change sets transact in lockstep.

  The backend that computes storage roots and the codec of integers and roots are parameters; the map
  of children is the \<open>BTreeMap\<close> of the build without the standard library. A failed \<open>expect\<close> or
  \<open>assert!\<close> is \<^const>\<open>None\<close>.
\<close>

section \<open>State\<close>

type_synonym StorageKey = bytes
type_synonym StorageValue = bytes
type_synonym OverlayedChangeSet = "(StorageKey, StorageValue option) OverlayedMap"
type_synonym storage_delta = "(StorageKey \<times> StorageValue option) list"

datatype ChildInfo = ParentKeyId bytes

fun storage_key :: "ChildInfo \<Rightarrow> bytes" where
  "storage_key (ParentKeyId data) = data"

definition DEFAULT_CHILD_STORAGE_KEY_PREFIX :: bytes where
  "DEFAULT_CHILD_STORAGE_KEY_PREFIX =
     [58, 99, 104, 105, 108, 100, 95, 115, 116, 111, 114, 97, 103, 101, 58, 100, 101, 102, 97, 117, 108, 116, 58]"

fun prefixed_storage_key :: "ChildInfo \<Rightarrow> bytes" where
  "prefixed_storage_key (ParentKeyId data) = DEFAULT_CHILD_STORAGE_KEY_PREFIX @ data"

definition EXTRINSIC_INDEX :: bytes where
  "EXTRINSIC_INDEX = [58, 101, 120, 116, 114, 105, 110, 115, 105, 99, 95, 105, 110, 100, 101, 120]"

definition NO_EXTRINSIC_INDEX :: u32 where
  "NO_EXTRINSIC_INDEX = 0xffffffff"

definition STORAGE_PREFIX :: bytes where
  "STORAGE_PREFIX = [115, 116, 111, 114, 97, 103, 101]"

datatype OffchainOverlayedChange = Remove | SetValue bytes

datatype IndexOperation =
    IndexInsert u32 bytes u32
  | IndexRenew u32 bytes

datatype StateVersion = V0 | V1

record StateMachineStats =
  reads_modified :: u64
  bytes_read_modified :: u64
  writes_overlay :: u64
  bytes_writes_overlay :: u64

definition stats_default :: StateMachineStats where
  "stats_default = \<lparr>reads_modified = 0, bytes_read_modified = 0, writes_overlay = 0,
     bytes_writes_overlay = 0\<rparr>"

definition tally_read_modified :: "u64 \<Rightarrow> StateMachineStats \<Rightarrow> StateMachineStats" where
  "tally_read_modified data_bytes st = st\<lparr>reads_modified := reads_modified st + 1,
     bytes_read_modified := bytes_read_modified st + data_bytes\<rparr>"

definition tally_write_overlay :: "u64 \<Rightarrow> StateMachineStats \<Rightarrow> StateMachineStats" where
  "tally_write_overlay data_bytes st = st\<lparr>writes_overlay := writes_overlay st + 1,
     bytes_writes_overlay := bytes_writes_overlay st + data_bytes\<rparr>"

record ('root, 'tx) OverlayedChanges =
  top :: OverlayedChangeSet
  children :: "(StorageKey, OverlayedChangeSet \<times> ChildInfo) btree"
  offchain :: "(bytes \<times> bytes, OffchainOverlayedChange) OverlayedMap"
  transaction_index_ops :: "IndexOperation list"
  collect_extrinsics :: bool
  stats :: StateMachineStats
  storage_transaction_cache :: "('tx \<times> 'root) option"

definition overlay_default :: "('root, 'tx) OverlayedChanges" where
  "overlay_default = \<lparr>top = map_default, children = [], offchain = map_default,
     transaction_index_ops = [], collect_extrinsics = False, stats = stats_default,
     storage_transaction_cache = None\<rparr>"

record ('root, 'tx, 'err) Backend =
  be_storage :: "StorageKey \<Rightarrow> ('err, StorageValue option) result"
  be_full_storage_root :: "storage_delta \<Rightarrow> (ChildInfo \<times> storage_delta) list \<Rightarrow> StateVersion \<Rightarrow> 'root \<times> 'tx"
  be_child_storage_root :: "ChildInfo \<Rightarrow> storage_delta \<Rightarrow> StateVersion \<Rightarrow> 'root \<times> bool \<times> 'tx"

record 'root RootCodec =
  encode_root :: "'root \<Rightarrow> bytes"
  decode_root :: "bytes \<Rightarrow> 'root option"
  empty_child_trie_root :: 'root

section \<open>Reading and writing\<close>

definition overlay_is_empty :: "('root, 'tx) OverlayedChanges \<Rightarrow> bool" where
  "overlay_is_empty self \<longleftrightarrow> map_is_empty (top self) \<and> children self = []"

definition set_collect_extrinsics :: "bool \<Rightarrow> ('root, 'tx) OverlayedChanges \<Rightarrow> ('root, 'tx) OverlayedChanges" where
  "set_collect_extrinsics b self = self\<lparr>collect_extrinsics := b\<rparr>"

definition size_of :: "StorageValue option \<Rightarrow> u64" where
  "size_of v = (case v of Some x \<Rightarrow> of_nat (length x) | None \<Rightarrow> 0)"

definition storage ::
  "StorageKey \<Rightarrow> ('root, 'tx) OverlayedChanges \<Rightarrow>
   (StorageValue option option \<times> ('root, 'tx) OverlayedChanges) option" where
  "storage key self = (case map_get (top self) key of None \<Rightarrow> Some (None, self)
     | Some x \<Rightarrow> do { v \<leftarrow> value_ref x;
         Some (Some v, self\<lparr>stats := tally_read_modified (size_of v) (stats self)\<rparr>) })"

definition mark_dirty :: "('root, 'tx) OverlayedChanges \<Rightarrow> ('root, 'tx) OverlayedChanges" where
  "mark_dirty self = self\<lparr>storage_transaction_cache := None\<rparr>"

text \<open>The codec of the extrinsic index is the parameter \<open>decode_u32\<close>.\<close>

definition extrinsic_index ::
  "(bytes \<Rightarrow> u32 option) \<Rightarrow> ('root, 'tx) OverlayedChanges \<Rightarrow>
   (u32 option \<times> ('root, 'tx) OverlayedChanges) option" where
  "extrinsic_index decode_u32 self = (if collect_extrinsics self then do {
       (found, self) \<leftarrow> storage EXTRINSIC_INDEX self;
       Some (Some (case found of
           Some (Some idx) \<Rightarrow> (case decode_u32 idx of Some i \<Rightarrow> i | None \<Rightarrow> NO_EXTRINSIC_INDEX)
         | _ \<Rightarrow> NO_EXTRINSIC_INDEX), self) }
     else Some (None, self))"

definition value_mut_or_insert_with ::
  "(bytes \<Rightarrow> u32 option) \<Rightarrow> StorageKey \<Rightarrow> StorageValue \<Rightarrow> ('root, 'tx) OverlayedChanges \<Rightarrow>
   (StorageValue \<times> ('root, 'tx) OverlayedChanges) option" where
  "value_mut_or_insert_with decode_u32 key init self = do {
     (at, self) \<leftarrow> extrinsic_index decode_u32 (mark_dirty self);
     (m, v) \<leftarrow> modify key init at (top self);
     (case v of Some x \<Rightarrow> Some (x, self\<lparr>top := m\<rparr>)
      | None \<Rightarrow> do { m \<leftarrow> assign key (Some []) m; Some ([], self\<lparr>top := m\<rparr>) }) }"

definition child_storage ::
  "ChildInfo \<Rightarrow> StorageKey \<Rightarrow> ('root, 'tx) OverlayedChanges \<Rightarrow>
   (StorageValue option option \<times> ('root, 'tx) OverlayedChanges) option" where
  "child_storage child_info key self =
     (case bt_get (children self) (storage_key child_info) of None \<Rightarrow> Some (None, self)
      | Some m \<Rightarrow> (case map_get (fst m) key of None \<Rightarrow> Some (None, self)
          | Some x \<Rightarrow> do { v \<leftarrow> value_ref x;
              Some (Some v, self\<lparr>stats := tally_read_modified (size_of v) (stats self)\<rparr>) }))"

definition set_storage ::
  "(bytes \<Rightarrow> u32 option) \<Rightarrow> StorageKey \<Rightarrow> StorageValue option \<Rightarrow> ('root, 'tx) OverlayedChanges \<Rightarrow>
   ('root, 'tx) OverlayedChanges option" where
  "set_storage decode_u32 key val self = do {
     let self = mark_dirty self;
     let self = self\<lparr>stats := tally_write_overlay (size_of val) (stats self)\<rparr>;
     (at, self) \<leftarrow> extrinsic_index decode_u32 self;
     m \<leftarrow> map_set key val at (top self);
     Some (self\<lparr>top := m\<rparr>) }"

text \<open>The entry of a child trie, spawned at the transaction depth of the top change set.\<close>

definition child_entry :: "ChildInfo \<Rightarrow> ('root, 'tx) OverlayedChanges \<Rightarrow> OverlayedChangeSet \<times> ChildInfo" where
  "child_entry child_info self =
     (case bt_get (children self) (storage_key child_info) of Some c \<Rightarrow> c
      | None \<Rightarrow> (spawn_child (top self), child_info))"

definition set_child_storage ::
  "(bytes \<Rightarrow> u32 option) \<Rightarrow> ChildInfo \<Rightarrow> StorageKey \<Rightarrow> StorageValue option \<Rightarrow>
   ('root, 'tx) OverlayedChanges \<Rightarrow> ('root, 'tx) OverlayedChanges option" where
  "set_child_storage decode_u32 child_info key val self = do {
     (at, self) \<leftarrow> extrinsic_index decode_u32 (mark_dirty self);
     let self = self\<lparr>stats := tally_write_overlay (size_of val) (stats self)\<rparr>;
     let (changeset, info) = child_entry child_info self;
     m \<leftarrow> map_set key val at changeset;
     Some (self\<lparr>children := bt_insert (storage_key child_info) (m, info) (children self)\<rparr>) }"

definition clear_child_where ::
  "(bytes \<Rightarrow> u32 option) \<Rightarrow> ChildInfo \<Rightarrow> (StorageKey \<Rightarrow> StorageValue option OverlayedEntry \<Rightarrow> bool) \<Rightarrow>
   ('root, 'tx) OverlayedChanges \<Rightarrow> (u32 \<times> ('root, 'tx) OverlayedChanges) option" where
  "clear_child_where decode_u32 child_info predicate self = do {
     (at, self) \<leftarrow> extrinsic_index decode_u32 (mark_dirty self);
     let (changeset, info) = child_entry child_info self;
     (m, count) \<leftarrow> clear_where predicate at changeset;
     Some (count, self\<lparr>children := bt_insert (storage_key child_info) (m, info) (children self)\<rparr>) }"

definition clear_child_storage ::
  "(bytes \<Rightarrow> u32 option) \<Rightarrow> ChildInfo \<Rightarrow> ('root, 'tx) OverlayedChanges \<Rightarrow>
   (u32 \<times> ('root, 'tx) OverlayedChanges) option" where
  "clear_child_storage decode_u32 child_info self =
     clear_child_where decode_u32 child_info (\<lambda>_ _. True) self"

definition starts_with :: "bytes \<Rightarrow> bytes \<Rightarrow> bool" where
  "starts_with key pre \<longleftrightarrow> take (length pre) key = pre"

definition clear_prefix ::
  "(bytes \<Rightarrow> u32 option) \<Rightarrow> bytes \<Rightarrow> ('root, 'tx) OverlayedChanges \<Rightarrow>
   (u32 \<times> ('root, 'tx) OverlayedChanges) option" where
  "clear_prefix decode_u32 pre self = do {
     (at, self) \<leftarrow> extrinsic_index decode_u32 (mark_dirty self);
     (m, count) \<leftarrow> clear_where (\<lambda>key _. starts_with key pre) at (top self);
     Some (count, self\<lparr>top := m\<rparr>) }"

definition clear_child_prefix ::
  "(bytes \<Rightarrow> u32 option) \<Rightarrow> ChildInfo \<Rightarrow> bytes \<Rightarrow> ('root, 'tx) OverlayedChanges \<Rightarrow>
   (u32 \<times> ('root, 'tx) OverlayedChanges) option" where
  "clear_child_prefix decode_u32 child_info pre self =
     clear_child_where decode_u32 child_info (\<lambda>key _. starts_with key pre) self"

definition offchain_set ::
  "bytes \<Rightarrow> bytes \<Rightarrow> bytes \<Rightarrow> (bytes \<times> bytes, OffchainOverlayedChange) OverlayedMap \<Rightarrow>
   (bytes \<times> bytes, OffchainOverlayedChange) OverlayedMap option" where
  "offchain_set pre key v m = map_set (pre, key) (SetValue v) None m"

definition offchain_remove ::
  "bytes \<Rightarrow> bytes \<Rightarrow> (bytes \<times> bytes, OffchainOverlayedChange) OverlayedMap \<Rightarrow>
   (bytes \<times> bytes, OffchainOverlayedChange) OverlayedMap option" where
  "offchain_remove pre key m = map_set (pre, key) Remove None m"

definition offchain_get ::
  "bytes \<Rightarrow> bytes \<Rightarrow> (bytes \<times> bytes, OffchainOverlayedChange) OverlayedMap \<Rightarrow>
   OffchainOverlayedChange option option" where
  "offchain_get pre key m = (case map_get m (pre, key) of None \<Rightarrow> Some None
     | Some e \<Rightarrow> map_option Some (value_ref e))"

definition set_offchain_storage ::
  "bytes \<Rightarrow> bytes option \<Rightarrow> ('root, 'tx) OverlayedChanges \<Rightarrow> ('root, 'tx) OverlayedChanges option" where
  "set_offchain_storage key v self = do {
     m \<leftarrow> (case v of Some x \<Rightarrow> offchain_set STORAGE_PREFIX key x (offchain self)
       | None \<Rightarrow> offchain_remove STORAGE_PREFIX key (offchain self));
     Some (self\<lparr>offchain := m\<rparr>) }"

definition add_transaction_index ::
  "IndexOperation \<Rightarrow> ('root, 'tx) OverlayedChanges \<Rightarrow> ('root, 'tx) OverlayedChanges" where
  "add_transaction_index op self = self\<lparr>transaction_index_ops := transaction_index_ops self @ [op]\<rparr>"

section \<open>Transactions in lockstep\<close>

definition overlay_transaction_depth :: "('root, 'tx) OverlayedChanges \<Rightarrow> nat" where
  "overlay_transaction_depth self = transaction_depth (top self)"

definition overlay_start_transaction :: "('root, 'tx) OverlayedChanges \<Rightarrow> ('root, 'tx) OverlayedChanges" where
  "overlay_start_transaction self = self\<lparr>top := start_transaction (top self),
     children := map (\<lambda>(k, changeset, info). (k, start_transaction changeset, info)) (children self),
     offchain := start_transaction (offchain self)\<rparr>"

text \<open>\<open>Result::expect\<close>.\<close>

fun expect :: "('e, 'a) result option \<Rightarrow> 'a option" where
  "expect (Some (Inr a)) = Some a"
| "expect _ = None"

text \<open>A fallible step on every child change set.\<close>

fun each_child ::
  "(OverlayedChangeSet \<Rightarrow> OverlayedChangeSet option) \<Rightarrow>
   (StorageKey \<times> OverlayedChangeSet \<times> ChildInfo) list \<Rightarrow>
   (StorageKey \<times> OverlayedChangeSet \<times> ChildInfo) list option" where
  "each_child f [] = Some []"
| "each_child f ((k, changeset, info) # rest) = do {
     changeset \<leftarrow> f changeset; rest \<leftarrow> each_child f rest; Some ((k, changeset, info) # rest) }"

text \<open>\<open>retain_map\<close> keeps the children that still hold changes after the rollback.\<close>

definition overlay_rollback_transaction ::
  "('root, 'tx) OverlayedChanges \<Rightarrow>
   ((NoOpenTransaction, unit) result \<times> ('root, 'tx) OverlayedChanges) option" where
  "overlay_rollback_transaction self = do {
     let self = mark_dirty self;
     r \<leftarrow> rollback_transaction (top self);
     (case r of Inl e \<Rightarrow> Some (Inl e, self)
      | Inr t \<Rightarrow> do {
          cs \<leftarrow> each_child (\<lambda>c. expect (rollback_transaction c)) (children self);
          o' \<leftarrow> expect (rollback_transaction (offchain self));
          Some (Inr (), self\<lparr>top := t,
            children := bt_retain (\<lambda>_ (changeset, _). \<not> map_is_empty changeset) cs, offchain := o'\<rparr>) }) }"

definition overlay_commit_transaction ::
  "('root, 'tx) OverlayedChanges \<Rightarrow>
   ((NoOpenTransaction, unit) result \<times> ('root, 'tx) OverlayedChanges) option" where
  "overlay_commit_transaction self = do {
     r \<leftarrow> commit_transaction (top self);
     (case r of Inl e \<Rightarrow> Some (Inl e, self)
      | Inr t \<Rightarrow> do {
          cs \<leftarrow> each_child (\<lambda>c. expect (commit_transaction c)) (children self);
          o' \<leftarrow> expect (commit_transaction (offchain self));
          Some (Inr (), self\<lparr>top := t, children := cs, offchain := o'\<rparr>) }) }"

definition overlay_enter_runtime ::
  "('root, 'tx) OverlayedChanges \<Rightarrow>
   ((AlreadyInRuntime, unit) result \<times> ('root, 'tx) OverlayedChanges) option" where
  "overlay_enter_runtime self = (case enter_runtime (top self) of Inl e \<Rightarrow> Some (Inl e, self)
     | Inr t \<Rightarrow> do {
         cs \<leftarrow> each_child (\<lambda>c. expect (Some (enter_runtime c))) (children self);
         o' \<leftarrow> expect (Some (enter_runtime (offchain self)));
         Some (Inr (), self\<lparr>top := t, children := cs, offchain := o'\<rparr>) })"

definition overlay_exit_runtime ::
  "('root, 'tx) OverlayedChanges \<Rightarrow>
   ((NotInRuntime, unit) result \<times> ('root, 'tx) OverlayedChanges) option" where
  "overlay_exit_runtime self = do {
     r \<leftarrow> exit_runtime (top self);
     (case r of Inl e \<Rightarrow> Some (Inl e, self)
      | Inr t \<Rightarrow> do {
          cs \<leftarrow> each_child (\<lambda>c. expect (exit_runtime c)) (children self);
          o' \<leftarrow> expect (exit_runtime (offchain self));
          Some (Inr (), self\<lparr>top := t, children := cs, offchain := o'\<rparr>) }) }"

section \<open>Roots and draining\<close>

text \<open>The values of a change set as the current transaction sees them.\<close>

definition delta_of :: "OverlayedChangeSet \<Rightarrow> storage_delta option" where
  "delta_of m = those (map (\<lambda>(k, e). map_option (\<lambda>v. (k, v)) (value_ref e)) (changes m))"

definition child_delta_of ::
  "(StorageKey \<times> OverlayedChangeSet \<times> ChildInfo) list \<Rightarrow> (ChildInfo \<times> storage_delta) list option" where
  "child_delta_of cs = those (map (\<lambda>(_, changeset, info). map_option (\<lambda>d. (info, d)) (delta_of changeset)) cs)"

definition storage_root ::
  "('root, 'tx, 'err) Backend \<Rightarrow> StateVersion \<Rightarrow> ('root, 'tx) OverlayedChanges \<Rightarrow>
   (('root \<times> bool) \<times> ('root, 'tx) OverlayedChanges) option" where
  "storage_root backend state_version self = (case storage_transaction_cache self of
       Some (_, root) \<Rightarrow> Some ((root, True), self)
     | None \<Rightarrow> do {
         delta \<leftarrow> delta_of (top self);
         child_delta \<leftarrow> child_delta_of (children self);
         let (root, transaction) = be_full_storage_root backend delta child_delta state_version;
         Some ((root, False), self\<lparr>storage_transaction_cache := Some (transaction, root)\<rparr>) })"

definition decode_child_root :: "'root RootCodec \<Rightarrow> bytes option \<Rightarrow> 'root" where
  "decode_child_root rc v = (case v of None \<Rightarrow> empty_child_trie_root rc
     | Some k \<Rightarrow> (case decode_root rc k of Some r \<Rightarrow> r | None \<Rightarrow> empty_child_trie_root rc))"

definition child_storage_root ::
  "(bytes \<Rightarrow> u32 option) \<Rightarrow> 'root RootCodec \<Rightarrow> ChildInfo \<Rightarrow> ('root, 'tx, 'err) Backend \<Rightarrow> StateVersion \<Rightarrow>
   ('root, 'tx) OverlayedChanges \<Rightarrow>
   (('err, 'root \<times> bool) result \<times> ('root, 'tx) OverlayedChanges) option" where
  "child_storage_root decode_u32 rc child_info backend state_version self =
     (let pkey = prefixed_storage_key child_info in
      if storage_transaction_cache self \<noteq> None then do {
        (found, self) \<leftarrow> storage pkey self;
        (case found of Some v \<Rightarrow> Some (Inr (decode_child_root rc v, True), self)
         | None \<Rightarrow> (case be_storage backend pkey of Inl e \<Rightarrow> Some (Inl e, self)
             | Inr v \<Rightarrow> Some (Inr (decode_child_root rc v, True), self))) }
      else (case bt_get (children self) (storage_key child_info) of
          Some (changeset, info) \<Rightarrow> do {
            delta \<leftarrow> delta_of changeset;
            let (root, is_empty, _) = be_child_storage_root backend info delta state_version;
            self \<leftarrow> set_storage decode_u32 pkey (if is_empty then None else Some (encode_root rc root)) self;
            Some (Inr (root, False), mark_dirty self) }
        | None \<Rightarrow> (case be_storage backend pkey of Inl e \<Rightarrow> Some (Inl e, self)
            | Inr v \<Rightarrow> Some (Inr (decode_child_root rc v, False), self))))"

record ('root, 'tx) StorageChanges =
  main_storage_changes :: storage_delta
  child_storage_changes :: "(StorageKey \<times> storage_delta) list"
  offchain_storage_changes :: "((bytes \<times> bytes) \<times> OffchainOverlayedChange) list"
  sc_transaction :: 'tx
  transaction_storage_root :: 'root
  transaction_index_changes :: "IndexOperation list"

definition offchain_into_iter ::
  "(bytes \<times> bytes, OffchainOverlayedChange) OverlayedMap \<Rightarrow>
   ((bytes \<times> bytes) \<times> OffchainOverlayedChange) list option" where
  "offchain_into_iter m = those (map (\<lambda>(k, e). map_option (\<lambda>v. (k, v)) (value_ref e)) (changes m))"

definition offchain_drain_committed ::
  "('root, 'tx) OverlayedChanges \<Rightarrow>
   (((bytes \<times> bytes) \<times> OffchainOverlayedChange) list \<times> ('root, 'tx) OverlayedChanges) option" where
  "offchain_drain_committed self = do {
     l \<leftarrow> offchain_into_iter (offchain self); Some (l, self\<lparr>offchain := map_default\<rparr>) }"

definition drain_storage_changes ::
  "('root, 'tx, 'err) Backend \<Rightarrow> StateVersion \<Rightarrow> ('root, 'tx) OverlayedChanges \<Rightarrow>
   (('root, 'tx) StorageChanges \<times> ('root, 'tx) OverlayedChanges) option" where
  "drain_storage_changes backend state_version self = do {
     (_, self) \<leftarrow> storage_root backend state_version self;
     (transaction, root) \<leftarrow> storage_transaction_cache self;
     main \<leftarrow> drain_committed (top self);
     cs \<leftarrow> those (map (\<lambda>(k, changeset, _). map_option (\<lambda>d. (k, d)) (drain_committed changeset)) (children self));
     (off, self) \<leftarrow> offchain_drain_committed self;
     Some (\<lparr>main_storage_changes = main, child_storage_changes = cs, offchain_storage_changes = off,
         sc_transaction = transaction, transaction_storage_root = root,
         transaction_index_changes = transaction_index_ops self\<rparr>,
       self\<lparr>storage_transaction_cache := None, top := map_default, children := [],
         transaction_index_ops := []\<rparr>) }"

definition iter_after ::
  "('root, 'tx) OverlayedChanges \<Rightarrow> StorageKey \<Rightarrow> (StorageKey \<times> StorageValue option OverlayedEntry) list" where
  "iter_after self key = changes_after (top self) key"

definition child_iter_after ::
  "('root, 'tx) OverlayedChanges \<Rightarrow> StorageKey \<Rightarrow> StorageKey \<Rightarrow>
   (StorageKey \<times> StorageValue option OverlayedEntry) list" where
  "child_iter_after self sk key = (case bt_get (children self) sk of None \<Rightarrow> []
     | Some (overlay, _) \<Rightarrow> changes_after overlay key)"

end
