(* ===== verification/Overlay_Lockstep.thy ===== *)
theory Overlay_Lockstep
  imports Overlay_State
begin

text \<open>
  The whole overlay keeps the contract of a single change set: the top-level storage, the child
  tries and the off-chain index are one stack of maps, because their change sets open and close
  transactions in lockstep. It follows that the \<open>expect\<close>s on the lockstep never fail. The second
  part is about the cached storage transaction: when the cache agrees with the values it was
  computed from.
\<close>

section \<open>Lockstep\<close>

definition sync :: "('a, 'b) OverlayedMap \<Rightarrow> ('c, 'd) OverlayedMap \<Rightarrow> bool" where
  "sync a b \<longleftrightarrow> transaction_depth a = transaction_depth b \<and>
     num_client_transactions a = num_client_transactions b \<and> execution_mode a = execution_mode b"

definition lockstep :: "('root, 'tx) OverlayedChanges \<Rightarrow> bool" where
  "lockstep s \<longleftrightarrow> map_wf (top s) \<and> map_wf (offchain s) \<and> sync (offchain s) (top s) \<and> bt_wf (children s) \<and>
     list_all (\<lambda>(_, m, _). map_wf m \<and> sync m (top s)) (children s)"

datatype okey = TopKey bytes | ChildKey bytes bytes | OffKey bytes

fun off_val :: "OffchainOverlayedChange \<Rightarrow> bytes option" where
  "off_val Remove = None"
| "off_val (SetValue v) = Some v"

definition child_views :: "('root, 'tx) OverlayedChanges \<Rightarrow> bytes \<Rightarrow> (bytes \<rightharpoonup> bytes option) list" where
  "child_views s c = (case bt_get (children s) c of
     None \<Rightarrow> replicate (Suc (transaction_depth (top s))) Map.empty | Some (m, _) \<Rightarrow> abs_map m)"

definition level ::
  "(bytes \<rightharpoonup> bytes option) \<Rightarrow> (bytes \<Rightarrow> bytes \<rightharpoonup> bytes option) \<Rightarrow>
   (bytes \<times> bytes \<rightharpoonup> OffchainOverlayedChange) \<Rightarrow> (okey \<rightharpoonup> bytes option)" where
  "level t c f key = (case key of TopKey k \<Rightarrow> t k | ChildKey x k \<Rightarrow> c x k
     | OffKey k \<Rightarrow> map_option off_val (f (STORAGE_PREFIX, k)))"

definition comb ::
  "(bytes \<rightharpoonup> bytes option) list \<Rightarrow> (bytes \<Rightarrow> (bytes \<rightharpoonup> bytes option) list) \<Rightarrow>
   (bytes \<times> bytes \<rightharpoonup> OffchainOverlayedChange) list \<Rightarrow> (okey \<rightharpoonup> bytes option) list" where
  "comb t c f = map (\<lambda>j. level (t ! j) (\<lambda>x. c x ! j) (f ! j)) [0..<length t]"

definition overlay_stack :: "('root, 'tx) OverlayedChanges \<Rightarrow> (okey \<rightharpoonup> bytes option) list" where
  "overlay_stack s = comb (abs_map (top s)) (child_views s) (abs_map (offchain s))"

definition overlay_closable :: "('root, 'tx) OverlayedChanges \<Rightarrow> bool" where
  "overlay_closable s \<longleftrightarrow> may_close (top s)"

lemma comb_Cons: "comb (a # t) (\<lambda>x. b x # c x) (d # f) = level a b d # comb t c f"
  by (simp add: comb_def upt_conv_Cons map_Suc_upt[symmetric] del: upt_Suc)

lemma comb_split:
  assumes "t \<noteq> []" "\<And>x. c x \<noteq> []" "f \<noteq> []"
  shows "comb t c f = level (hd t) (\<lambda>x. hd (c x)) (hd f) # comb (tl t) (\<lambda>x. tl (c x)) (tl f)"
  using comb_Cons[of "hd t" "tl t" "\<lambda>x. hd (c x)" "\<lambda>x. tl (c x)" "hd f" "tl f"] assms by simp

lemma abs_map_nonempty [simp]: "abs_map m \<noteq> []"
  by (simp add: abs_map_def)

lemma child_views_nonempty [simp]: "child_views s c \<noteq> []"
  by (simp add: child_views_def split: option.splits)

lemma overlay_stack_split:
  "overlay_stack s = level (hd (abs_map (top s))) (\<lambda>x. hd (child_views s x)) (hd (abs_map (offchain s)))
     # comb (tl (abs_map (top s))) (\<lambda>x. tl (child_views s x)) (tl (abs_map (offchain s)))"
  by (simp add: overlay_stack_def comb_split)

lemma views_empty: "views ds (\<lambda>_. []) = replicate (Suc (length ds)) Map.empty"
  by (induction ds) (simp_all add: newest_def cong: if_cong)

lemma abs_map_no_changes: "changes m = [] \<Longrightarrow> abs_map m = replicate (Suc (transaction_depth m)) Map.empty"
  using views_empty[of "dirty_keys m"]
  by (simp add: abs_map_def ver_def[abs_def] transaction_depth_def)

lemma counts_replicate_Nil: "counts (replicate n []) (\<lambda>_. 0)"
  by (induction n) (simp_all cong: if_cong)

lemma spawn_child_ok:
  assumes "map_wf m"
  shows "map_wf (spawn_child m)" "sync (spawn_child m) m"
    "abs_map (spawn_child m) = replicate (Suc (transaction_depth m)) Map.empty"
  using assms abs_map_no_changes[of "spawn_child m"]
  by (simp_all add: spawn_child_def sync_def map_wf_def chg_ok_def ver_def counts_replicate_Nil
      transaction_depth_def)

section \<open>Writes\<close>

lemma storage_ok:
  assumes "map_wf (top s)"
  shows "\<exists>st. storage k s = Some (hd (abs_map (top s)) k, s\<lparr>stats := st\<rparr>)"
proof (cases "map_get (top s) k")
  case None
  then show ?thesis
    using map_get_view[of "top s" k] by (auto simp: storage_def intro: exI[of _ "stats s"])
next
  case (Some e)
  then have "transactions e \<noteq> []"
    using assms chg_ok_entry by (auto simp: map_wf_def map_get_def)
  then obtain v where "value_ref e = Some v" by (cases "transactions e") (auto simp: value_ref_def)
  moreover from this Some have "hd (abs_map (top s)) k = Some v" by (simp flip: map_get_view)
  ultimately show ?thesis using Some by (auto simp: storage_def)
qed

lemma extrinsic_index_ok:
  assumes "map_wf (top s)"
  shows "\<exists>i st. extrinsic_index dec s = Some (i, s\<lparr>stats := st\<rparr>)"
proof (cases "collect_extrinsics s")
  case True
  then show ?thesis using storage_ok[OF assms, of EXTRINSIC_INDEX] by (auto simp: extrinsic_index_def)
next
  case False
  then show ?thesis by (auto simp: extrinsic_index_def intro: exI[of _ "stats s"])
qed

lemma child_entry_ok:
  assumes "lockstep s"
  shows "map_wf (fst (child_entry info s))" "sync (fst (child_entry info s)) (top s)"
    "abs_map (fst (child_entry info s)) = child_views s (storage_key info)"
  using assms spawn_child_ok[of "top s"]
  by (auto simp: child_entry_def child_views_def lockstep_def list_all_iff split: option.splits
      dest!: map_of_SomeD)

lemma child_views_insert:
  assumes "children s' = bt_insert c (m, i) (children s)" "transaction_depth (top s') = transaction_depth (top s)"
  shows "child_views s' = (child_views s)(c := abs_map m)"
  using assms by (auto simp: child_views_def map_of_bt_insert fun_eq_iff split: option.splits)

lemma child_views_cong:
  assumes "children s' = children s" "transaction_depth (top s') = transaction_depth (top s)"
  shows "child_views s' = child_views s"
  unfolding child_views_def[abs_def] assms ..

lemma set_of_bt_insert: "set (bt_insert k v m) \<subseteq> insert (k, v) (set m)"
  by (induction k v m rule: bt_insert.induct) (auto split: if_splits)

lemma lockstep_insert:
  assumes "lockstep s" "map_wf m" "sync m (top s)" "children s' = bt_insert c (m, i) (children s)"
    and "top s' = top s" "offchain s' = offchain s"
  shows "lockstep s'"
proof -
  have "bt_wf (children s')" using assms by (simp add: lockstep_def bt_wf_insert)
  moreover have "(case e of (_, m, _) \<Rightarrow> map_wf m \<and> sync m (top s'))" if "e \<in> set (children s')" for e
    using that assms set_of_bt_insert[of c "(m, i)" "children s"]
    by (auto simp: lockstep_def list_all_iff)
  ultimately show ?thesis using assms by (simp add: lockstep_def list_all_iff)
qed

lemma map_set_sync:
  assumes "map_wf m"
  obtains m' where "map_set k v at m = Some m'" "map_wf m'" "sync m' m"
    "abs_map m' = (hd (abs_map m))(k \<mapsto> v) # tl (abs_map m)"
  using map_set_ok[OF assms, of k v at] by (auto simp: sync_def)

lemma sync_trans: "sync a b \<Longrightarrow> sync b c \<Longrightarrow> sync a c" and sync_sym: "sync a b \<Longrightarrow> sync b a"
  by (simp_all add: sync_def)

lemma sync_may_close: "sync a b \<Longrightarrow> may_close a = may_close b"
  by (auto simp: sync_def may_close_def has_open_runtime_transactions_def transaction_depth_def
      simp flip: length_greater_0_conv)

text \<open>A write to one of the three kinds of storage.\<close>

fun overlay_put ::
  "(bytes \<Rightarrow> u32 option) \<Rightarrow> okey \<Rightarrow> bytes option \<Rightarrow> unit \<Rightarrow> ('root, 'tx) OverlayedChanges \<Rightarrow>
   ('root, 'tx) OverlayedChanges option" where
  "overlay_put dec (TopKey k) v _ s = set_storage dec k v s"
| "overlay_put dec (ChildKey c k) v _ s = set_child_storage dec (ParentKeyId c) k v s"
| "overlay_put dec (OffKey k) v _ s = set_offchain_storage k v s"

lemma set_storage_ok:
  assumes "lockstep s"
  shows "\<exists>st m. set_storage dec k v s = Some (s\<lparr>storage_transaction_cache := None, stats := st, top := m\<rparr>) \<and>
    map_wf m \<and> sync m (top s) \<and> abs_map m = (hd (abs_map (top s)))(k \<mapsto> v) # tl (abs_map (top s))"
proof -
  let ?s = "(mark_dirty s)\<lparr>stats := tally_write_overlay (size_of v) (stats (mark_dirty s))\<rparr>"
  have wf: "map_wf (top ?s)" using assms by (simp add: lockstep_def mark_dirty_def)
  obtain i st where i: "extrinsic_index dec ?s = Some (i, ?s\<lparr>stats := st\<rparr>)"
    using extrinsic_index_ok[OF wf, of dec] by blast
  obtain m where "map_set k v i (top ?s) = Some m" "map_wf m" "sync m (top ?s)"
    "abs_map m = (hd (abs_map (top ?s)))(k \<mapsto> v) # tl (abs_map (top ?s))"
    by (rule map_set_sync[OF wf])
  then show ?thesis
    using i by (auto simp: set_storage_def mark_dirty_def intro!: exI[of _ st])
qed

lemma set_child_storage_ok:
  assumes "lockstep s"
  shows "\<exists>st m i. set_child_storage dec info k v s = Some (s\<lparr>storage_transaction_cache := None, stats := st,
      children := bt_insert (storage_key info) (m, i) (children s)\<rparr>) \<and> map_wf m \<and> sync m (top s) \<and>
    abs_map m = (hd (child_views s (storage_key info)))(k \<mapsto> v) # tl (child_views s (storage_key info))"
proof -
  have wf: "map_wf (top (mark_dirty s))" using assms by (simp add: lockstep_def mark_dirty_def)
  obtain i st where i: "extrinsic_index dec (mark_dirty s) = Some (i, (mark_dirty s)\<lparr>stats := st\<rparr>)"
    using extrinsic_index_ok[OF wf, of dec] by blast
  let ?s = "(mark_dirty s)\<lparr>stats := tally_write_overlay (size_of v) st\<rparr>"
  have ls: "lockstep ?s" using assms by (simp add: lockstep_def mark_dirty_def)
  obtain cs inf where e: "child_entry info ?s = (cs, inf)" by fastforce
  note ce = child_entry_ok[OF ls, of info, unfolded e fst_conv]
  obtain m where m: "map_set k v i cs = Some m" "map_wf m" "sync m cs"
    "abs_map m = (hd (abs_map cs))(k \<mapsto> v) # tl (abs_map cs)"
    by (rule map_set_sync[OF ce(1)])
  have "child_views ?s = child_views s" by (rule child_views_cong) (simp_all add: mark_dirty_def)
  with m ce i e show ?thesis
    by (auto simp: set_child_storage_def mark_dirty_def sync_def
        intro!: exI[of _ "tally_write_overlay (size_of v) st"])
qed

lemma overlay_put_ok:
  assumes "lockstep s"
  shows "\<exists>s'. overlay_put dec k v x s = Some s' \<and> lockstep s' \<and>
    overlay_stack s' = (hd (overlay_stack s))(k \<mapsto> v) # tl (overlay_stack s) \<and>
    overlay_closable s' = overlay_closable s"
proof (cases k)
  case (TopKey b)
  obtain st m where m: "set_storage dec b v s = Some (s\<lparr>storage_transaction_cache := None, stats := st, top := m\<rparr>)"
    "map_wf m" "sync m (top s)" "abs_map m = (hd (abs_map (top s)))(b \<mapsto> v) # tl (abs_map (top s))"
    using set_storage_ok[OF assms, of dec b v] by blast
  let ?s = "s\<lparr>storage_transaction_cache := None, stats := st, top := m\<rparr>"
  have "child_views ?s = child_views s" using m(3) by (intro child_views_cong) (simp_all add: sync_def)
  then have "overlay_stack ?s = (hd (overlay_stack s))(k \<mapsto> v) # tl (overlay_stack s)"
    by (subst (1 2 3) overlay_stack_split) (auto simp: m(4) TopKey level_def fun_eq_iff split: okey.splits)
  moreover have "lockstep ?s"
    using assms m(2,3) by (auto simp: lockstep_def list_all_iff sync_def)
  ultimately show ?thesis using m(1) sync_may_close[OF m(3)] by (auto simp: TopKey overlay_closable_def)
next
  case (ChildKey c b)
  obtain st m i where m: "set_child_storage dec (ParentKeyId c) b v s = Some (s\<lparr>storage_transaction_cache := None,
      stats := st, children := bt_insert c (m, i) (children s)\<rparr>)" "map_wf m" "sync m (top s)"
    "abs_map m = (hd (child_views s c))(b \<mapsto> v) # tl (child_views s c)"
    using set_child_storage_ok[OF assms, of dec "ParentKeyId c" b v] by auto
  let ?s = "s\<lparr>storage_transaction_cache := None, stats := st, children := bt_insert c (m, i) (children s)\<rparr>"
  have "child_views ?s = (child_views s)(c := abs_map m)" by (rule child_views_insert) simp_all
  then have "overlay_stack ?s = (hd (overlay_stack s))(k \<mapsto> v) # tl (overlay_stack s)"
    by (subst (1 2 3) overlay_stack_split)
       (auto simp: m(4) ChildKey level_def fun_eq_iff fun_upd_def[of "child_views s"] if_distrib[of tl]
         split: okey.splits intro!: arg_cong2[where f = "\<lambda>x y. comb _ x y"] cong: if_cong)
  moreover have "lockstep ?s" by (rule lockstep_insert[OF assms m(2,3)]) simp_all
  ultimately show ?thesis using m(1) by (auto simp: ChildKey overlay_closable_def)
next
  case (OffKey b)
  let ?v = "case v of Some x \<Rightarrow> SetValue x | None \<Rightarrow> Remove"
  have wf: "map_wf (offchain s)" using assms by (simp add: lockstep_def)
  obtain m where m: "map_set (STORAGE_PREFIX, b) ?v None (offchain s) = Some m" "map_wf m" "sync m (offchain s)"
    "abs_map m = (hd (abs_map (offchain s)))((STORAGE_PREFIX, b) \<mapsto> ?v) # tl (abs_map (offchain s))"
    by (rule map_set_sync[OF wf])
  let ?s = "s\<lparr>offchain := m\<rparr>"
  have "set_offchain_storage b v s = Some ?s"
    using m(1) by (auto simp: set_offchain_storage_def offchain_set_def offchain_remove_def split: option.splits)
  moreover have "child_views ?s = child_views s" by (rule child_views_cong) simp_all
  then have "overlay_stack ?s = (hd (overlay_stack s))(k \<mapsto> v) # tl (overlay_stack s)"
    by (subst (1 2 3) overlay_stack_split)
       (auto simp: m(4) OffKey level_def fun_eq_iff split: okey.splits option.splits)
  moreover have "lockstep ?s"
    using assms m(2,3) by (auto simp: lockstep_def sync_def)
  ultimately show ?thesis by (auto simp: OffKey overlay_closable_def)
qed

section \<open>Opening and closing transactions\<close>

definition on_children ::
  "(OverlayedChangeSet \<Rightarrow> OverlayedChangeSet) \<Rightarrow> (StorageKey \<times> OverlayedChangeSet \<times> ChildInfo) list \<Rightarrow>
   (StorageKey \<times> OverlayedChangeSet \<times> ChildInfo) list" where
  "on_children g cs = map (\<lambda>(k, m, i). (k, g m, i)) cs"

lemma each_child_Some:
  "(\<And>k m i. (k, m, i) \<in> set cs \<Longrightarrow> f m = Some (g m)) \<Longrightarrow> each_child f cs = Some (on_children g cs)"
proof (induction cs)
  case (Cons x cs)
  obtain k m i where x: "x = (k, m, i)" by (cases x)
  have "f m = Some (g m)" using Cons.prems[of k m i] by (simp add: x)
  moreover have "each_child f cs = Some (on_children g cs)" by (rule Cons.IH) (use Cons.prems in auto)
  ultimately show ?case by (simp add: x on_children_def)
qed (simp add: on_children_def)

lemma on_children_simps:
  "bt_get (on_children g cs) c = map_option (\<lambda>(m, i). (g m, i)) (bt_get cs c)"
  "bt_wf (on_children g cs) = bt_wf cs"
  by (induction cs) (auto simp: on_children_def bt_wf_def)

definition with_maps ::
  "OverlayedChangeSet \<Rightarrow> (StorageKey \<times> OverlayedChangeSet \<times> ChildInfo) list \<Rightarrow>
   (bytes \<times> bytes, OffchainOverlayedChange) OverlayedMap \<Rightarrow> ('root, 'tx) OverlayedChanges \<Rightarrow>
   ('root, 'tx) OverlayedChanges" where
  "with_maps t cs f s = s\<lparr>top := t, children := cs, offchain := f\<rparr>"

lemma with_maps_simps [simp]:
  "top (with_maps t cs f s) = t" "children (with_maps t cs f s) = cs" "offchain (with_maps t cs f s) = f"
  by (simp_all add: with_maps_def)

lemma lockstep_with_maps:
  assumes "lockstep s" "map_wf t" "map_wf f" "sync f t"
    and "\<And>k m i. (k, m, i) \<in> set (children s) \<Longrightarrow> map_wf (g m) \<and> sync (g m) t"
  shows "lockstep (with_maps t (on_children g (children s)) f s)"
proof -
  have "bt_wf (on_children g (children s))"
    using assms(1) by (simp add: on_children_simps lockstep_def)
  with assms show ?thesis by (force simp: lockstep_def list_all_iff on_children_def)
qed

lemma child_of_lockstep:
  "lockstep s \<Longrightarrow> (k, m, i) \<in> set (children s) \<Longrightarrow> map_wf m \<and> sync m (top s)"
  "lockstep s \<Longrightarrow> bt_get (children s) c = Some (m, i) \<Longrightarrow> map_wf m \<and> sync m (top s)"
  by (auto simp: lockstep_def list_all_iff dest!: map_of_SomeD)

lemma child_views_length: "lockstep s \<Longrightarrow> length (child_views s c) = Suc (transaction_depth (top s))"
  by (auto simp: child_views_def abs_map_length sync_def split: option.splits dest: child_of_lockstep(2))

text \<open>The views after a step that acts in the same way on every stack of maps.\<close>

lemma child_views_with_maps:
  assumes "lockstep s"
    and "\<And>m. map_wf m \<Longrightarrow> sync m (top s) \<Longrightarrow> abs_map (g m) = F (abs_map m)"
    and "F (replicate (Suc (transaction_depth (top s))) Map.empty) = replicate (Suc (transaction_depth t)) Map.empty"
  shows "child_views (with_maps t (on_children g (children s)) f s) = (\<lambda>c. F (child_views s c))"
proof (rule ext)
  fix c
  show "child_views (with_maps t (on_children g (children s)) f s) c = F (child_views s c)"
  proof (cases "bt_get (children s) c")
    case None
    then show ?thesis using assms(3) by (simp add: child_views_def on_children_simps)
  next
    case (Some mi)
    then obtain m i where "bt_get (children s) c = Some (m, i)" by (cases mi) auto
    with child_of_lockstep(2)[OF assms(1) this] assms(2) show ?thesis
      by (simp add: child_views_def on_children_simps)
  qed
qed

lemma comb_drop:
  assumes "\<And>x. length (c x) = length t" "length f = length t" "n \<le> length t"
  shows "comb (drop n t) (\<lambda>x. drop n (c x)) (drop n f) = drop n (comb t c f)"
  by (rule nth_equalityI) (use assms in \<open>simp_all add: comb_def less_diff_conv add.commute[of n]\<close>)

lemma sync_start: "sync a b \<Longrightarrow> sync (start_transaction a) (start_transaction b)"
  by (simp add: sync_def start_transaction_def transaction_depth_def)

lemma comb_commit:
  assumes "\<And>x. length (c x) = length t" "length f = length t" "length t \<ge> 2"
  shows "comb (hd t # tl (tl t)) (\<lambda>x. hd (c x) # tl (tl (c x))) (hd f # tl (tl f)) =
    hd (comb t c f) # tl (tl (comb t c f))"
proof -
  have ne: "t \<noteq> []" "f \<noteq> []" "\<And>x. c x \<noteq> []" using assms by (auto simp flip: length_greater_0_conv)
  have "comb (drop 2 t) (\<lambda>x. drop 2 (c x)) (drop 2 f) = drop 2 (comb t c f)"
    by (rule comb_drop) (use assms in auto)
  then show ?thesis
    using comb_split[OF ne(1,3,2)] by (simp add: comb_Cons drop_Suc numeral_2_eq_2)
qed

lemma overlay_start_ok:
  assumes "lockstep s"
  shows "lockstep (overlay_start_transaction s)"
    "overlay_stack (overlay_start_transaction s) = hd (overlay_stack s) # overlay_stack s"
    "overlay_closable (overlay_start_transaction s)"
proof -
  let ?s = "with_maps (start_transaction (top s)) (on_children start_transaction (children s))
    (start_transaction (offchain s)) s"
  have eq: "overlay_start_transaction s = ?s"
    by (simp add: overlay_start_transaction_def with_maps_def on_children_def)
  have wf: "map_wf (top s)" "map_wf (offchain s)" "sync (offchain s) (top s)"
    using assms by (simp_all add: lockstep_def)
  show "lockstep (overlay_start_transaction s)"
    unfolding eq
    by (rule lockstep_with_maps[OF assms start_ok(1)[OF wf(1)] start_ok(1)[OF wf(2)] sync_start[OF wf(3)]])
       (use start_ok(1) sync_start child_of_lockstep(1)[OF assms] in blast)
  have "child_views ?s = (\<lambda>c. hd (child_views s c) # child_views s c)"
    by (rule child_views_with_maps[OF assms], rule start_ok(2), assumption)
       (simp add: start_transaction_def transaction_depth_def)
  then show "overlay_stack (overlay_start_transaction s) = hd (overlay_stack s) # overlay_stack s"
    by (simp add: eq overlay_stack_def start_ok(2)[OF wf(1)] start_ok(2)[OF wf(2)] comb_Cons)
       (simp add: comb_split)
  show "overlay_closable (overlay_start_transaction s)"
    using ov.start[OF wf(1)] by (simp add: eq overlay_closable_def)
qed

lemma rollback_sync:
  assumes "map_wf m" "may_close m"
  obtains m' where "rollback_transaction m = Some (Inr m')" "map_wf m'" "abs_map m' = tl (abs_map m)"
    "transaction_depth m' = transaction_depth m - 1" "num_client_transactions m' = num_client_transactions m"
    "execution_mode m' = execution_mode m"
proof -
  from rollback_ok[OF assms] obtain m' where m': "rollback_transaction m = Some (Inr m')" "map_wf m'"
    "abs_map m' = tl (abs_map m)" "num_client_transactions m' = num_client_transactions m"
    "execution_mode m' = execution_mode m" by blast
  then have "transaction_depth m' = transaction_depth m - 1"
    using abs_map_length[of m'] abs_map_length[of m] by simp
  with m' that show thesis by blast
qed

lemma commit_sync:
  assumes "map_wf m" "may_close m"
  obtains m' where "commit_transaction m = Some (Inr m')" "map_wf m'"
    "abs_map m' = hd (abs_map m) # tl (tl (abs_map m))"
    "transaction_depth m' = transaction_depth m - 1" "num_client_transactions m' = num_client_transactions m"
    "execution_mode m' = execution_mode m"
proof -
  from commit_ok[OF assms] obtain m' where m': "commit_transaction m = Some (Inr m')" "map_wf m'"
    "abs_map m' = hd (abs_map m) # tl (tl (abs_map m))" "num_client_transactions m' = num_client_transactions m"
    "execution_mode m' = execution_mode m" by blast
  then have "transaction_depth m' = transaction_depth m - 1"
    using abs_map_length[of m'] abs_map_length[of m] by simp
  with m' that show thesis by blast
qed

lemma exit_sync:
  assumes "map_wf m" "execution_mode m = Runtime"
  obtains m' where "exit_runtime m = Some (Inr m')" "map_wf m'"
    "abs_map m' = drop (transaction_depth m - num_client_transactions m) (abs_map m)"
    "transaction_depth m' = num_client_transactions m" "num_client_transactions m' = num_client_transactions m"
    "execution_mode m' = Client"
proof -
  let ?c = "m\<lparr>execution_mode := Client\<rparr>"
  have c: "map_wf ?c" "abs_map ?c = abs_map m" "transaction_depth ?c = transaction_depth m"
    using assms by (simp_all add: map_wf_def abs_map_def transaction_depth_def)
  then obtain m' where m': "rollback_dangling ?c = Some m'" "map_wf m'"
    "abs_map m' = drop (transaction_depth m - num_client_transactions m) (abs_map m)"
    "num_client_transactions m' = num_client_transactions m" "execution_mode m' = Client"
    using rollback_dangling_ok[of ?c] by auto
  have "transaction_depth m' = num_client_transactions m"
    using m'(3) abs_map_length[of m'] abs_map_length[of m] assms by (simp add: map_wf_def)
  moreover have "exit_runtime m = Some (Inr m')" using assms(2) m'(1) by (simp add: exit_runtime_def)
  ultimately show thesis using m' that by blast
qed

text \<open>The results of a step on all three kinds of change sets.\<close>

definition rolled_back :: "('k::linorder, 'v) OverlayedMap \<Rightarrow> ('k, 'v) OverlayedMap" where
  "rolled_back m = the (expect (rollback_transaction m))"

definition committed :: "('k::linorder, 'v) OverlayedMap \<Rightarrow> ('k, 'v) OverlayedMap" where
  "committed m = the (expect (commit_transaction m))"

definition exited :: "('k::linorder, 'v) OverlayedMap \<Rightarrow> ('k, 'v) OverlayedMap" where
  "exited m = the (expect (exit_runtime m))"

lemma rolled_back_ok:
  assumes "map_wf m" "may_close m"
  shows "rollback_transaction m = Some (Inr (rolled_back m))" "map_wf (rolled_back m)"
    "abs_map (rolled_back m) = tl (abs_map m)" "transaction_depth (rolled_back m) = transaction_depth m - 1"
    "num_client_transactions (rolled_back m) = num_client_transactions m"
    "execution_mode (rolled_back m) = execution_mode m"
  by (rule rollback_sync[OF assms]; simp add: rolled_back_def)+

lemma committed_ok:
  assumes "map_wf m" "may_close m"
  shows "commit_transaction m = Some (Inr (committed m))" "map_wf (committed m)"
    "abs_map (committed m) = hd (abs_map m) # tl (tl (abs_map m))"
    "transaction_depth (committed m) = transaction_depth m - 1"
    "num_client_transactions (committed m) = num_client_transactions m"
    "execution_mode (committed m) = execution_mode m"
  by (rule commit_sync[OF assms]; simp add: committed_def)+

lemma exited_ok:
  assumes "map_wf m" "execution_mode m = Runtime"
  shows "exit_runtime m = Some (Inr (exited m))" "map_wf (exited m)"
    "abs_map (exited m) = drop (transaction_depth m - num_client_transactions m) (abs_map m)"
    "transaction_depth (exited m) = num_client_transactions m"
    "num_client_transactions (exited m) = num_client_transactions m" "execution_mode (exited m) = Client"
  by (rule exit_sync[OF assms]; simp add: exited_def)+

lemma sync_wf_closable:
  assumes "lockstep s" "may_close (top s)"
  shows "map_wf (top s)" "map_wf (offchain s)" "may_close (offchain s)" "sync (offchain s) (top s)"
    "(k, m, i) \<in> set (children s) \<Longrightarrow> map_wf m \<and> may_close m \<and> sync m (top s)"
  using assms child_of_lockstep(1)[OF assms(1)] sync_may_close[of "offchain s" "top s"]
    sync_may_close[of m "top s"]
  by (auto simp: lockstep_def)

lemma drop_replicate_depth: "tl (replicate n x) = replicate (n - 1) x"
  by (cases n) auto

lemma may_close_depth: "may_close m \<Longrightarrow> transaction_depth m > 0"
  by (auto simp: may_close_def transaction_depth_def)

lemma overlay_stack_lengths:
  assumes "lockstep s"
  shows "length (child_views s x) = length (abs_map (top s))" "length (abs_map (offchain s)) = length (abs_map (top s))"
  using assms child_views_length[OF assms, of x] by (auto simp: abs_map_length lockstep_def sync_def)

lemma child_views_retain:
  assumes "lockstep (with_maps t cs f s)"
  shows "child_views (with_maps t (bt_retain (\<lambda>_ (m, _). \<not> map_is_empty m) cs) f s) =
    child_views (with_maps t cs f s)"
proof (rule ext)
  fix c
  have wf: "bt_wf cs" using assms by (simp add: lockstep_def)
  show "child_views (with_maps t (bt_retain (\<lambda>_ (m, _). \<not> map_is_empty m) cs) f s) c =
      child_views (with_maps t cs f s) c"
  proof (cases "bt_get cs c")
    case None
    then show ?thesis by (simp add: child_views_def map_of_bt_retain[OF wf])
  next
    case (Some mi)
    obtain m i where mi: "mi = (m, i)" by (cases mi)
    have "sync m t" using child_of_lockstep(2)[OF assms, of c m i] Some by (simp add: mi)
    with Some show ?thesis
      by (auto simp: child_views_def map_of_bt_retain[OF wf] mi map_is_empty_def sync_def
          abs_map_no_changes)
  qed
qed

lemma lockstep_retain:
  "lockstep (with_maps t cs f s) \<Longrightarrow> lockstep (with_maps t (bt_retain p cs) f s)"
  by (auto simp: lockstep_def bt_wf_retain list_all_iff) (auto simp: bt_retain_def)

lemma lockstep_cache [simp]:
  "lockstep (s\<lparr>storage_transaction_cache := c\<rparr>) = lockstep s" "lockstep (mark_dirty s) = lockstep s"
  by (simp_all add: lockstep_def mark_dirty_def)

lemma overlay_rollback_ok:
  assumes "lockstep s" "overlay_closable s"
  shows "\<exists>s'. overlay_rollback_transaction s = Some (Inr (), s') \<and> lockstep s' \<and>
    overlay_stack s' = tl (overlay_stack s) \<and> overlay_transaction_depth s' = overlay_transaction_depth s - 1"
proof -
  let ?d = "mark_dirty s" and ?t = "rolled_back (top s)" and ?f = "rolled_back (offchain s)"
  let ?cs = "on_children rolled_back (children s)"
  have d: "top ?d = top s" "children ?d = children s" "offchain ?d = offchain s" by (simp_all add: mark_dirty_def)
  have mc: "may_close (top s)" using assms(2) by (simp add: overlay_closable_def)
  note wf = sync_wf_closable[OF assms(1) mc]
  have ls: "lockstep (with_maps ?t ?cs ?f ?d)"
    using lockstep_with_maps[of ?d ?t ?f rolled_back] assms(1) wf mc
    by (simp add: d rolled_back_ok sync_def)
  have "each_child (\<lambda>c. expect (rollback_transaction c)) (children s) = Some ?cs"
    by (rule each_child_Some) (use wf(5) rolled_back_ok(1) in fastforce)
  then have run: "overlay_rollback_transaction s = Some (Inr (),
      with_maps ?t (bt_retain (\<lambda>_ (m, _). \<not> map_is_empty m) ?cs) ?f ?d)"
    using wf mc by (simp add: overlay_rollback_transaction_def Let_def d rolled_back_ok(1) with_maps_def
        case_prod_unfold)
  have "child_views (with_maps ?t ?cs ?f ?d) = (\<lambda>c. tl (child_views ?d c))"
    unfolding d(2)[symmetric]
  proof (rule child_views_with_maps)
    fix m :: OverlayedChangeSet
    assume "map_wf m" "sync m (top ?d)"
    then show "abs_map (rolled_back m) = tl (abs_map m)"
      using mc sync_may_close[of m "top s"] by (simp add: rolled_back_ok(3) d)
  qed (use assms(1) wf(1) mc in \<open>simp_all add: d rolled_back_ok(4) may_close_depth\<close>)
  moreover have "child_views ?d = child_views s" by (rule child_views_cong) (simp_all add: d)
  ultimately have "overlay_stack (with_maps ?t ?cs ?f ?d) = tl (overlay_stack s)"
    using wf mc by (simp add: overlay_stack_def rolled_back_ok(3) comb_split[of "abs_map (top s)"])
  moreover have "overlay_stack (with_maps ?t (bt_retain (\<lambda>_ (m, _). \<not> map_is_empty m) ?cs) ?f ?d) =
      overlay_stack (with_maps ?t ?cs ?f ?d)"
    by (simp add: overlay_stack_def child_views_retain[OF ls])
  ultimately show ?thesis
    using run lockstep_retain[OF ls] wf mc by (simp add: overlay_transaction_depth_def rolled_back_ok(4))
qed

lemma overlay_commit_ok:
  assumes "lockstep s" "overlay_closable s"
  shows "\<exists>s'. overlay_commit_transaction s = Some (Inr (), s') \<and> lockstep s' \<and>
    overlay_stack s' = hd (overlay_stack s) # tl (tl (overlay_stack s)) \<and>
    s' = with_maps (committed (top s)) (on_children committed (children s)) (committed (offchain s)) s"
proof -
  let ?t = "committed (top s)" and ?f = "committed (offchain s)"
  let ?cs = "on_children committed (children s)"
  have mc: "may_close (top s)" using assms(2) by (simp add: overlay_closable_def)
  note wf = sync_wf_closable[OF assms(1) mc]
  have ls: "lockstep (with_maps ?t ?cs ?f s)"
    using lockstep_with_maps[of s ?t ?f committed] assms(1) wf mc by (simp add: committed_ok sync_def)
  have "each_child (\<lambda>c. expect (commit_transaction c)) (children s) = Some ?cs"
    by (rule each_child_Some) (use wf(5) committed_ok(1) in fastforce)
  then have run: "overlay_commit_transaction s = Some (Inr (), with_maps ?t ?cs ?f s)"
    using wf mc by (simp add: overlay_commit_transaction_def committed_ok(1) with_maps_def)
  have "child_views (with_maps ?t ?cs ?f s) = (\<lambda>c. hd (child_views s c) # tl (tl (child_views s c)))"
  proof (rule child_views_with_maps)
    fix m :: OverlayedChangeSet
    assume "map_wf m" "sync m (top s)"
    then show "abs_map (committed m) = hd (abs_map m) # tl (tl (abs_map m))"
      using mc sync_may_close[of m "top s"] by (simp add: committed_ok(3))
  next
    show "hd (replicate (Suc (transaction_depth (top s))) Map.empty) #
        tl (tl (replicate (Suc (transaction_depth (top s))) Map.empty)) =
      replicate (Suc (transaction_depth ?t)) (Map.empty :: bytes \<rightharpoonup> bytes option)"
      using wf(1) mc may_close_depth[OF mc]
      by (cases "transaction_depth (top s)") (simp_all add: committed_ok(4))
  qed (rule assms(1))
  then have "overlay_stack (with_maps ?t ?cs ?f s) = hd (overlay_stack s) # tl (tl (overlay_stack s))"
    using wf mc overlay_stack_lengths[OF assms(1)] may_close_depth[OF mc]
    by (simp add: overlay_stack_def committed_ok(3) comb_commit abs_map_length)
  with run ls show ?thesis by blast
qed

section \<open>The whole overlay as a transactional store\<close>

definition as_result :: "(('e, unit) result \<times> 's) option \<Rightarrow> ('e, 's) result option" where
  "as_result r = map_option (\<lambda>(x, s). case x of Inl e \<Rightarrow> Inl e | Inr _ \<Rightarrow> Inr s) r"

interpretation oc: transactional lockstep overlay_stack overlay_closable "overlay_put dec"
  overlay_start_transaction "\<lambda>s. as_result (overlay_rollback_transaction s)"
  "\<lambda>s. as_result (overlay_commit_transaction s)" for dec
proof (unfold_locales, goal_cases)
  case (1 s k v x)
  then show ?case by (rule overlay_put_ok)
next
  case (2 s)
  then show ?case using overlay_start_ok by blast
next
  case (3 s)
  then show ?case using overlay_rollback_ok[OF 3] by (auto simp: as_result_def)
next
  case (4 s)
  then show ?case using overlay_commit_ok[OF 4] by (auto simp: as_result_def)
next
  case (5 s)
  then show ?case
    using ov.refuse[of "top s"]
    by (simp add: as_result_def overlay_closable_def overlay_rollback_transaction_def
        overlay_commit_transaction_def mark_dirty_def Let_def)
next
  case (6 s)
  show ?case by (simp add: overlay_stack_split)
qed

lemma overlay_enter_ok:
  assumes "lockstep s"
  shows "\<exists>r s'. overlay_enter_runtime s = Some (r, s') \<and> lockstep s' \<and> overlay_stack s' = overlay_stack s \<and>
    (case r of Inl _ \<Rightarrow> s' = s | Inr _ \<Rightarrow> \<exists>t cs f. s' = with_maps t cs f s \<and>
      changes t = changes (top s) \<and> (\<exists>g. cs = on_children g (children s) \<and> (\<forall>m. changes (g m) = changes m)))"
proof (cases "execution_mode (top s)")
  case Client
  define g :: "OverlayedChangeSet \<Rightarrow> OverlayedChangeSet" where
    "g m = m\<lparr>execution_mode := Runtime, num_client_transactions := transaction_depth m\<rparr>" for m
  define h :: "(bytes \<times> bytes, OffchainOverlayedChange) OverlayedMap \<Rightarrow> _" where
    "h m = m\<lparr>execution_mode := Runtime, num_client_transactions := transaction_depth m\<rparr>" for m
  have g: "map_wf m \<Longrightarrow> map_wf (g m)" "abs_map (g m) = abs_map m" "transaction_depth (g m) = transaction_depth m"
    "changes (g m) = changes m" for m
    by (simp_all add: g_def map_wf_def abs_map_def transaction_depth_def)
  have h: "map_wf m \<Longrightarrow> map_wf (h m)" "abs_map (h m) = abs_map m" "transaction_depth (h m) = transaction_depth m" for m
    by (simp_all add: h_def map_wf_def abs_map_def transaction_depth_def)
  have client: "execution_mode (offchain s) = Client"
    "\<And>k m i. (k, m, i) \<in> set (children s) \<Longrightarrow> execution_mode m = Client"
    using assms Client child_of_lockstep(1)[OF assms] by (auto simp: lockstep_def sync_def)
  let ?s = "with_maps (g (top s)) (on_children g (children s)) (h (offchain s)) s"
  have "each_child (\<lambda>c. expect (Some (enter_runtime c))) (children s) = Some (on_children g (children s))"
    by (rule each_child_Some) (simp add: enter_runtime_def client(2) g_def)
  then have run: "overlay_enter_runtime s = Some (Inr (), ?s)"
    using Client client(1)
    by (simp add: overlay_enter_runtime_def enter_runtime_def g_def h_def with_maps_def)
  have ls: "lockstep ?s"
  proof (rule lockstep_with_maps[OF assms])
    show "map_wf (g (top s))" "map_wf (h (offchain s))" using assms g(1) h(1) by (simp_all add: lockstep_def)
    show "sync (h (offchain s)) (g (top s))"
      using assms by (simp add: lockstep_def sync_def g_def h_def transaction_depth_def)
    show "map_wf (g m) \<and> sync (g m) (g (top s))" if "(k, m, i) \<in> set (children s)" for k m i
      using child_of_lockstep(1)[OF assms that] g(1)
      by (simp add: sync_def) (simp add: g_def transaction_depth_def)
  qed
  have "child_views ?s = (\<lambda>c. child_views s c)"
    by (rule child_views_with_maps[OF assms, where F = "\<lambda>x. x"]) (simp_all add: g)
  then have "overlay_stack ?s = overlay_stack s" by (simp add: overlay_stack_def g h)
  with run ls g(4) show ?thesis by auto
next
  case Runtime
  then show ?thesis using assms by (simp add: overlay_enter_runtime_def enter_runtime_def)
qed

lemma overlay_exit_ok:
  assumes "lockstep s"
  shows "if execution_mode (top s) = Client then overlay_exit_runtime s = Some (Inl NotInRuntime, s)
    else overlay_exit_runtime s = Some (Inr (), with_maps (exited (top s)) (on_children exited (children s)) (exited (offchain s)) s) \<and>
      lockstep (with_maps (exited (top s)) (on_children exited (children s)) (exited (offchain s)) s) \<and>
      overlay_stack (with_maps (exited (top s)) (on_children exited (children s)) (exited (offchain s)) s) =
        drop (transaction_depth (top s) - num_client_transactions (top s)) (overlay_stack s)"
proof (cases "execution_mode (top s)")
  case Client
  then show ?thesis by (simp add: overlay_exit_runtime_def exit_runtime_def)
next
  case Runtime
  let ?n = "transaction_depth (top s) - num_client_transactions (top s)"
  let ?s = "with_maps (exited (top s)) (on_children exited (children s)) (exited (offchain s)) s"
  have wf: "map_wf (top s)" "map_wf (offchain s)" "sync (offchain s) (top s)" "execution_mode (offchain s) = Runtime"
    using assms Runtime by (simp_all add: lockstep_def sync_def)
  have child: "map_wf m \<and> execution_mode m = Runtime \<and> sync m (top s)" if "(k, m, i) \<in> set (children s)" for k m i
    using child_of_lockstep(1)[OF assms that] Runtime by (simp add: sync_def)
  have "each_child (\<lambda>c. expect (exit_runtime c)) (children s) = Some (on_children exited (children s))"
    by (rule each_child_Some) (use child exited_ok(1) in fastforce)
  then have run: "overlay_exit_runtime s = Some (Inr (), ?s)"
    using wf Runtime by (simp add: overlay_exit_runtime_def exited_ok(1) with_maps_def)
  have ls: "lockstep ?s"
    using lockstep_with_maps[of s "exited (top s)" "exited (offchain s)" exited] assms wf child Runtime
    by (simp add: exited_ok sync_def)
  have "child_views ?s = (\<lambda>c. drop ?n (child_views s c))"
  proof (rule child_views_with_maps[OF assms])
    fix m :: OverlayedChangeSet
    assume "map_wf m" "sync m (top s)"
    then show "abs_map (exited m) = drop ?n (abs_map m)"
      using Runtime by (simp add: exited_ok(3) sync_def)
  next
    show "drop ?n (replicate (Suc (transaction_depth (top s))) Map.empty) =
        replicate (Suc (transaction_depth (exited (top s)))) (Map.empty :: bytes \<rightharpoonup> bytes option)"
      using wf(1) Runtime by (simp add: exited_ok(4) map_wf_def Suc_diff_le del: replicate_Suc)
  qed
  moreover have "transaction_depth (offchain s) - num_client_transactions (offchain s) = ?n"
    using wf(3) by (simp add: sync_def)
  ultimately have "overlay_stack ?s = drop ?n (overlay_stack s)"
    using wf Runtime overlay_stack_lengths[OF assms]
    by (simp add: overlay_stack_def exited_ok(3) comb_drop abs_map_length)
  with run ls Runtime show ?thesis by simp
qed

end
