(* ===== verification/Overlay_Cache.thy ===== *)
theory Overlay_Cache
  imports Overlay_Lockstep
begin

text \<open>
  Runs of the whole overlay: no command panics, and when the cached storage transaction agrees with
  the values of the overlay. Leaving the runtime with open transactions is the one command that can
  leave a stale cache behind.
\<close>

section \<open>The remaining writes\<close>

lemma clear_where_sync:
  assumes "map_wf m"
  obtains m' n where "clear_where p at m = Some (m', n)" "map_wf m'" "sync m' m"
proof -
  from clear_where_ok[OF assms, of p at] obtain m' n where m': "clear_where p at m = Some (m', n)" "map_wf m'"
    "tl (abs_map m') = tl (abs_map m)" by auto
  have "transaction_depth m' = transaction_depth m"
    using arg_cong[OF m'(3), of length] by (simp add: abs_map_length)
  moreover have "num_client_transactions m' = num_client_transactions m \<and> execution_mode m' = execution_mode m"
    using m'(1) by (auto simp: clear_where_def split: option.splits)
  ultimately show thesis using that m' by (auto simp: sync_def)
qed

lemma modify_sync:
  assumes "map_wf m"
  obtains m' v where "modify k init at m = Some (m', v)" "map_wf m'" "sync m' m" "hd (abs_map m') k = Some v"
proof -
  from modify_ok[OF assms, of k init at] obtain m' v where m': "modify k init at m = Some (m', v)" "map_wf m'"
    "abs_map m' = (hd (abs_map m))(k \<mapsto> v) # tl (abs_map m)" by auto
  have "transaction_depth m' = transaction_depth m"
    using arg_cong[OF m'(3), of length] abs_map_length[of m] abs_map_length[of m'] by simp
  moreover have "num_client_transactions m' = num_client_transactions m \<and> execution_mode m' = execution_mode m"
    using m'(1) by (auto simp: modify_def Let_def split: option.splits prod.splits list.splits)
  ultimately show thesis using that m' by (auto simp: sync_def)
qed

lemma assign_sync:
  assumes "map_wf m" "hd (abs_map m) k \<noteq> None"
  obtains m' where "assign k v m = Some m'" "map_wf m'" "sync m' m"
proof -
  from assms(2) obtain t ts where t: "ver (changes m) k = t # ts"
    by (cases "ver (changes m) k") (auto simp: abs_map_def hd_views newest_def)
  let ?e = "\<lparr>transactions = t\<lparr>iv_value := v\<rparr> # ts\<rparr>"
  have "set_value_mut v (entry_or_default m k) = Some ?e"
    using entry_or_default_ver[of m k] by (simp add: set_value_mut_def t)
  then have a: "assign k v m = Some (m\<lparr>changes := bt_insert k ?e (changes m)\<rparr>)" by (simp add: assign_def)
  have "(\<lambda>j. length (ver (bt_insert k ?e (changes m)) j)) = (\<lambda>j. length (ver (changes m) j))"
    by (auto simp: ver_insert t)
  then have "map_wf (m\<lparr>changes := bt_insert k ?e (changes m)\<rparr>)"
    using assms(1) by (simp add: map_wf_def chg_ok_insert transaction_depth_def)
  with a show thesis using that by (simp add: sync_def transaction_depth_def)
qed

section \<open>Runs\<close>

datatype overlay_cmd =
    CmdPut okey "bytes option"
  | CmdAppend bytes bytes
  | CmdClearPrefix bytes
  | CmdClearChild bytes
  | CmdClearChildPrefix bytes bytes
  | CmdStart | CmdRollback | CmdCommit | CmdEnterRuntime | CmdExitRuntime
  | CmdStorageRoot StateVersion
  | CmdChildRoot bytes StateVersion

text \<open>The state after a command; an error leaves the overlay to the next command.\<close>

fun run_cmd ::
  "(bytes \<Rightarrow> u32 option) \<Rightarrow> 'root RootCodec \<Rightarrow> ('root, 'tx, 'err) Backend \<Rightarrow> overlay_cmd \<Rightarrow> ('root, 'tx) OverlayedChanges \<Rightarrow>
   ('root, 'tx) OverlayedChanges option" where
  "run_cmd dec rc be (CmdPut k v) s = overlay_put dec k v () s"
| "run_cmd dec rc be (CmdAppend k init) s = map_option snd (value_mut_or_insert_with dec k init s)"
| "run_cmd dec rc be (CmdClearPrefix p) s = map_option snd (clear_prefix dec p s)"
| "run_cmd dec rc be (CmdClearChild c) s = map_option snd (clear_child_storage dec (ParentKeyId c) s)"
| "run_cmd dec rc be (CmdClearChildPrefix c p) s = map_option snd (clear_child_prefix dec (ParentKeyId c) p s)"
| "run_cmd dec rc be CmdStart s = Some (overlay_start_transaction s)"
| "run_cmd dec rc be CmdRollback s = map_option snd (overlay_rollback_transaction s)"
| "run_cmd dec rc be CmdCommit s = map_option snd (overlay_commit_transaction s)"
| "run_cmd dec rc be CmdEnterRuntime s = map_option snd (overlay_enter_runtime s)"
| "run_cmd dec rc be CmdExitRuntime s = map_option snd (overlay_exit_runtime s)"
| "run_cmd dec rc be (CmdStorageRoot v) s = map_option snd (storage_root be v s)"
| "run_cmd dec rc be (CmdChildRoot c v) s = map_option snd (child_storage_root dec rc (ParentKeyId c) be v s)"

fun run_cmds ::
  "(bytes \<Rightarrow> u32 option) \<Rightarrow> 'root RootCodec \<Rightarrow> ('root, 'tx, 'err) Backend \<Rightarrow> overlay_cmd list \<Rightarrow> ('root, 'tx) OverlayedChanges \<Rightarrow>
   ('root, 'tx) OverlayedChanges option" where
  "run_cmds dec rc be [] s = Some s"
| "run_cmds dec rc be (c # cs) s = (case run_cmd dec rc be c s of None \<Rightarrow> None | Some s' \<Rightarrow> run_cmds dec rc be cs s')"

lemma value_refs_Some:
  assumes "map_wf m"
  shows "those (map (\<lambda>(k, e). map_option (\<lambda>v. (k, v)) (value_ref e)) (changes m)) =
    Some (map (\<lambda>(k, e). (k, iv_value (hd (transactions e)))) (changes m))"
proof -
  have "those (map (\<lambda>(k, e). map_option (\<lambda>v. (k, v)) (value_ref e)) es) =
      Some (map (\<lambda>(k, e). (k, iv_value (hd (transactions e)))) es)"
    if "list_all (\<lambda>(_, e). transactions e \<noteq> []) es" for es :: "('a, 'b OverlayedEntry) btree"
    using that by (induction es) (auto simp: value_ref_def neq_Nil_conv)
  with assms show ?thesis by (simp add: map_wf_def chg_ok_def)
qed

lemma those_Some: "(\<And>x. x \<in> set xs \<Longrightarrow> f x = Some (g x)) \<Longrightarrow> those (map f xs) = Some (map g xs)"
  by (induction xs) auto

lemma child_delta_Some:
  assumes "lockstep s"
  shows "child_delta_of (children s) = Some (map (\<lambda>(_, m, i). (i, the (delta_of m))) (children s))"
  unfolding child_delta_of_def
proof (rule those_Some)
  fix x assume x: "x \<in> set (children s)"
  obtain k m i where "x = (k, m, i)" by (cases x)
  with x child_of_lockstep(1)[OF assms] value_refs_Some[of m] show
    "(case x of (_, m, i) \<Rightarrow> map_option (\<lambda>d. (i, d)) (delta_of m)) = Some (case x of (_, m, i) \<Rightarrow> (i, the (delta_of m)))"
    by (auto simp: delta_of_def)
qed

lemma storage_root_ok:
  assumes "lockstep s"
  shows "\<exists>r c. storage_root be v s = Some (r, s\<lparr>storage_transaction_cache := c\<rparr>)"
proof (cases "storage_transaction_cache s")
  case None
  have "delta_of (top s) \<noteq> None"
    using assms value_refs_Some[of "top s"] by (auto simp: delta_of_def lockstep_def)
  with None child_delta_Some[OF assms] show ?thesis
    by (auto simp: storage_root_def Let_def split: prod.splits)
next
  case (Some a)
  then show ?thesis
    by (cases a) (auto simp: storage_root_def intro!: exI[of _ "storage_transaction_cache s"])
qed

lemma lockstep_top:
  assumes "lockstep s" "map_wf m" "sync m (top s)"
  shows "lockstep (s\<lparr>storage_transaction_cache := c, stats := st, top := m\<rparr>)"
  using assms by (auto simp: lockstep_def list_all_iff sync_def)

lemma mark_dirty_index:
  assumes "lockstep s"
  obtains i st where "extrinsic_index dec (mark_dirty s) = Some (i, s\<lparr>storage_transaction_cache := None, stats := st\<rparr>)"
proof -
  have "map_wf (top (mark_dirty s))" using assms by (simp add: lockstep_def mark_dirty_def)
  from extrinsic_index_ok[OF this, of dec] that show thesis by (auto simp: mark_dirty_def)
qed

lemma value_mut_ok:
  assumes "lockstep s"
  shows "\<exists>v st m. value_mut_or_insert_with dec k init s = Some (v,
    s\<lparr>storage_transaction_cache := None, stats := st, top := m\<rparr>) \<and> map_wf m \<and> sync m (top s)"
proof -
  obtain i st where i: "extrinsic_index dec (mark_dirty s) = Some (i, s\<lparr>storage_transaction_cache := None, stats := st\<rparr>)"
    by (rule mark_dirty_index[OF assms])
  have wf: "map_wf (top s)" using assms by (simp add: lockstep_def)
  obtain m v where m: "modify k init i (top s) = Some (m, v)" "map_wf m" "sync m (top s)" "hd (abs_map m) k = Some v"
    by (rule modify_sync[OF wf])
  have "hd (abs_map m) k \<noteq> None" using m(4) by simp
  then obtain m' where "assign k (Some []) m = Some m'" "map_wf m'" "sync m' m"
    using assign_sync[OF m(2)] by blast
  with i m sync_trans[of m' m "top s"] show ?thesis
    by (cases v) (auto simp: value_mut_or_insert_with_def)
qed

lemma clear_prefix_ok:
  assumes "lockstep s"
  shows "\<exists>n st m. clear_prefix dec p s = Some (n, s\<lparr>storage_transaction_cache := None, stats := st, top := m\<rparr>) \<and>
    map_wf m \<and> sync m (top s)"
proof -
  obtain i st where i: "extrinsic_index dec (mark_dirty s) = Some (i, s\<lparr>storage_transaction_cache := None, stats := st\<rparr>)"
    by (rule mark_dirty_index[OF assms])
  have wf: "map_wf (top s)" using assms by (simp add: lockstep_def)
  obtain m n where "clear_where (\<lambda>key _. starts_with key p) i (top s) = Some (m, n)" "map_wf m" "sync m (top s)"
    by (rule clear_where_sync[OF wf])
  with i show ?thesis by (auto simp: clear_prefix_def)
qed

lemma clear_child_ok:
  assumes "lockstep s"
  shows "\<exists>n s'. clear_child_where dec info p s = Some (n, s') \<and> lockstep s' \<and> storage_transaction_cache s' = None"
proof -
  obtain i st where i: "extrinsic_index dec (mark_dirty s) = Some (i, s\<lparr>storage_transaction_cache := None, stats := st\<rparr>)"
    by (rule mark_dirty_index[OF assms])
  let ?s = "s\<lparr>storage_transaction_cache := None, stats := st\<rparr>"
  have ls: "lockstep ?s" using assms by (simp add: lockstep_def)
  obtain cs inf where e: "child_entry info ?s = (cs, inf)" by fastforce
  note ce = child_entry_ok[OF ls, of info, unfolded e fst_conv]
  obtain m n where m: "clear_where p i cs = Some (m, n)" "map_wf m" "sync m cs"
    by (rule clear_where_sync[OF ce(1)])
  let ?r = "?s\<lparr>children := bt_insert (storage_key info) (m, inf) (children s)\<rparr>"
  have "lockstep ?r" by (rule lockstep_insert[OF ls m(2) sync_trans[OF m(3) ce(2)]]) simp_all
  with i e m(1) show ?thesis by (auto simp: clear_child_where_def)
qed

text \<open>With a cached root the child root is only read; otherwise it is written and the cache reset.\<close>

lemma child_storage_root_ok:
  assumes "lockstep s"
  shows "\<exists>r s'. child_storage_root dec rc info be v s = Some (r, s') \<and> lockstep s' \<and>
    ((\<exists>st. s' = s\<lparr>stats := st\<rparr>) \<or> storage_transaction_cache s' = None)"
proof (cases "storage_transaction_cache s")
  case None
  show ?thesis
  proof (cases "bt_get (children s) (storage_key info)")
    case (Some mi)
    obtain m i where mi: "mi = (m, i)" by (cases mi)
    have "delta_of m \<noteq> None"
      using child_of_lockstep(2)[OF assms, of "storage_key info" m i] Some mi value_refs_Some[of m] by (simp add: delta_of_def)
    then obtain d where d: "delta_of m = Some d" by blast
    obtain root e tx where r: "be_child_storage_root be i d v = (root, e, tx)" by (metis prod_cases3)
    obtain st m' where "set_storage dec (prefixed_storage_key info) (if e then None else Some (encode_root rc root)) s =
        Some (s\<lparr>storage_transaction_cache := None, stats := st, top := m'\<rparr>)" "map_wf m'" "sync m' (top s)"
      using set_storage_ok[OF assms] by blast
    moreover from this have "lockstep (s\<lparr>stats := st, top := m'\<rparr>)"
      using lockstep_top[OF assms, of m' st "storage_transaction_cache s"] by simp
    ultimately show ?thesis using None Some mi d r
      by (auto simp: child_storage_root_def mark_dirty_def Let_def)
  qed (use None assms in \<open>auto simp: child_storage_root_def Let_def split: sum.split\<close>)
next
  case (Some a)
  obtain st where "storage (prefixed_storage_key info) s = Some (hd (abs_map (top s)) (prefixed_storage_key info), s\<lparr>stats := st\<rparr>)"
    using storage_ok[of s] assms by (auto simp: lockstep_def)
  moreover have "lockstep (s\<lparr>stats := st\<rparr>)" using assms by (simp add: lockstep_def)
  ultimately show ?thesis
    using Some by (auto simp: child_storage_root_def Let_def split: option.split sum.split)
qed

lemma run_cmd_ok:
  assumes "lockstep s"
  shows "\<exists>s'. run_cmd dec rc be c s = Some s' \<and> lockstep s'"
proof (cases c)
  case (CmdPut k v)
  then show ?thesis using overlay_put_ok[OF assms, of dec k v "()"] by auto
next
  case (CmdAppend k init)
  then show ?thesis using value_mut_ok[OF assms, of dec k init] lockstep_top[OF assms] by auto
next
  case (CmdClearPrefix p)
  then show ?thesis using clear_prefix_ok[OF assms, of dec p] lockstep_top[OF assms] by auto
next
  case (CmdClearChild x)
  then show ?thesis
    using clear_child_ok[OF assms, of dec "ParentKeyId x" "\<lambda>_ _. True"] by (auto simp: clear_child_storage_def)
next
  case (CmdClearChildPrefix x p)
  then show ?thesis
    using clear_child_ok[OF assms, of dec "ParentKeyId x" "\<lambda>key _. starts_with key p"]
    by (auto simp: clear_child_prefix_def)
next
  case CmdStart
  then show ?thesis using overlay_start_ok[OF assms] by auto
next
  case CmdRollback
  then show ?thesis
    using overlay_rollback_ok[OF assms] ov.refuse[of "top s"] assms
    by (cases "overlay_closable s")
       (auto simp: overlay_closable_def overlay_rollback_transaction_def mark_dirty_def Let_def)
next
  case CmdCommit
  then show ?thesis
    using overlay_commit_ok[OF assms] ov.refuse[of "top s"] assms
    by (cases "overlay_closable s") (auto simp: overlay_closable_def overlay_commit_transaction_def)
next
  case CmdEnterRuntime
  then show ?thesis using overlay_enter_ok[OF assms] by auto
next
  case CmdExitRuntime
  then show ?thesis using overlay_exit_ok[OF assms] assms by (auto split: if_splits)
next
  case (CmdStorageRoot v)
  then show ?thesis using storage_root_ok[OF assms, of be v] assms by auto
next
  case (CmdChildRoot x v)
  then show ?thesis using child_storage_root_ok[OF assms, of dec rc "ParentKeyId x" be v] by auto
qed

lemma run_cmds_ok: "lockstep s \<Longrightarrow> \<exists>s'. run_cmds dec rc be cs s = Some s' \<and> lockstep s'"
proof (induction cs arbitrary: s)
  case (Cons c cs)
  from run_cmd_ok[OF Cons.prems, of dec rc be c] obtain s1 where "run_cmd dec rc be c s = Some s1" "lockstep s1" by blast
  with Cons.IH[of s1] show ?case by simp
qed simp

lemma lockstep_default: "lockstep overlay_default"
  by (simp add: lockstep_def overlay_default_def map_default_wf sync_def map_default_def)
     (simp add: map_default_wf[unfolded map_default_def] transaction_depth_def)

text \<open>C26: any sequence of storage writes, clears, transactions, mode changes and computations of the root and of
  child roots on the top-level storage, the child tries and the off-chain index runs without a panic from an
  empty overlay: the change sets stay in lockstep, so none of the \<open>expect\<close>s fails. (Draining is not among the
  commands: it asserts that no transaction is open.)\<close>

theorem overlay_never_panics:
  "\<exists>s. run_cmds dec rc be cmds overlay_default = Some s \<and> lockstep s"
  by (rule run_cmds_ok[OF lockstep_default])

lemma as_result_Inr: "as_result r = Some (Inr s) \<longleftrightarrow> r = Some (Inr (), s)"
  by (cases r) (auto simp: as_result_def split: sum.splits)

lemma run_puts:
  "run_cmds dec rc be (map (\<lambda>(k, v). CmdPut k v) ws) s = oc.puts dec (map (\<lambda>(k, v). (k, v, ())) ws) s"
  by (induction ws arbitrary: s) (auto split: option.splits)

text \<open>C27: a rollback of the whole overlay undoes everything written since the transaction was opened: the
  values that each nesting level sees in the top-level storage, in every child trie and in the
  off-chain index are those from before.\<close>

theorem overlay_rollback_restores:
  assumes "lockstep s"
  shows "\<exists>s1 s2. run_cmds dec rc be (CmdStart # map (\<lambda>(k, v). CmdPut k v) ws) s = Some s1 \<and>
    overlay_rollback_transaction s1 = Some (Inr (), s2) \<and> overlay_stack s2 = overlay_stack s"
proof -
  from oc.rollback_restores[OF assms, of dec "map (\<lambda>(k, v). (k, v, ())) ws"] obtain s1 s2 where
    "oc.puts dec (map (\<lambda>(k, v). (k, v, ())) ws) (overlay_start_transaction s) = Some s1"
    "as_result (overlay_rollback_transaction s1) = Some (Inr s2)" "overlay_stack s2 = overlay_stack s" by blast
  then show ?thesis by (auto simp: run_puts as_result_Inr)
qed

text \<open>C28: committing a transaction of the whole overlay has the same effect on the values as making its
  writes directly in the enclosing transaction.\<close>

theorem overlay_commit_equivalent:
  assumes "lockstep s"
  shows "\<exists>s1 s2 s3. run_cmds dec rc be (CmdStart # map (\<lambda>(k, v). CmdPut k v) ws) s = Some s1 \<and>
    overlay_commit_transaction s1 = Some (Inr (), s2) \<and>
    run_cmds dec rc be (map (\<lambda>(k, v). CmdPut k v) ws) s = Some s3 \<and> overlay_stack s2 = overlay_stack s3"
proof -
  from oc.commit_keeps[OF assms, of dec "map (\<lambda>(k, v). (k, v, ())) ws"] obtain s1 s2 s3 where
    "oc.puts dec (map (\<lambda>(k, v). (k, v, ())) ws) (overlay_start_transaction s) = Some s1"
    "as_result (overlay_commit_transaction s1) = Some (Inr s2)"
    "oc.puts dec (map (\<lambda>(k, v). (k, v, ())) ws) s = Some s3" "overlay_stack s2 = overlay_stack s3" by blast
  then show ?thesis by (auto simp: run_puts as_result_Inr)
qed

section \<open>The cached storage transaction\<close>

text \<open>The backend's root, in a state version, of the values that the overlay holds.\<close>

definition current_root ::
  "('root, 'tx, 'err) Backend \<Rightarrow> StateVersion \<Rightarrow> ('root, 'tx) OverlayedChanges \<Rightarrow> 'root" where
  "current_root be v s = fst (be_full_storage_root be (the (delta_of (top s))) (the (child_delta_of (children s))) v)"

definition cache_fresh ::
  "('root, 'tx, 'err) Backend \<Rightarrow> StateVersion \<Rightarrow> ('root, 'tx) OverlayedChanges \<Rightarrow> bool" where
  "cache_fresh be v s \<longleftrightarrow> (case storage_transaction_cache s of None \<Rightarrow> True
     | Some (tx, root) \<Rightarrow>
         be_full_storage_root be (the (delta_of (top s))) (the (child_delta_of (children s))) v = (root, tx))"

text \<open>The values passed to the backend are those of the current transaction's map.\<close>

lemma delta_view:
  assumes "map_wf m"
  shows "bt_wf (the (delta_of m))" "map_of (the (delta_of m)) = hd (abs_map m)"
proof -
  have d: "the (delta_of m) = map (\<lambda>(k, e). (k, iv_value (hd (transactions e)))) (changes m)"
    using value_refs_Some[OF assms] by (simp add: delta_of_def)
  have "map fst (the (delta_of m)) = map fst (changes m)" by (simp add: d case_prod_unfold)
  then show "bt_wf (the (delta_of m))" using assms by (simp add: bt_wf_def map_wf_def chg_ok_def)
  have "transactions e \<noteq> []" if "map_of (changes m) k = Some e" for k e
    using that assms chg_ok_entry by (auto simp: map_wf_def)
  then show "map_of (the (delta_of m)) = hd (abs_map m)"
    by (auto simp: d map_of_map abs_map_def hd_views newest_def ver_def fun_eq_iff split: option.splits list.splits)
qed

lemma delta_ext:
  assumes "map_wf m" "map_wf m'" "hd (abs_map m) = hd (abs_map m')"
  shows "the (delta_of m) = the (delta_of m')"
  using delta_view[OF assms(1)] delta_view[OF assms(2)] assms(3) by (intro bt_ext) simp_all

lemma child_delta_ext:
  assumes "lockstep s" "lockstep s'" "children s' = on_children g (children s)"
    and "\<And>k m i. (k, m, i) \<in> set (children s) \<Longrightarrow> hd (abs_map (g m)) = hd (abs_map m)"
  shows "the (child_delta_of (children s')) = the (child_delta_of (children s))"
proof -
  have "the (delta_of (g m)) = the (delta_of m)" if "(k, m, i) \<in> set (children s)" for k m i
  proof (rule delta_ext)
    have "(k, g m, i) \<in> set (children s')" using that by (force simp: assms(3) on_children_def)
    then show "map_wf (g m)" using child_of_lockstep(1)[OF assms(2)] by blast
  qed (use that assms(4) child_of_lockstep(1)[OF assms(1)] in blast)+
  then show ?thesis
    using child_delta_Some[OF assms(1)] child_delta_Some[OF assms(2)]
    by (auto simp: assms(3) on_children_def)
qed

lemma cache_fresh_same:
  assumes "storage_transaction_cache s' = storage_transaction_cache s"
    and "the (delta_of (top s')) = the (delta_of (top s))"
    and "the (child_delta_of (children s')) = the (child_delta_of (children s))"
  shows "cache_fresh be v s' = cache_fresh be v s"
  unfolding cache_fresh_def assms ..

lemma cache_fresh_cong:
  assumes "lockstep s" "lockstep s'" "storage_transaction_cache s' = storage_transaction_cache s"
    and "hd (abs_map (top s')) = hd (abs_map (top s))" "children s' = on_children g (children s)"
    and "\<And>k m i. (k, m, i) \<in> set (children s) \<Longrightarrow> hd (abs_map (g m)) = hd (abs_map m)"
    and "cache_fresh be v s"
  shows "cache_fresh be v s'"
proof -
  have "the (delta_of (top s')) = the (delta_of (top s))"
    by (rule delta_ext) (use assms(1,2,4) in \<open>simp_all add: lockstep_def\<close>)
  moreover have "the (child_delta_of (children s')) = the (child_delta_of (children s))"
    by (rule child_delta_ext[OF assms(1,2,5)]) (rule assms(6))
  ultimately show ?thesis using cache_fresh_same[OF assms(3)] assms(7) by blast
qed

text \<open>The runtime left no transaction open.\<close>

definition no_dangling :: "('root, 'tx) OverlayedChanges \<Rightarrow> bool" where
  "no_dangling s \<longleftrightarrow> \<not> has_open_runtime_transactions (top s)"

lemma put_fresh:
  assumes "lockstep s" "cache_fresh be v s" "overlay_put dec k w () s = Some s'"
  shows "cache_fresh be v s'"
proof (cases k)
  case (TopKey b)
  then show ?thesis using set_storage_ok[OF assms(1), of dec b w] assms(3) by (auto simp: cache_fresh_def)
next
  case (ChildKey c b)
  then show ?thesis
    using set_child_storage_ok[OF assms(1), of dec "ParentKeyId c" b w] assms(3) by (auto simp: cache_fresh_def)
next
  case (OffKey b)
  then show ?thesis
    using assms(2,3) cache_fresh_same[of "s\<lparr>offchain := _\<rparr>" s]
    by (auto simp: set_offchain_storage_def split: Option.bind_splits)
qed

lemma on_children_id: "on_children (\<lambda>m. m) cs = cs"
  by (simp add: on_children_def case_prod_unfold)

lemma run_cmd_fresh:
  assumes ls: "lockstep s" and fresh: "cache_fresh be v s"
    and run: "run_cmd dec rc be c s = Some s'"
    and c: "\<And>w. c = CmdStorageRoot w \<Longrightarrow> storage_transaction_cache s = None \<Longrightarrow> w = v"
      "c = CmdExitRuntime \<Longrightarrow> no_dangling s"
  shows "cache_fresh be v s'"
proof -
  have ls': "lockstep s'" using run_cmd_ok[OF ls, of dec rc be c] run by simp
  note cong = cache_fresh_cong[OF ls ls' _ _ _ _ fresh]
  show ?thesis
  proof (cases c)
    case (CmdPut k w)
    with run show ?thesis by (auto intro: put_fresh[OF ls fresh])
  next
    case (CmdAppend k init)
    then show ?thesis using value_mut_ok[OF ls, of dec k init] run by (auto simp: cache_fresh_def)
  next
    case (CmdClearPrefix p)
    then show ?thesis using clear_prefix_ok[OF ls, of dec p] run by (auto simp: cache_fresh_def)
  next
    case (CmdClearChild x)
    then show ?thesis
      using clear_child_ok[OF ls, of dec "ParentKeyId x" "\<lambda>_ _. True"] run
      by (auto simp: clear_child_storage_def cache_fresh_def)
  next
    case (CmdClearChildPrefix x p)
    then show ?thesis
      using clear_child_ok[OF ls, of dec "ParentKeyId x" "\<lambda>key _. starts_with key p"] run
      by (auto simp: clear_child_prefix_def cache_fresh_def)
  next
    case CmdStart
    then have s': "s' = overlay_start_transaction s" using run by simp
    show ?thesis
    proof (rule cong)
      show "children s' = on_children start_transaction (children s)"
        by (simp add: s' overlay_start_transaction_def on_children_def)
      show "hd (abs_map (start_transaction m)) = hd (abs_map m)" for m :: OverlayedChangeSet
        by (simp add: start_transaction_def abs_map_def hd_views)
    qed (simp_all add: s' overlay_start_transaction_def start_transaction_def abs_map_def hd_views)
  next
    case CmdRollback
    then show ?thesis
      using run by (auto simp: overlay_rollback_transaction_def Let_def mark_dirty_def cache_fresh_def
          split: Option.bind_splits sum.splits)
  next
    case CmdCommit
    show ?thesis
    proof (cases "overlay_closable s")
      case True
      have s': "s' = with_maps (committed (top s)) (on_children committed (children s)) (committed (offchain s)) s"
        using overlay_commit_ok[OF ls True] CmdCommit run by auto
      have mc: "may_close (top s)" using True by (simp add: overlay_closable_def)
      note wf = sync_wf_closable[OF ls mc]
      show ?thesis
        by (rule cong[of committed]) (use wf mc in \<open>auto simp: s' committed_ok(3) with_maps_def\<close>)
    next
      case False
      then have "s' = s"
        using ov.refuse[of "top s"] CmdCommit run by (simp add: overlay_closable_def overlay_commit_transaction_def)
      with fresh show ?thesis by simp
    qed
  next
    case CmdEnterRuntime
    with overlay_enter_ok[OF ls] run obtain r where r: "overlay_enter_runtime s = Some (r, s')"
      "case r of Inl _ \<Rightarrow> s' = s | Inr _ \<Rightarrow> \<exists>t cs f. s' = with_maps t cs f s \<and>
        changes t = changes (top s) \<and> (\<exists>g. cs = on_children g (children s) \<and> (\<forall>m. changes (g m) = changes m))"
      by auto
    show ?thesis
    proof (cases r)
      case (Inr u)
      with r obtain t g f where s': "s' = with_maps t (on_children g (children s)) f s"
        "changes t = changes (top s)" "\<forall>m. changes (g m) = changes m" by auto
      show ?thesis
        by (rule cong[of g]) (simp_all add: s' with_maps_def abs_map_def hd_views)
    qed (use r fresh in simp)
  next
    case CmdExitRuntime
    show ?thesis
    proof (cases "execution_mode (top s)")
      case Client
      then have "s' = s" using overlay_exit_ok[OF ls] CmdExitRuntime run by simp
      with fresh show ?thesis by simp
    next
      case Runtime
      have s': "s' = with_maps (exited (top s)) (on_children exited (children s)) (exited (offchain s)) s"
        using overlay_exit_ok[OF ls] CmdExitRuntime run Runtime by simp
      have n: "transaction_depth (top s) - num_client_transactions (top s) = 0"
        using c(2)[OF CmdExitRuntime] by (simp add: no_dangling_def has_open_runtime_transactions_def)
      have "map_wf (top s)" using ls by (simp add: lockstep_def)
      moreover have "hd (abs_map (exited m)) = hd (abs_map m)" if "(k, m, i) \<in> set (children s)" for k m i
        using child_of_lockstep(1)[OF ls that] Runtime n by (simp add: exited_ok(3) sync_def)
      ultimately show ?thesis
        using Runtime n by (intro cong[of exited]) (auto simp: s' exited_ok(3) with_maps_def)
    qed
  next
    case (CmdStorageRoot w)
    show ?thesis
    proof (cases "storage_transaction_cache s")
      case None
      with c(1) CmdStorageRoot have w: "w = v" by simp
      with None run CmdStorageRoot show ?thesis
        by (auto simp: storage_root_def Let_def cache_fresh_def split: Option.bind_splits prod.splits)
    next
      case (Some a)
      with run CmdStorageRoot fresh show ?thesis by (cases a) (auto simp: storage_root_def)
    qed
  next
    case (CmdChildRoot x w)
    then have "(\<exists>st. s' = s\<lparr>stats := st\<rparr>) \<or> storage_transaction_cache s' = None"
      using child_storage_root_ok[OF ls, of dec rc "ParentKeyId x" be w] run by auto
    then show ?thesis
    proof
      assume "\<exists>st. s' = s\<lparr>stats := st\<rparr>"
      with fresh cache_fresh_same[of s' s be v] show ?thesis by auto
    qed (simp add: cache_fresh_def)
  qed
qed

text \<open>
  The runs in which the runtime closes its transactions before it is left. The state version is the one of the
  last call that computed a root, which a call that finds a cached root does not change.
\<close>

definition computed_in :: "overlay_cmd \<Rightarrow> ('root, 'tx) OverlayedChanges \<Rightarrow> StateVersion \<Rightarrow> StateVersion" where
  "computed_in c s v = (case c of CmdStorageRoot w \<Rightarrow> if storage_transaction_cache s = None then w else v | _ \<Rightarrow> v)"

inductive clean_run ::
  "(bytes \<Rightarrow> u32 option) \<Rightarrow> 'root RootCodec \<Rightarrow> ('root, 'tx, 'err) Backend \<Rightarrow> StateVersion \<Rightarrow>
   ('root, 'tx) OverlayedChanges \<Rightarrow> bool"
  for dec rc be where
  init: "clean_run dec rc be v overlay_default"
| step: "clean_run dec rc be v s \<Longrightarrow> run_cmd dec rc be c s = Some s' \<Longrightarrow>
    (c = CmdExitRuntime \<Longrightarrow> no_dangling s) \<Longrightarrow> clean_run dec rc be (computed_in c s v) s'"

lemma clean_run_fresh: "clean_run dec rc be v s \<Longrightarrow> lockstep s \<and> cache_fresh be v s"
proof (induction rule: clean_run.induct)
  case (init v)
  then show ?case using lockstep_default by (simp add: cache_fresh_def overlay_default_def)
next
  case (step v s c s')
  then have "lockstep s" and "cache_fresh be (computed_in c s v) s"
    by (auto simp: computed_in_def cache_fresh_def split: overlay_cmd.splits)
  with step.hyps(2,3) show ?case
    using run_cmd_ok[of s dec rc be c] run_cmd_fresh[of s be "computed_in c s v" dec rc c s']
    by (auto simp: computed_in_def)
qed

text \<open>C15: in every run in which the runtime closes the transactions it opened, the storage root that the overlay
  reports is the backend's root of the values the overlay holds at that moment. It is the root in the state
  version that is asked for where it is computed; where it comes from the cache it is the root in the version
  \<open>v\<close> of the call that computed it, since the cache does not record a version.\<close>

theorem storage_root_current:
  assumes "clean_run dec rc be v s" "storage_root be w s = Some ((root, cached), s')"
  shows "root = current_root be (if cached then v else w) s"
proof (cases "storage_transaction_cache s")
  case None
  with assms(2) show ?thesis
    by (auto simp: storage_root_def Let_def current_root_def split: Option.bind_splits prod.splits)
next
  case (Some a)
  with assms(2) clean_run_fresh[OF assms(1)] show ?thesis
    by (cases a) (auto simp: storage_root_def cache_fresh_def current_root_def)
qed

text \<open>C29: leaving the runtime rolls back every transaction the runtime left open, at any nesting, but keeps the
  storage root that was computed inside them: whatever is asked for afterwards, the overlay reports the root of
  the values before the rollback.\<close>

theorem exit_runtime_keeps_stale_root:
  assumes "lockstep s" "execution_mode (top s) = Runtime" "storage_root be v s = Some ((root, cached), s1)"
  shows "\<exists>s2. overlay_exit_runtime s1 = Some (Inr (), s2) \<and>
    overlay_stack s2 = drop (transaction_depth (top s) - num_client_transactions (top s)) (overlay_stack s) \<and>
    (\<forall>w. storage_root be w s2 = Some ((root, True), s2)) \<and> (cached \<or> root = current_root be v s)"
proof -
  obtain c tx where s1: "s1 = s\<lparr>storage_transaction_cache := c\<rparr>" "c = Some (tx, root)" and "cached \<or> root = current_root be v s"
  proof (cases "storage_transaction_cache s")
    case None
    with assms(3) show ?thesis
      by (auto simp: storage_root_def Let_def current_root_def intro!: that split: Option.bind_splits prod.splits)
  next
    case (Some a)
    with assms(3) show ?thesis by (cases a) (auto simp: storage_root_def intro!: that[of "storage_transaction_cache s"])
  qed
  have "child_views s1 = child_views s" by (intro child_views_cong) (simp_all add: s1(1))
  then have "lockstep s1" "top s1 = top s" "overlay_stack s1 = overlay_stack s"
    using assms(1) by (simp_all add: s1(1) lockstep_def overlay_stack_def)
  with overlay_exit_ok[of s1] assms(2) \<open>cached \<or> _\<close> show ?thesis
    by (auto simp: storage_root_def with_maps_def s1)
qed

section \<open>Examples\<close>

text \<open>A backend whose root is the list of values it is given.\<close>

definition list_backend :: "(storage_delta, unit, unit) Backend" where
  "list_backend = \<lparr>be_storage = (\<lambda>_. Inr None),
     be_full_storage_root = (\<lambda>delta _ _. (delta, ())),
     be_child_storage_root = (\<lambda>_ delta _. (delta, delta = [], ()))\<rparr>"

definition list_codec :: "storage_delta RootCodec" where
  "list_codec = \<lparr>encode_root = (\<lambda>_. []), decode_root = (\<lambda>_. None), empty_child_trie_root = []\<rparr>"

definition ex_overlay :: "(storage_delta, unit) OverlayedChanges" where
  "ex_overlay = overlay_default\<lparr>top := map_default\<lparr>changes := [([1], \<lparr>transactions = [\<lparr>iv_value = Some [7], iv_extrinsics = []\<rparr>]\<rparr>)]\<rparr>,
     stats := stats_default\<lparr>writes_overlay := 1, bytes_writes_overlay := 1\<rparr>\<rparr>"

lemma ex_overlay_run: "clean_run (\<lambda>_. None) list_codec list_backend V1 ex_overlay"
proof -
  have "run_cmd (\<lambda>_. None) list_codec list_backend (CmdPut (TopKey [1]) (Some [7])) overlay_default = Some ex_overlay"
    by code_simp
  from clean_run.step[OF clean_run.init this, of V1] show ?thesis by (simp add: computed_in_def)
qed

text \<open>A root computed in one version and asked for in the other.\<close>

definition ex_rooted :: "(storage_delta, unit) OverlayedChanges" where
  "ex_rooted = ex_overlay\<lparr>storage_transaction_cache := Some ((), [([1], Some [7])])\<rparr>"

theorem storage_root_current_witness:
  "clean_run (\<lambda>_. None) list_codec list_backend V0 ex_rooted \<and>
   storage_root list_backend V1 ex_rooted = Some (([([1], Some [7])], True), ex_rooted) \<and>
   [([1], Some [7])] = current_root list_backend V0 ex_rooted"
proof -
  have "run_cmd (\<lambda>_. None) list_codec list_backend (CmdStorageRoot V0) ex_overlay = Some ex_rooted" by code_simp
  from clean_run.step[OF ex_overlay_run this] have run: "clean_run (\<lambda>_. None) list_codec list_backend V0 ex_rooted"
    by (simp add: computed_in_def ex_overlay_def overlay_default_def)
  have r: "storage_root list_backend V1 ex_rooted = Some (([([1], Some [7])], True), ex_rooted)" by code_simp
  show ?thesis using storage_root_current[OF run r] r run by simp
qed

text \<open>The runtime of the example has written a value in a transaction that it leaves open.\<close>

definition ex_in_runtime :: "(storage_delta, unit) OverlayedChanges" where
  "ex_in_runtime = the (run_cmds (\<lambda>_. None) list_codec list_backend
     [CmdEnterRuntime, CmdStart, CmdPut (TopKey [1]) (Some [7])] overlay_default)"

theorem exit_runtime_keeps_stale_root_witness:
  "\<exists>s1 s2. storage_root list_backend V1 ex_in_runtime = Some (([([1], Some [7])], False), s1) \<and>
    overlay_exit_runtime s1 = Some (Inr (), s2) \<and> overlay_stack s2 = drop 1 (overlay_stack ex_in_runtime) \<and>
    storage_root list_backend V1 s2 = Some (([([1], Some [7])], True), s2) \<and> current_root list_backend V1 s2 = []"
proof -
  obtain s where "run_cmds (\<lambda>_. None) list_codec list_backend [CmdEnterRuntime, CmdStart, CmdPut (TopKey [1]) (Some [7])]
      overlay_default = Some s" "lockstep s" using run_cmds_ok[OF lockstep_default] by blast
  then have ls: "lockstep ex_in_runtime" by (simp add: ex_in_runtime_def)
  have m: "execution_mode (top ex_in_runtime) = Runtime" by code_simp
  have d: "transaction_depth (top ex_in_runtime) - num_client_transactions (top ex_in_runtime) = 1" by code_simp
  define s1 where "s1 = ex_in_runtime\<lparr>storage_transaction_cache := Some ((), [([1], Some [7])])\<rparr>"
  have r: "storage_root list_backend V1 ex_in_runtime = Some (([([1], Some [7])], False), s1)"
    unfolding s1_def by code_simp
  have "map_option (\<lambda>(_, s2). current_root list_backend V1 s2) (overlay_exit_runtime s1) = Some []"
    unfolding s1_def by code_simp
  with exit_runtime_keeps_stale_root[OF ls m r, unfolded d] r show ?thesis by fastforce
qed

lemma ex_overlay_lockstep: "lockstep ex_overlay"
  using clean_run_fresh[OF ex_overlay_run] by simp

theorem overlay_rollback_restores_witness:
  "lockstep ex_overlay \<and> (\<exists>s1 s2. run_cmds (\<lambda>_. None) list_codec list_backend
       [CmdStart, CmdPut (TopKey [1]) None, CmdPut (ChildKey [2] [3]) (Some [4])] ex_overlay = Some s1 \<and>
     overlay_rollback_transaction s1 = Some (Inr (), s2) \<and> overlay_stack s2 = overlay_stack ex_overlay)"
  using overlay_rollback_restores[OF ex_overlay_lockstep, of "\<lambda>_. None" list_codec list_backend
      "[(TopKey [1], None), (ChildKey [2] [3], Some [4])]"] ex_overlay_lockstep
  by simp

theorem overlay_commit_equivalent_witness:
  "lockstep ex_overlay \<and> (\<exists>s1 s2 s3. run_cmds (\<lambda>_. None) list_codec list_backend
       [CmdStart, CmdPut (TopKey [1]) None, CmdPut (OffKey [3]) (Some [4])] ex_overlay = Some s1 \<and>
     overlay_commit_transaction s1 = Some (Inr (), s2) \<and>
     run_cmds (\<lambda>_. None) list_codec list_backend
       [CmdPut (TopKey [1]) None, CmdPut (OffKey [3]) (Some [4])] ex_overlay = Some s3 \<and>
     overlay_stack s2 = overlay_stack s3)"
  using overlay_commit_equivalent[OF ex_overlay_lockstep, of "\<lambda>_. None" list_codec list_backend
      "[(TopKey [1], None), (OffKey [3], Some [4])]"] ex_overlay_lockstep
  by simp

end
