(* ===== verification/Weights.thy ===== *)
theory Weights
  imports Rust_Prelude
begin

text \<open>
  The two-dimensional weight of \<open>sp-weights\<close> (\<open>substrate/primitives/weights/src\<close>): the \<open>Weight\<close>
  structure with its saturating, checked and plain arithmetic and its eight comparisons
  (\<open>weight_v2.rs\<close>), the \<open>RuntimeDbWeight\<close> helper (\<open>lib.rs\<close>) and the \<open>WeightMeter\<close>
  (\<open>weight_meter.rs\<close>) with which the message queue and the bridge limit their work.

  The comparisons are partial orders taken component by component, so \<open>any_gt\<close> is the negation of
  \<open>all_lte\<close> and not of \<open>all_lt\<close>. The meter's laws (a charge that succeeds is exact and stays
  inside the limit, one that fails changes nothing) are the locale \<open>meter\<close>, which the servicing code
  of the message queue rests on.
\<close>

section \<open>Weight\<close>

record Weight =
  ref_time :: u64
  proof_size :: u64

definition set_ref_time :: "Weight \<Rightarrow> u64 \<Rightarrow> Weight" where
  "set_ref_time self c = self\<lparr>ref_time := c\<rparr>"

definition set_proof_size :: "Weight \<Rightarrow> u64 \<Rightarrow> Weight" where
  "set_proof_size self c = self\<lparr>proof_size := c\<rparr>"

definition from_parts :: "u64 \<Rightarrow> u64 \<Rightarrow> Weight" where
  "from_parts r p = \<lparr>ref_time = r, proof_size = p\<rparr>"

definition from_all :: "u64 \<Rightarrow> Weight" where
  "from_all v = \<lparr>ref_time = v, proof_size = v\<rparr>"

definition weight_MAX :: Weight where
  "weight_MAX = \<lparr>ref_time = umax, proof_size = umax\<rparr>"

definition weight_zero :: Weight where
  "weight_zero = \<lparr>ref_time = 0, proof_size = 0\<rparr>"

definition weight_is_zero :: "Weight \<Rightarrow> bool" where
  "weight_is_zero self \<longleftrightarrow> self = weight_zero"

definition weight_min :: "Weight \<Rightarrow> Weight \<Rightarrow> Weight" where
  "weight_min a b = \<lparr>ref_time = min (ref_time a) (ref_time b),
     proof_size = min (proof_size a) (proof_size b)\<rparr>"

definition weight_max :: "Weight \<Rightarrow> Weight \<Rightarrow> Weight" where
  "weight_max a b = \<lparr>ref_time = max (ref_time a) (ref_time b),
     proof_size = max (proof_size a) (proof_size b)\<rparr>"

subsection \<open>Comparisons\<close>

definition any_gt :: "Weight \<Rightarrow> Weight \<Rightarrow> bool" where
  "any_gt a b \<longleftrightarrow> ref_time a > ref_time b \<or> proof_size a > proof_size b"

definition all_gt :: "Weight \<Rightarrow> Weight \<Rightarrow> bool" where
  "all_gt a b \<longleftrightarrow> ref_time a > ref_time b \<and> proof_size a > proof_size b"

definition any_lt :: "Weight \<Rightarrow> Weight \<Rightarrow> bool" where
  "any_lt a b \<longleftrightarrow> ref_time a < ref_time b \<or> proof_size a < proof_size b"

definition all_lt :: "Weight \<Rightarrow> Weight \<Rightarrow> bool" where
  "all_lt a b \<longleftrightarrow> ref_time a < ref_time b \<and> proof_size a < proof_size b"

definition any_gte :: "Weight \<Rightarrow> Weight \<Rightarrow> bool" where
  "any_gte a b \<longleftrightarrow> ref_time a \<ge> ref_time b \<or> proof_size a \<ge> proof_size b"

definition all_gte :: "Weight \<Rightarrow> Weight \<Rightarrow> bool" where
  "all_gte a b \<longleftrightarrow> ref_time a \<ge> ref_time b \<and> proof_size a \<ge> proof_size b"

definition any_lte :: "Weight \<Rightarrow> Weight \<Rightarrow> bool" where
  "any_lte a b \<longleftrightarrow> ref_time a \<le> ref_time b \<or> proof_size a \<le> proof_size b"

definition all_lte :: "Weight \<Rightarrow> Weight \<Rightarrow> bool" where
  "all_lte a b \<longleftrightarrow> ref_time a \<le> ref_time b \<and> proof_size a \<le> proof_size b"

definition any_eq :: "Weight \<Rightarrow> Weight \<Rightarrow> bool" where
  "any_eq a b \<longleftrightarrow> ref_time a = ref_time b \<or> proof_size a = proof_size b"

subsection \<open>Arithmetic\<close>

definition weight_saturating_add :: "Weight \<Rightarrow> Weight \<Rightarrow> Weight" where
  "weight_saturating_add a b = \<lparr>ref_time = saturating_add (ref_time a) (ref_time b),
     proof_size = saturating_add (proof_size a) (proof_size b)\<rparr>"

definition weight_saturating_sub :: "Weight \<Rightarrow> Weight \<Rightarrow> Weight" where
  "weight_saturating_sub a b = \<lparr>ref_time = saturating_sub (ref_time a) (ref_time b),
     proof_size = saturating_sub (proof_size a) (proof_size b)\<rparr>"

definition weight_saturating_mul :: "Weight \<Rightarrow> u64 \<Rightarrow> Weight" where
  "weight_saturating_mul a k = \<lparr>ref_time = saturating_mul (ref_time a) k,
     proof_size = saturating_mul (proof_size a) k\<rparr>"

text \<open>\<open>saturating_div\<close> of an unsigned integer is the plain quotient; dividing by zero panics.\<close>

definition weight_saturating_div :: "Weight \<Rightarrow> u64 \<Rightarrow> Weight option" where
  "weight_saturating_div a k = (if k = 0 then None
     else Some \<lparr>ref_time = ref_time a div k, proof_size = proof_size a div k\<rparr>)"

definition weight_saturating_pow :: "Weight \<Rightarrow> u32 \<Rightarrow> Weight" where
  "weight_saturating_pow a e = \<lparr>ref_time = saturating_pow (ref_time a) e,
     proof_size = saturating_pow (proof_size a) e\<rparr>"

definition saturating_accrue :: "Weight \<Rightarrow> Weight \<Rightarrow> Weight" where
  "saturating_accrue self amount = weight_saturating_add self amount"

definition saturating_reduce :: "Weight \<Rightarrow> Weight \<Rightarrow> Weight" where
  "saturating_reduce self amount = weight_saturating_sub self amount"

definition weight_checked_add :: "Weight \<Rightarrow> Weight \<Rightarrow> Weight option" where
  "weight_checked_add a b =
     (case checked_add (ref_time a) (ref_time b) of None \<Rightarrow> None
      | Some t \<Rightarrow> (case checked_add (proof_size a) (proof_size b) of None \<Rightarrow> None
         | Some s \<Rightarrow> Some \<lparr>ref_time = t, proof_size = s\<rparr>))"

definition weight_checked_sub :: "Weight \<Rightarrow> Weight \<Rightarrow> Weight option" where
  "weight_checked_sub a b =
     (case checked_sub (ref_time a) (ref_time b) of None \<Rightarrow> None
      | Some t \<Rightarrow> (case checked_sub (proof_size a) (proof_size b) of None \<Rightarrow> None
         | Some s \<Rightarrow> Some \<lparr>ref_time = t, proof_size = s\<rparr>))"

definition weight_checked_mul :: "Weight \<Rightarrow> u64 \<Rightarrow> Weight option" where
  "weight_checked_mul a k =
     (case checked_mul (ref_time a) k of None \<Rightarrow> None
      | Some t \<Rightarrow> (case checked_mul (proof_size a) k of None \<Rightarrow> None
         | Some s \<Rightarrow> Some \<lparr>ref_time = t, proof_size = s\<rparr>))"

definition weight_checked_div :: "Weight \<Rightarrow> u64 \<Rightarrow> Weight option" where
  "weight_checked_div a k =
     (case checked_div (ref_time a) k of None \<Rightarrow> None
      | Some t \<Rightarrow> (case checked_div (proof_size a) k of None \<Rightarrow> None
         | Some s \<Rightarrow> Some \<lparr>ref_time = t, proof_size = s\<rparr>))"

definition checked_div_per_component :: "Weight \<Rightarrow> Weight \<Rightarrow> u64 option" where
  "checked_div_per_component self other =
     (let (all_zero, r) = (case checked_div (ref_time self) (ref_time other) of
            Some q \<Rightarrow> (False, q) | None \<Rightarrow> (True, umax));
          (all_zero', p) = (case checked_div (proof_size self) (proof_size other) of
            Some q \<Rightarrow> (False, q) | None \<Rightarrow> (all_zero, umax))
      in if all_zero' then None else Some (if r < p then r else p))"

definition weight_try_add :: "Weight \<Rightarrow> Weight \<Rightarrow> Weight \<Rightarrow> Weight option" where
  "weight_try_add self other limit_w =
     (case weight_checked_add self other of None \<Rightarrow> None
      | Some sum_w \<Rightarrow> (if any_gt sum_w limit_w then None else Some sum_w))"

text \<open>\<open>checked_accrue\<close> and \<open>checked_reduce\<close> return the new value of \<open>self\<close> with the result.\<close>

definition checked_accrue :: "Weight \<Rightarrow> Weight \<Rightarrow> Weight \<times> unit option" where
  "checked_accrue self amount = (case weight_checked_add self amount of
     None \<Rightarrow> (self, None) | Some w \<Rightarrow> (w, Some ()))"

definition checked_reduce :: "Weight \<Rightarrow> Weight \<Rightarrow> Weight \<times> unit option" where
  "checked_reduce self amount = (case weight_checked_sub self amount of
     None \<Rightarrow> (self, None) | Some w \<Rightarrow> (w, Some ()))"

text \<open>The plain operators \<open>Add\<close>, \<open>Sub\<close>, \<open>Mul\<close>, \<open>Div\<close>, with the wrap-around of the machine.\<close>

definition weight_add :: "Weight \<Rightarrow> Weight \<Rightarrow> Weight" where
  "weight_add a b = \<lparr>ref_time = ref_time a + ref_time b, proof_size = proof_size a + proof_size b\<rparr>"

definition weight_sub :: "Weight \<Rightarrow> Weight \<Rightarrow> Weight" where
  "weight_sub a b = \<lparr>ref_time = ref_time a - ref_time b, proof_size = proof_size a - proof_size b\<rparr>"

definition weight_mul :: "Weight \<Rightarrow> u64 \<Rightarrow> Weight" where
  "weight_mul a k = \<lparr>ref_time = ref_time a * k, proof_size = proof_size a * k\<rparr>"

definition weight_div :: "Weight \<Rightarrow> u64 \<Rightarrow> Weight option" where
  "weight_div a k = (if k = 0 then None
     else Some \<lparr>ref_time = ref_time a div k, proof_size = proof_size a div k\<rparr>)"

definition add_ref_time :: "Weight \<Rightarrow> u64 \<Rightarrow> Weight" where
  "add_ref_time a k = \<lparr>ref_time = ref_time a + k, proof_size = proof_size a\<rparr>"

definition add_proof_size :: "Weight \<Rightarrow> u64 \<Rightarrow> Weight" where
  "add_proof_size a k = \<lparr>ref_time = ref_time a, proof_size = proof_size a + k\<rparr>"

definition sub_ref_time :: "Weight \<Rightarrow> u64 \<Rightarrow> Weight" where
  "sub_ref_time a k = \<lparr>ref_time = ref_time a - k, proof_size = proof_size a\<rparr>"

definition sub_proof_size :: "Weight \<Rightarrow> u64 \<Rightarrow> Weight" where
  "sub_proof_size a k = \<lparr>ref_time = ref_time a, proof_size = proof_size a - k\<rparr>"

section \<open>RuntimeDbWeight\<close>

record RuntimeDbWeight =
  db_read :: u64
  db_write :: u64

definition db_reads :: "RuntimeDbWeight \<Rightarrow> u64 \<Rightarrow> Weight" where
  "db_reads self r = from_parts (saturating_mul (db_read self) r) 0"

definition db_writes :: "RuntimeDbWeight \<Rightarrow> u64 \<Rightarrow> Weight" where
  "db_writes self w = from_parts (saturating_mul (db_write self) w) 0"

definition db_reads_writes :: "RuntimeDbWeight \<Rightarrow> u64 \<Rightarrow> u64 \<Rightarrow> Weight" where
  "db_reads_writes self r w =
     (let read_weight = saturating_mul (db_read self) r;
          write_weight = saturating_mul (db_write self) w
      in from_parts (saturating_add read_weight write_weight) 0)"

section \<open>WeightMeter\<close>

record WeightMeter =
  consumed :: Weight
  limit :: Weight

definition meter_with_limit :: "Weight \<Rightarrow> WeightMeter" where
  "meter_with_limit l = \<lparr>consumed = weight_zero, limit = l\<rparr>"

definition meter_new :: WeightMeter where
  "meter_new = meter_with_limit weight_MAX"

definition meter_remaining :: "WeightMeter \<Rightarrow> Weight" where
  "meter_remaining self = weight_saturating_sub (limit self) (consumed self)"

definition meter_consume :: "WeightMeter \<Rightarrow> Weight \<Rightarrow> WeightMeter" where
  "meter_consume self w = self\<lparr>consumed := saturating_accrue (consumed self) w\<rparr>"

text \<open>\<open>try_consume\<close> answers \<open>Ok\<close> with the charged meter, or \<open>Err\<close> and leaves the meter alone.\<close>

definition try_consume :: "WeightMeter \<Rightarrow> Weight \<Rightarrow> (unit, WeightMeter) result" where
  "try_consume self w = (case weight_checked_add (consumed self) w of None \<Rightarrow> Inl ()
     | Some test \<Rightarrow> (if any_gt test (limit self) then Inl () else Inr (self\<lparr>consumed := test\<rparr>)))"

definition can_consume :: "WeightMeter \<Rightarrow> Weight \<Rightarrow> bool" where
  "can_consume self w = (case weight_checked_add (consumed self) w of None \<Rightarrow> False
     | Some t \<Rightarrow> all_lte t (limit self))"

definition reclaim_proof_size :: "WeightMeter \<Rightarrow> u64 \<Rightarrow> WeightMeter" where
  "reclaim_proof_size self s =
     self\<lparr>consumed := saturating_reduce (consumed self) (from_parts 0 s)\<rparr>"


section \<open>Laws of weights\<close>

text \<open>\<open>fits a b c\<close>: \<open>a + b\<close> is at most \<open>c\<close> in both components, over the natural numbers.\<close>

definition fits :: "Weight \<Rightarrow> Weight \<Rightarrow> Weight \<Rightarrow> bool" where
  "fits a b c \<longleftrightarrow> unat (ref_time a) + unat (ref_time b) \<le> unat (ref_time c) \<and>
     unat (proof_size a) + unat (proof_size b) \<le> unat (proof_size c)"

lemma weight_eq_iff:
  "(a :: Weight) = b \<longleftrightarrow> ref_time a = ref_time b \<and> proof_size a = proof_size b"
  by (cases a; cases b) simp

lemma any_gt_iff: "any_gt a b \<longleftrightarrow> \<not> all_lte a b"
  by (auto simp: any_gt_def all_lte_def)

lemma all_gte_iff: "all_gte a b \<longleftrightarrow> all_lte b a"
  by (simp add: all_gte_def all_lte_def)

lemma all_lte_refl [simp]: "all_lte a a"
  by (simp add: all_lte_def)

lemma all_lte_trans: "all_lte a b \<Longrightarrow> all_lte b c \<Longrightarrow> all_lte a c"
  by (auto simp: all_lte_def)

lemma zero_all_lte [simp]: "all_lte weight_zero a"
  by (simp add: all_lte_def weight_zero_def)

lemma all_lte_MAX [simp]: "all_lte a weight_MAX"
  by (simp add: all_lte_def weight_MAX_def)

lemma weight_min_lte: "all_lte (weight_min a b) a" "all_lte (weight_min a b) b"
  by (simp_all add: all_lte_def weight_min_def)

lemma weight_checked_add_Some_iff:
  "weight_checked_add a b = Some c \<longleftrightarrow>
     unat (ref_time c) = unat (ref_time a) + unat (ref_time b) \<and>
     unat (proof_size c) = unat (proof_size a) + unat (proof_size b)"
  by (cases c) (auto simp: weight_checked_add_def checked_add_Some_iff split: option.splits;
    metis checked_add_Some_iff option.distinct(1) option.inject)

lemma weight_checked_sub_Some_iff:
  "weight_checked_sub a b = Some c \<longleftrightarrow>
     unat (ref_time a) = unat (ref_time b) + unat (ref_time c) \<and>
     unat (proof_size a) = unat (proof_size b) + unat (proof_size c)"
  by (cases c) (auto simp: weight_checked_sub_def checked_sub_Some_iff split: option.splits;
    metis checked_sub_Some_iff option.distinct(1) option.inject)

lemma weight_checked_add_fits: "fits a b c \<Longrightarrow> \<exists>s. weight_checked_add a b = Some s"
proof -
  assume "fits a b c"
  then have "unat (ref_time a) + unat (ref_time b) < 2 ^ 64"
    and "unat (proof_size a) + unat (proof_size b) < 2 ^ 64"
    using unat_bound [of "ref_time c"] unat_bound [of "proof_size c"] by (auto simp: fits_def)
  then show ?thesis by (auto simp: weight_checked_add_def checked_add_def)
qed


lemma try_consume_Inr_iff:
  "try_consume m w = Inr m' \<longleftrightarrow>
     fits (consumed m) w (limit m) \<and> limit m' = limit m \<and>
     unat (ref_time (consumed m')) = unat (ref_time (consumed m)) + unat (ref_time w) \<and>
     unat (proof_size (consumed m')) = unat (proof_size (consumed m)) + unat (proof_size w)"
  (is "_ \<longleftrightarrow> ?rhs")
proof
  show "try_consume m w = Inr m' \<Longrightarrow> ?rhs"
    by (auto simp: try_consume_def weight_checked_add_Some_iff any_gt_iff all_lte_def fits_def
        word_le_nat_alt split: option.splits if_splits)
next
  assume r: ?rhs
  then have "weight_checked_add (consumed m) w = Some (consumed m')"
    by (simp add: weight_checked_add_Some_iff)
  moreover from r have "all_lte (consumed m') (limit m)"
    by (simp add: all_lte_def fits_def word_le_nat_alt)
  ultimately show "try_consume m w = Inr m'"
    using r by (cases m; cases m') (simp add: try_consume_def any_gt_iff)
qed

lemma try_consume_Inl_iff: "try_consume m w = Inl u \<longleftrightarrow> \<not> fits (consumed m) w (limit m)"
proof -
  have "\<not> fits (consumed m) w (limit m) \<Longrightarrow> try_consume m w = Inl u"
    by (cases "try_consume m w") (auto simp: try_consume_Inr_iff)
  moreover have "fits (consumed m) w (limit m) \<Longrightarrow> \<exists>m'. try_consume m w = Inr m'"
  proof -
    assume f: "fits (consumed m) w (limit m)"
    then obtain t where "weight_checked_add (consumed m) w = Some t"
      using weight_checked_add_fits by blast
    moreover from this f have "\<not> any_gt t (limit m)"
      by (simp add: weight_checked_add_Some_iff any_gt_iff all_lte_def fits_def word_le_nat_alt)
    ultimately show ?thesis by (simp add: try_consume_def)
  qed
  ultimately show ?thesis by force
qed

section \<open>The meter as an interface\<close>

text \<open>
  \<open>meter_ok\<close> is the invariant that the code asserts in debug builds, \<open>meter_left\<close> the number of
  units that are left, summed over the two components: what a loop that charges the meter in every
  round runs out of.
\<close>

definition meter_ok :: "WeightMeter \<Rightarrow> bool" where
  "meter_ok m \<longleftrightarrow> all_lte (consumed m) (limit m)"

definition meter_left :: "WeightMeter \<Rightarrow> nat" where
  "meter_left m = (unat (ref_time (limit m)) - unat (ref_time (consumed m))) +
     (unat (proof_size (limit m)) - unat (proof_size (consumed m)))"

definition weight_units :: "Weight \<Rightarrow> nat" where
  "weight_units w = unat (ref_time w) + unat (proof_size w)"

text \<open>
  What a client of a meter relies on: a charge that succeeds keeps the invariant and the limit and
  takes exactly its units from what is left, and a charge that would not fit fails.
\<close>

locale meter =
  fixes charge :: "'m \<Rightarrow> 'w \<Rightarrow> (unit, 'm) result"
    and ok :: "'m \<Rightarrow> bool"
    and cap :: "'m \<Rightarrow> 'c"
    and left :: "'m \<Rightarrow> nat"
    and units :: "'w \<Rightarrow> nat"
  assumes charge_ok: "charge m w = Inr m' \<Longrightarrow> ok m'"
    and charge_cap: "charge m w = Inr m' \<Longrightarrow> cap m' = cap m"
    and charge_left: "charge m w = Inr m' \<Longrightarrow> left m = left m' + units w"
begin

lemma charge_left_le: "charge m w = Inr m' \<Longrightarrow> left m' \<le> left m"
  by (simp add: charge_left)

lemma charge_left_less: "charge m w = Inr m' \<Longrightarrow> 0 < units w \<Longrightarrow> left m' < left m"
  by (simp add: charge_left)

lemma charge_fails: "left m < units w \<Longrightarrow> charge m w = Inl ()"
  by (cases "charge m w") (auto dest: charge_left)

end

interpretation wm: meter try_consume meter_ok limit meter_left weight_units
  by unfold_locales
    (auto simp: try_consume_Inr_iff meter_ok_def meter_left_def weight_units_def fits_def
      all_lte_def word_le_nat_alt)

lemma meter_with_limit_ok [simp]: "meter_ok (meter_with_limit l)"
  by (simp add: meter_ok_def meter_with_limit_def)

lemma meter_with_limit_limit [simp]: "limit (meter_with_limit l) = l"
  by (simp add: meter_with_limit_def)

section \<open>Properties\<close>

text \<open>\<open>WeightMeter::try_consume\<close> charges a meter exactly when the consumed weight plus the charge,
  added without overflow, is within the limit in both components. The charged meter has consumed
  exactly that sum, and \<open>can_consume\<close> predicts the outcome.\<close>

theorem try_consume_exact:
  "try_consume m w =
     (if fits (consumed m) w (limit m)
      then Inr (m\<lparr>consumed := weight_add (consumed m) w\<rparr>) else Inl ()) \<and>
   can_consume m w = fits (consumed m) w (limit m)"
proof (cases "fits (consumed m) w (limit m)")
  case True
  then obtain t where t: "weight_checked_add (consumed m) w = Some t"
    using weight_checked_add_fits by blast
  then have "t = weight_add (consumed m) w"
    by (auto simp: weight_checked_add_def weight_add_def checked_add_def split: option.splits if_splits)
  moreover from t True have "all_lte t (limit m)"
    by (simp add: weight_checked_add_Some_iff all_lte_def fits_def word_le_nat_alt)
  ultimately show ?thesis
    using True t by (simp add: try_consume_def can_consume_def any_gt_iff)
next
  case False
  then have "can_consume m w = False"
    by (auto simp: can_consume_def weight_checked_add_Some_iff all_lte_def fits_def
        word_le_nat_alt split: option.splits)
  with False show ?thesis by (simp add: try_consume_Inl_iff)
qed

text \<open>The quotient of one component, \<open>u64::MAX\<close> where the divisor is zero.\<close>

definition component_div :: "u64 \<Rightarrow> u64 \<Rightarrow> u64" where
  "component_div x y = (case checked_div x y of Some q \<Rightarrow> q | None \<Rightarrow> umax)"

lemma component_div_greatest:
  "k \<le> unat (component_div x y) \<longleftrightarrow> k \<le> unat (umax :: u64) \<and> k * unat y \<le> unat x"
proof (cases "y = 0")
  case True
  then show ?thesis by (simp add: component_div_def checked_div_def)
next
  case False
  then have "k \<le> unat x div unat y \<longleftrightarrow> k * unat y \<le> unat x"
    by (simp add: less_eq_div_iff_mult_less_eq unat_gt_0)
  moreover have "unat x div unat y \<le> unat (umax :: u64)"
    using unat_le_umax [of x] div_le_dividend [of "unat x" "unat y"] unfolding unat_umax by linarith
  ultimately show ?thesis
    using False by (auto simp: component_div_def checked_div_def unat_div)
qed

lemma checked_div_per_component_eq:
  "checked_div_per_component a b = (if b = weight_zero then None
     else Some (min (component_div (ref_time a) (ref_time b))
                    (component_div (proof_size a) (proof_size b))))"
  by (auto simp: checked_div_per_component_def component_div_def checked_div_def weight_zero_def
      weight_eq_iff min_def not_less)

text \<open>\<open>checked_div_per_component\<close> counts how many times one weight fits into another. For a
  weight \<open>b\<close> that is not zero it answers the greatest \<open>u64\<close> value \<open>n\<close> for which \<open>n\<close> times \<open>b\<close> is
  within \<open>a\<close> in both components, and for the zero weight it answers nothing.\<close>

theorem checked_div_per_component_greatest:
  "(case checked_div_per_component a b of
      None \<Rightarrow> b = weight_zero
    | Some n \<Rightarrow> b \<noteq> weight_zero \<and>
        (\<forall>k. (k \<le> unat n) = (k \<le> unat (umax :: u64) \<and>
           k * unat (ref_time b) \<le> unat (ref_time a) \<and>
           k * unat (proof_size b) \<le> unat (proof_size a))))"
proof -
  have "unat (min x y) = min (unat x) (unat y)" for x y :: u64
    by (simp add: min_def word_le_nat_alt)
  then show ?thesis
    by (auto simp: checked_div_per_component_eq component_div_greatest)
qed

end
