(* ===== verification/MQ_Page.thy ===== *)
theory MQ_Page
  imports Weights
begin

text \<open>
  Pages of the message queue pallet (\<open>substrate/frame/message-queue/src/lib.rs\<close>): a heap of bytes in
  which every message follows a header with its length and a flag, and the counters that describe it.
  The size type is \<open>u32\<close>. The codec of a header (generated by the SCALE codec's macros) is a parameter;
  the locale \<open>item_codec\<close> holds what the code relies on. The abstract view of a page is the list of its
  items, and every operation is shown to implement its counterpart on that list.
\<close>

section \<open>Definitions\<close>

record ItemHeader =
  payload_len :: u32
  is_processed :: bool

record ItemCodec =
  ic_encode :: "ItemHeader \<Rightarrow> bytes"
  ic_decode :: "bytes \<Rightarrow> (ItemHeader \<times> bytes) option"
  ic_max_encoded_len :: nat

record Page =
  remaining :: u32
  pg_remaining_size :: u32
  first_index :: u32
  pg_first :: u32
  pg_last :: u32
  heap :: bytes

text \<open>\<open>BoundedVec::defensive_truncate_from\<close>.\<close>

definition defensive_truncate :: "u32 \<Rightarrow> bytes \<Rightarrow> bytes" where
  "defensive_truncate bound v = take (unat bound) v"

definition item_bytes :: "ItemCodec \<Rightarrow> bool \<Rightarrow> bytes \<Rightarrow> bytes" where
  "item_bytes c processed message =
     ic_encode c \<lparr>payload_len = saturated_from (length message), is_processed = processed\<rparr> @ message"

definition from_message :: "ItemCodec \<Rightarrow> u32 \<Rightarrow> bytes \<Rightarrow> Page" where
  "from_message c heap_size message = \<lparr>remaining = 1, pg_remaining_size = saturated_from (length message),
     first_index = 0, pg_first = 0, pg_last = 0,
     heap = defensive_truncate heap_size (item_bytes c False message)\<rparr>"

definition try_append_message :: "ItemCodec \<Rightarrow> u32 \<Rightarrow> bytes \<Rightarrow> Page \<Rightarrow> (unit, Page) result" where
  "try_append_message c heap_size message self =
     (let pos = length (heap self);
          data_len = ic_max_encoded_len c + length message
      in if unat heap_size - length (heap self) < data_len then Inl ()
         else Inr (self\<lparr>
           heap := defensive_truncate heap_size (heap self @ item_bytes c False message),
           pg_last := saturated_from pos,
           remaining := saturating_inc (remaining self),
           pg_remaining_size := saturating_add (pg_remaining_size self) (saturated_from (length message))\<rparr>))"

definition peek_first :: "ItemCodec \<Rightarrow> Page \<Rightarrow> bytes option" where
  "peek_first c self = (if pg_first self > pg_last self then None
     else let f = min (unat (pg_first self)) (length (heap self))
          in case ic_decode c (drop f (heap self)) of None \<Rightarrow> None
             | Some (h, item_slice) \<Rightarrow>
                 if unat (payload_len h) \<le> length item_slice then Some (take (unat (payload_len h)) item_slice)
                 else None)"

text \<open>\<open>copy_from_slice\<close> of the encoded header onto the heap.\<close>

definition write_header :: "ItemCodec \<Rightarrow> nat \<Rightarrow> ItemHeader \<Rightarrow> bytes \<Rightarrow> bytes" where
  "write_header c f h hp = take f hp @ ic_encode c h @ drop (f + length (ic_encode c h)) hp"

definition skip_first :: "ItemCodec \<Rightarrow> bool \<Rightarrow> Page \<Rightarrow> Page" where
  "skip_first c processed self =
     (let f = min (unat (pg_first self)) (length (heap self))
      in case ic_decode c (drop f (heap self)) of None \<Rightarrow> self
         | Some (h, _) \<Rightarrow>
           (let self = (if processed \<and> \<not> is_processed h
              then self\<lparr>heap := write_header c f (h\<lparr>is_processed := True\<rparr>) (heap self),
                remaining := saturating_dec (remaining self),
                pg_remaining_size := saturating_sub (pg_remaining_size self) (payload_len h)\<rparr>
              else self)
            in self\<lparr>pg_first := saturating_add
                 (saturating_add (pg_first self) (saturated_from (ic_max_encoded_len c))) (payload_len h),
               first_index := saturating_inc (first_index self)\<rparr>))"

text \<open>The loop of \<open>peek_index\<close> over the items before the wanted one.\<close>

fun peek_from :: "ItemCodec \<Rightarrow> nat \<Rightarrow> nat \<Rightarrow> bytes \<Rightarrow> (nat \<times> bool \<times> bytes) option" where
  "peek_from c 0 pos item_slice = (case ic_decode c item_slice of None \<Rightarrow> None
     | Some (h, rest) \<Rightarrow> if length rest < unat (payload_len h) then None
         else Some (pos, is_processed h, take (unat (payload_len h)) rest))"
| "peek_from c (Suc i) pos item_slice = (case ic_decode c item_slice of None \<Rightarrow> None
     | Some (h, rest) \<Rightarrow> if length rest < unat (payload_len h) then None
         else peek_from c i (pos + (ic_max_encoded_len c + unat (payload_len h)))
           (drop (unat (payload_len h)) rest))"

definition peek_index :: "ItemCodec \<Rightarrow> nat \<Rightarrow> Page \<Rightarrow> (nat \<times> bool \<times> bytes) option" where
  "peek_index c index self = peek_from c index 0 (heap self)"

definition note_processed_at_pos :: "ItemCodec \<Rightarrow> nat \<Rightarrow> Page \<Rightarrow> Page" where
  "note_processed_at_pos c pos self = (case ic_decode c (drop pos (heap self)) of None \<Rightarrow> self
     | Some (h, _) \<Rightarrow> if \<not> is_processed h
         then self\<lparr>heap := write_header c pos (h\<lparr>is_processed := True\<rparr>) (heap self),
           remaining := saturating_dec (remaining self),
           pg_remaining_size := saturating_sub (pg_remaining_size self) (payload_len h)\<rparr>
         else self)"

definition is_complete :: "Page \<Rightarrow> bool" where
  "is_complete self \<longleftrightarrow> remaining self = 0"

text \<open>The maximal length of a message that fits a page.\<close>

definition max_message_len :: "ItemCodec \<Rightarrow> u32 \<Rightarrow> u32" where
  "max_message_len c heap_size = saturating_sub heap_size (of_nat (ic_max_encoded_len c))"

text \<open>The fixed-width encoding of a header: the length in four little-endian bytes, then the flag.\<close>

definition le_byte :: "u32 \<Rightarrow> nat \<Rightarrow> u8" where
  "le_byte w i = word_of_int (uint w div 256 ^ i mod 256)"

definition fixed_encode :: "ItemHeader \<Rightarrow> bytes" where
  "fixed_encode h = [le_byte (payload_len h) 0, le_byte (payload_len h) 1, le_byte (payload_len h) 2,
     le_byte (payload_len h) 3, if is_processed h then 1 else 0]"

fun fixed_decode :: "bytes \<Rightarrow> (ItemHeader \<times> bytes) option" where
  "fixed_decode (a # b # d # e # f # rest) = (if f = 0 \<or> f = 1 then
     Some (\<lparr>payload_len = word_of_int (uint a + 256 * (uint b + 256 * (uint d + 256 * uint e))),
       is_processed = (f = 1)\<rparr>, rest) else None)"
| "fixed_decode _ = None"

definition fixed_codec :: ItemCodec where
  "fixed_codec = \<lparr>ic_encode = fixed_encode, ic_decode = fixed_decode, ic_max_encoded_len = 5\<rparr>"

type_synonym item = "bool \<times> bytes"

section \<open>Operations on a page, one after another\<close>

text \<open>The ways the pallet works on a page: append a message; take the message at the cursor, marking it or
  not; mark a message by its index. The result is what the operation hands out.\<close>

datatype PageOp = PAppend bytes | PTake bool | PMark nat

fun page_op :: "ItemCodec \<Rightarrow> u32 \<Rightarrow> PageOp \<Rightarrow> Page \<Rightarrow> bytes option \<times> Page" where
  "page_op c heap_size (PAppend m) pg = (case try_append_message c heap_size m pg of
     Inl _ \<Rightarrow> (None, pg) | Inr pg' \<Rightarrow> (Some m, pg'))"
| "page_op c heap_size (PTake processed) pg = (case peek_first c pg of
     None \<Rightarrow> (None, pg) | Some m \<Rightarrow> (Some m, skip_first c processed pg))"
| "page_op c heap_size (PMark i) pg = (case peek_index c i pg of
     None \<Rightarrow> (None, pg) | Some (pos, _, m) \<Rightarrow> (Some m, note_processed_at_pos c pos pg))"

fun page_run :: "ItemCodec \<Rightarrow> u32 \<Rightarrow> PageOp list \<Rightarrow> Page \<Rightarrow> bytes option list \<times> Page" where
  "page_run c heap_size [] pg = ([], pg)"
| "page_run c heap_size (op # ops) pg = (let (out, pg') = page_op c heap_size op pg;
     (outs, pg'') = page_run c heap_size ops pg' in (out # outs, pg''))"

text \<open>The same on a bounded list of items with a cursor.\<close>

definition room :: "ItemCodec \<Rightarrow> u32 \<Rightarrow> item list \<Rightarrow> bytes \<Rightarrow> bool" where
  "room c heap_size items m \<longleftrightarrow>
     (\<Sum>(_, x)\<leftarrow>items. ic_max_encoded_len c + length x) + ic_max_encoded_len c + length m \<le> unat heap_size"

fun item_op :: "ItemCodec \<Rightarrow> u32 \<Rightarrow> PageOp \<Rightarrow> item list \<times> nat \<Rightarrow> bytes option \<times> (item list \<times> nat)" where
  "item_op c heap_size (PAppend m) (items, fi) = (if room c heap_size items m
     then (Some m, (items @ [(False, m)], fi)) else (None, (items, fi)))"
| "item_op c heap_size (PTake processed) (items, fi) = (if fi < length items
     then (Some (snd (items ! fi)),
       (if processed then items[fi := (True, snd (items ! fi))] else items, Suc fi)) else (None, (items, fi)))"
| "item_op c heap_size (PMark i) (items, fi) = (if i < length items
     then (Some (snd (items ! i)), (items[i := (True, snd (items ! i))], fi)) else (None, (items, fi)))"

fun item_run :: "ItemCodec \<Rightarrow> u32 \<Rightarrow> PageOp list \<Rightarrow> item list \<times> nat \<Rightarrow> bytes option list \<times> (item list \<times> nat)" where
  "item_run c heap_size [] s = ([], s)"
| "item_run c heap_size (op # ops) s = (let (out, s') = item_op c heap_size op s;
     (outs, s'') = item_run c heap_size ops s' in (out # outs, s''))"

section \<open>What the code relies on in the codec\<close>

locale item_codec =
  fixes c :: ItemCodec
  assumes decode_encode: "ic_decode c (ic_encode c h @ rest) = Some (h, rest)"
    and decode_nil: "ic_decode c [] = None"
    and encode_length: "length (ic_encode c h) = ic_max_encoded_len c"
    and header_len: "0 < ic_max_encoded_len c" "ic_max_encoded_len c < 2 ^ 32"

section \<open>The items of a page\<close>

definition heap_of :: "ItemCodec \<Rightarrow> item list \<Rightarrow> bytes" where
  "heap_of c items = concat (map (\<lambda>(p, m). item_bytes c p m) items)"

definition offset :: "ItemCodec \<Rightarrow> item list \<Rightarrow> nat \<Rightarrow> nat" where
  "offset c items i = length (heap_of c (take i items))"

definition left_of :: "item list \<Rightarrow> item list" where
  "left_of items = filter (\<lambda>(p, _). \<not> p) items"

definition left_size :: "item list \<Rightarrow> nat" where
  "left_size items = sum_list (map (\<lambda>(_, m). length m) (left_of items))"

text \<open>A page holds the given items, of which the first \<open>fi\<close> are behind its cursor.\<close>

definition page_repr :: "ItemCodec \<Rightarrow> u32 \<Rightarrow> item list \<Rightarrow> nat \<Rightarrow> Page \<Rightarrow> bool" where
  "page_repr c heap_size items fi pg \<longleftrightarrow> items \<noteq> [] \<and> fi \<le> length items \<and>
     heap pg = heap_of c items \<and> length (heap pg) \<le> unat heap_size \<and>
     unat (first_index pg) = fi \<and> unat (pg_first pg) = offset c items fi \<and>
     unat (pg_last pg) = offset c items (length items - 1) \<and>
     unat (remaining pg) = length (left_of items) \<and> unat (pg_remaining_size pg) = left_size items"

lemma heap_of_simps [simp]:
  "heap_of c [] = []" "heap_of c (x # xs) = item_bytes c (fst x) (snd x) @ heap_of c xs"
  "heap_of c (xs @ ys) = heap_of c xs @ heap_of c ys"
  by (simp_all add: heap_of_def case_prod_unfold)

lemma left_simps [simp]:
  "left_of [] = []" "left_of (x # xs) = (if fst x then left_of xs else x # left_of xs)"
  "left_of (xs @ ys) = left_of xs @ left_of ys"
  "left_size [] = 0" "left_size (x # xs) = (if fst x then left_size xs else length (snd x) + left_size xs)"
  "left_size (xs @ ys) = left_size xs + left_size ys"
  by (auto simp: left_of_def left_size_def case_prod_unfold)

lemma saturated_from_exact: "n < 2 ^ 32 \<Longrightarrow> unat (saturated_from n :: u32) = n"
  by (simp add: saturated_from_def unat_of_nat)

lemma heap_split:
  assumes "i < length items"
  shows "heap_of c items = heap_of c (take i items) @ item_bytes c (fst (items ! i)) (snd (items ! i)) @
    heap_of c (drop (Suc i) items)"
  using arg_cong[OF id_take_nth_drop[OF assms], of "heap_of c"] by simp

lemma offset_drop: "i \<le> length items \<Longrightarrow> drop (offset c items i) (heap_of c items) = heap_of c (drop i items)"
  using arg_cong[OF append_take_drop_id[of i items], of "heap_of c"]
  unfolding offset_def heap_of_simps(3) by (metis append_eq_conv_conj)

lemma left_upd:
  assumes "i < length items"
  shows "length (left_of (items[i := (True, m)])) = length (left_of items) - (if fst (items ! i) then 0 else 1)"
    "left_size (items[i := (True, m)]) = left_size items - (if fst (items ! i) then 0 else length (snd (items ! i)))"
    "\<not> fst (items ! i) \<Longrightarrow> length (left_of items) > 0 \<and> length (snd (items ! i)) \<le> left_size items"
proof -
  have split: "items = take i items @ (items ! i) # drop (Suc i) items"
    using assms by (rule id_take_nth_drop)
  have upd: "items[i := (True, m)] = take i items @ (True, m) # drop (Suc i) items"
    using assms by (rule upd_conv_take_nth_drop)
  have l: "length (left_of items) = length (left_of (take i items)) + (if fst (items ! i) then 0 else 1) +
      length (left_of (drop (Suc i) items))"
    using arg_cong[OF split, of "\<lambda>l. length (left_of l)"] by simp
  have s: "left_size items = left_size (take i items) + (if fst (items ! i) then 0 else length (snd (items ! i))) +
      left_size (drop (Suc i) items)"
    using arg_cong[OF split, of left_size] by simp
  show "length (left_of (items[i := (True, m)])) = length (left_of items) - (if fst (items ! i) then 0 else 1)"
    "left_size (items[i := (True, m)]) = left_size items - (if fst (items ! i) then 0 else length (snd (items ! i)))"
    "\<not> fst (items ! i) \<Longrightarrow> length (left_of items) > 0 \<and> length (snd (items ! i)) \<le> left_size items"
    by (simp_all add: upd l s)
qed


context item_codec
begin

lemma item_bytes_length [simp]: "length (item_bytes c p m) = ic_max_encoded_len c + length m"
  by (simp add: item_bytes_def encode_length)

lemma decode_item [simp]: "ic_decode c (item_bytes c p m @ rest) =
    Some (\<lparr>payload_len = saturated_from (length m), is_processed = p\<rparr>, m @ rest)"
  by (simp add: item_bytes_def decode_encode)

lemma heap_length: "length (heap_of c items) = sum_list (map (\<lambda>x. ic_max_encoded_len c + length (snd x)) items)"
  by (induction items) auto

lemma offset_sum: "offset c items i = sum_list (take i (map (\<lambda>x. ic_max_encoded_len c + length (snd x)) items))"
  by (simp add: offset_def heap_length take_map)

lemma offset_Suc: "i < length items \<Longrightarrow>
    offset c items (Suc i) = offset c items i + ic_max_encoded_len c + length (snd (items ! i))"
  by (simp add: offset_sum take_Suc_conv_app_nth)

lemma offset_upd: "offset c (items[i := (p, snd (items ! i))]) j = offset c items j"
proof (cases "i < length items")
  case True
  then have "map f (items[i := (p, snd (items ! i))]) = map f items"
    if "\<And>a b. f (a, b) = f (fst (items ! i), b)" for f :: "item \<Rightarrow> nat"
    by (simp add: map_update that) (metis list_update_id nth_map prod.collapse that)
  then show ?thesis by (simp add: offset_sum)
qed (simp add: list_update_beyond)

lemma offset_mono: "i \<le> j \<Longrightarrow> offset c items i \<le> offset c items j"
  by (metis offset_def heap_of_simps(3) le_add1 length_append le_Suc_ex take_add)

lemma offset_le: "offset c items i \<le> length (heap_of c items)"
  by (metis append_take_drop_id heap_of_simps(3) le_add1 length_append offset_def)

lemma offset_length: "offset c items (length items) = length (heap_of c items)"
  by (simp add: offset_def)

lemma offset_append: "i \<le> length xs \<Longrightarrow> offset c (xs @ ys) i = offset c xs i"
  by (simp add: offset_def)

lemma items_le_heap: "length items \<le> length (heap_of c items)"
  using header_len(1) by (induction items) auto

lemma left_le: "length (left_of items) \<le> length items" "left_size items \<le> length (heap_of c items)"
  by (induction items) auto

lemma item_le_heap: "i < length items \<Longrightarrow> length (snd (items ! i)) \<le> length (heap_of c items)"
  using heap_split[of i items c] by simp

lemma heap_upd:
  assumes "i < length items" "payload_len h = saturated_from (length (snd (items ! i)))"
  shows "write_header c (offset c items i) h (heap_of c items) =
    heap_of c (items[i := (is_processed h, snd (items ! i))])"
proof -
  have h: "h = \<lparr>payload_len = saturated_from (length (snd (items ! i))), is_processed = is_processed h\<rparr>"
    by (cases h) (use assms in simp)
  have "take (offset c items i) (heap_of c items) = heap_of c (take i items)"
    "drop (offset c items i + ic_max_encoded_len c) (heap_of c items) =
       snd (items ! i) @ heap_of c (drop (Suc i) items)"
    using heap_split[OF assms(1), of c] by (simp_all add: offset_def item_bytes_def encode_length)
  then show ?thesis
    by (simp add: write_header_def encode_length upd_conv_take_nth_drop[OF assms(1)] item_bytes_def flip: h)
qed

lemma repr_bounds:
  assumes "page_repr c heap_size items fi pg"
  shows "length (heap_of c items) < 2 ^ 32" "length items < 2 ^ 32" "length (left_of items) < 2 ^ 32"
    "left_size items < 2 ^ 32" "i < length items \<Longrightarrow> length (snd (items ! i)) < 2 ^ 32"
proof -
  show h: "length (heap_of c items) < 2 ^ 32"
    using assms unat_bound[of heap_size] by (auto simp: page_repr_def)
  show "length items < 2 ^ 32" "length (left_of items) < 2 ^ 32" "left_size items < 2 ^ 32"
    "i < length items \<Longrightarrow> length (snd (items ! i)) < 2 ^ 32"
    using h items_le_heap[of items] left_le[of items] item_le_heap[of i items] by linarith+
qed

lemma from_message_repr:
  assumes "ic_max_encoded_len c + length m \<le> unat heap_size"
  shows "page_repr c heap_size [(False, m)] 0 (from_message c heap_size m)"
proof -
  have "length m < 2 ^ 32" using assms unat_bound[of heap_size] by simp
  then show ?thesis
    using assms by (simp add: page_repr_def from_message_def defensive_truncate_def offset_def saturated_from_exact)
qed

lemma try_append_repr:
  assumes r: "page_repr c heap_size items fi pg"
  shows "length (heap_of c items) + ic_max_encoded_len c + length m \<le> unat heap_size \<Longrightarrow>
      \<exists>pg'. try_append_message c heap_size m pg = Inr pg' \<and> page_repr c heap_size (items @ [(False, m)]) fi pg'"
    and "unat heap_size < length (heap_of c items) + ic_max_encoded_len c + length m \<Longrightarrow>
      try_append_message c heap_size m pg = Inl ()"
proof -
  note b = repr_bounds[OF r] and le = left_le[of items] and u = unat_bound[of heap_size]
  have hp: "heap pg = heap_of c items" "length (heap_of c items) \<le> unat heap_size"
    using r by (auto simp: page_repr_def)
  show "try_append_message c heap_size m pg = Inl ()"
    if "unat heap_size < length (heap_of c items) + ic_max_encoded_len c + length m"
    using that hp header_len by (auto simp: try_append_message_def)
  assume fit: "length (heap_of c items) + ic_max_encoded_len c + length m \<le> unat heap_size"
  let ?pg = "pg\<lparr>heap := heap_of c items @ item_bytes c False m, pg_last := saturated_from (length (heap_of c items)),
    remaining := saturating_inc (remaining pg),
    pg_remaining_size := saturating_add (pg_remaining_size pg) (saturated_from (length m))\<rparr>"
  have app: "try_append_message c heap_size m pg = Inr ?pg"
    using fit hp by (simp add: try_append_message_def defensive_truncate_def Let_def)
  have bounds: "length m < 2 ^ 32" "Suc (length (left_of items)) < 2 ^ 32" "left_size items + length m < 2 ^ 32"
    using fit u le items_le_heap[of items] header_len(1) by (auto simp: Suc_le_eq)
  have "page_repr c heap_size (items @ [(False, m)]) fi ?pg"
    using r fit bounds b(1) by (auto simp: page_repr_def offset_append offset_length saturated_from_exact
        unat_saturating_inc unat_saturating_add)
  with app show "\<exists>pg'. try_append_message c heap_size m pg = Inr pg' \<and>
      page_repr c heap_size (items @ [(False, m)]) fi pg'" by blast
qed

lemma peek_first_repr:
  assumes r: "page_repr c heap_size items fi pg"
  shows "peek_first c pg = (if fi < length items then Some (snd (items ! fi)) else None)"
proof (cases "fi < length items")
  case True
  have pos: "unat (pg_first pg) = offset c items fi" "heap pg = heap_of c items"
    "unat (pg_last pg) = offset c items (length items - 1)" using r by (auto simp: page_repr_def)
  have "offset c items fi \<le> offset c items (length items - 1)" using True by (intro offset_mono) simp
  moreover have "drop (offset c items fi) (heap_of c items) =
      item_bytes c (fst (items ! fi)) (snd (items ! fi)) @ heap_of c (drop (Suc fi) items)"
    using True by (simp add: offset_drop flip: Cons_nth_drop_Suc)
  ultimately show ?thesis
    using True pos offset_le[of items fi] repr_bounds(5)[OF r True]
    by (simp add: peek_first_def word_less_nat_alt saturated_from_exact min_absorb1 Let_def)
next
  case False
  then have "offset c items fi = offset c items (Suc (length items - 1))" "items \<noteq> []"
    using r by (auto simp: page_repr_def)
  then have "offset c items (length items - 1) < offset c items fi"
    using header_len offset_Suc[of "length items - 1" items] by simp
  with r False show ?thesis
    by (simp add: peek_first_def page_repr_def word_less_nat_alt)
qed

lemma decode_at:
  assumes "i < length items"
  shows "ic_decode c (drop (offset c items i) (heap_of c items)) = Some
      (\<lparr>payload_len = saturated_from (length (snd (items ! i))), is_processed = fst (items ! i)\<rparr>,
       snd (items ! i) @ heap_of c (drop (Suc i) items))"
  using assms by (simp add: offset_drop flip: Cons_nth_drop_Suc)

lemma peek_beyond:
  assumes "\<And>j. j < length items \<Longrightarrow> length (snd (items ! j)) < 2 ^ 32" "length items \<le> i"
  shows "peek_from c i pos (heap_of c items) = None"
  using assms
proof (induction items arbitrary: i pos)
  case Nil
  then show ?case by (cases i) (simp_all add: decode_nil)
next
  case (Cons x xs)
  then obtain k where i: "i = Suc k" by (cases i) auto
  have "peek_from c k pos' (heap_of c xs) = None" for pos'
    using Cons.prems(1)[of "Suc _"] Cons.prems(2) by (intro Cons.IH) (auto simp: i)
  with Cons.prems(1)[of 0] show ?case by (simp add: i saturated_from_exact)
qed

lemma note_processed_repr:
  assumes r: "page_repr c heap_size items fi pg" and i: "i < length items"
  shows "page_repr c heap_size (items[i := (True, snd (items ! i))]) fi
    (note_processed_at_pos c (offset c items i) pg)"
proof -
  have pos: "heap pg = heap_of c items" using r by (auto simp: page_repr_def)
  have upd: "items[i := (True, snd (items ! i))] = items" if "fst (items ! i)"
    using that i by (metis list_update_id prod.collapse)
  have len: "length (heap_of c (items[i := (True, snd (items ! i))])) = length (heap_of c items)"
    using offset_upd[of items i True "length items"] offset_length[of items]
      offset_length[of "items[i := (True, snd (items ! i))]"] by simp
  show ?thesis
    using r i left_upd[OF i] repr_bounds(5)[OF r i] upd len
    by (cases "fst (items ! i)") (auto simp: note_processed_at_pos_def pos decode_at[OF i] heap_upd page_repr_def offset_upd
        unat_saturating_dec unat_saturating_sub saturated_from_exact)
qed

lemma skip_first_note:
  assumes "page_repr c heap_size items fi pg" "fi < length items"
  shows "skip_first c p pg = (let pg' = (if p then note_processed_at_pos c (offset c items fi) pg else pg)
    in pg'\<lparr>pg_first := saturating_add (saturating_add (pg_first pg) (saturated_from (ic_max_encoded_len c)))
         (saturated_from (length (snd (items ! fi)))), first_index := saturating_inc (first_index pg)\<rparr>)"
  using assms decode_at[OF assms(2)] offset_le[of items fi]
  by (simp add: skip_first_def note_processed_at_pos_def page_repr_def min_absorb1 Let_def)

lemma skip_first_repr:
  assumes r: "page_repr c heap_size items fi pg" and fi: "fi < length items"
  shows "page_repr c heap_size (if p then items[fi := (True, snd (items ! fi))] else items) (Suc fi)
    (skip_first c p pg)"
proof -
  note b = repr_bounds[OF r]
  have pos: "unat (pg_first pg) = offset c items fi" using r by (auto simp: page_repr_def)
  have next_pos: "offset c items (Suc fi) < 2 ^ 32" "Suc fi < 2 ^ 32"
    using offset_le[of items "Suc fi"] b(1,2) fi by linarith+
  have moved: "unat (saturating_add (saturating_add (pg_first pg) (saturated_from (ic_max_encoded_len c)))
      (saturated_from (length (snd (items ! fi))))) = offset c items (Suc fi)"
    using next_pos(1) offset_Suc[OF fi] b(5)[OF fi] header_len(2) pos
    by (simp add: unat_saturating_add saturated_from_exact)
  have idx: "unat (saturating_inc (first_index pg)) = Suc fi"
    using next_pos(2) r by (auto simp: page_repr_def unat_saturating_inc)
  have step: "page_repr c heap_size its (Suc fi) (pg'\<lparr>pg_first := f, first_index := k\<rparr>)"
    if "page_repr c heap_size its fi pg'" "length its = length items" "unat f = offset c its (Suc fi)"
      "unat k = Suc fi" for its pg' f k
    using that fi by (auto simp: page_repr_def)
  show ?thesis
    unfolding skip_first_note[OF r fi] Let_def
    using step[OF _ _ _ idx] note_processed_repr[OF r fi] r moved by (simp add: offset_upd)
qed

lemma peek_from_repr:
  assumes "\<And>j. j < length items \<Longrightarrow> length (snd (items ! j)) < 2 ^ 32" "i < length items"
  shows "peek_from c i pos (heap_of c items) = Some (pos + offset c items i, items ! i)"
  using assms
proof (induction i arbitrary: items pos)
  case 0
  then obtain x xs where "items = x # xs" by (cases items) auto
  with 0(1)[of 0] show ?case by (simp add: offset_def saturated_from_exact)
next
  case (Suc i)
  then obtain x xs where items: "items = x # xs" by (cases items) auto
  have "length (snd (xs ! j)) < 2 ^ 32" if "j < length xs" for j using Suc(2)[of "Suc j"] that items by simp
  then have "peek_from c i pos' (heap_of c xs) = Some (pos' + offset c xs i, xs ! i)" for pos'
    using Suc.IH[of xs pos'] Suc(3) items by simp
  with Suc(2)[of 0] show ?case by (simp add: items offset_def saturated_from_exact)
qed

lemma peek_index_repr:
  assumes "page_repr c heap_size items fi pg" "i < length items"
  shows "peek_index c i pg = Some (offset c items i, items ! i)"
  using peek_from_repr[OF repr_bounds(5)[OF assms(1)] assms(2), of 0] assms(1)
  by (simp add: peek_index_def page_repr_def)

lemma peek_index_Some:
  assumes "page_repr c heap_size items fi pg" "peek_index c i pg = Some (pos, p, m)"
  shows "i < length items" "pos = offset c items i" "items ! i = (p, m)"
proof -
  show i: "i < length items"
    using peek_beyond[OF repr_bounds(5)[OF assms(1)], of i 0] assms by (force simp: peek_index_def page_repr_def)
  show "pos = offset c items i" "items ! i = (p, m)" using peek_index_repr[OF assms(1) i] assms(2) by auto
qed

lemma is_complete_repr:
  "page_repr c heap_size items fi pg \<Longrightarrow> is_complete pg \<longleftrightarrow> (\<forall>x\<in>set items. fst x)"
  by (auto simp: page_repr_def is_complete_def left_of_def filter_empty_conv simp flip: unat_eq_zero)

lemma page_op_refines:
  assumes r: "page_repr c heap_size items fi pg"
    and op: "item_op c heap_size op (items, fi) = (out, (items', fi'))"
  obtains pg' where "page_op c heap_size op pg = (out, pg')" "page_repr c heap_size items' fi' pg'"
proof (cases op)
  case (PAppend m)
  have "room c heap_size items m \<longleftrightarrow>
      length (heap_of c items) + ic_max_encoded_len c + length m \<le> unat heap_size"
    by (simp add: room_def heap_length case_prod_unfold)
  with try_append_repr[OF r, of m] op r show ?thesis
    by (cases "room c heap_size items m") (auto simp: PAppend intro: that)
next
  case (PTake p)
  show ?thesis
  proof (cases "fi < length items")
    case True
    show ?thesis
      by (rule that[of "skip_first c p pg"])
        (use op PTake True peek_first_repr[OF r] skip_first_repr[OF r True, of p] in
          \<open>auto split: option.splits\<close>)
  qed (use op r PTake peek_first_repr[OF r] that in auto)
next
  case (PMark i)
  show ?thesis
  proof (cases "i < length items")
    case True
    show ?thesis
      by (rule that[of "note_processed_at_pos c (offset c items i) pg"])
        (use op True peek_index_repr[OF r True] note_processed_repr[OF r True] in
          \<open>auto simp: PMark case_prod_unfold\<close>)
  next
    case False
    then have "peek_index c i pg = None" using peek_index_Some(1)[OF r] by (cases "peek_index c i pg") auto
    with op r False that show ?thesis by (auto simp: PMark)
  qed
qed

lemma page_run_refines:
  "page_repr c heap_size items fi pg \<Longrightarrow> item_run c heap_size ops (items, fi) = (outs, (items', fi')) \<Longrightarrow>
    \<exists>pg'. page_run c heap_size ops pg = (outs, pg') \<and> page_repr c heap_size items' fi' pg'"
proof (induction ops arbitrary: items fi pg outs)
  case (Cons op ops)
  obtain out i1 f1 where op: "item_op c heap_size op (items, fi) = (out, (i1, f1))"
    using prod_cases3 by blast
  obtain outs1 where run: "item_run c heap_size ops (i1, f1) = (outs1, (items', fi'))" "outs = out # outs1"
    using Cons.prems(2) op by (auto split: prod.splits)
  obtain pg1 where "page_op c heap_size op pg = (out, pg1)" "page_repr c heap_size i1 f1 pg1"
    by (rule page_op_refines[OF Cons.prems(1) op])
  with Cons.IH[OF this(2) run(1)] run(2) show ?case by auto
qed auto

end

section \<open>The fixed-width encoding satisfies the laws\<close>

lemma le_bytes_roundtrip:
  "uint (le_byte w 0) + 256 * (uint (le_byte w 1) + 256 * (uint (le_byte w 2) + 256 * uint (le_byte w 3))) = uint w"
proof -
  define n where "n = uint w"
  have n: "0 \<le> n" "n < 4294967296" using uint_bounded[of w] by (simp_all add: n_def)
  have b: "uint (le_byte w i) = n div 256 ^ i mod 256" for i
    by (simp add: le_byte_def n_def uint_word_of_int)
  have "n div 16777216 mod 256 = n div 16777216" using n by (simp add: mod_pos_pos_trivial)
  moreover have "n div 256 div 256 = n div 65536" "n div 65536 div 256 = n div 16777216"
    by (simp_all flip: zdiv_zmult2_eq)
  ultimately show ?thesis
    using mult_div_mod_eq[of 256 n] mult_div_mod_eq[of 256 "n div 256"] mult_div_mod_eq[of 256 "n div 65536"]
    unfolding b n_def[symmetric] by (simp del: mult_div_mod_eq) presburger
qed

interpretation fixed: item_codec fixed_codec
proof
  fix h :: ItemHeader and rest :: bytes
  show "ic_decode fixed_codec (ic_encode fixed_codec h @ rest) = Some (h, rest)"
    using le_bytes_roundtrip[of "payload_len h"] by (simp add: fixed_codec_def fixed_encode_def)
qed (simp_all add: fixed_codec_def fixed_encode_def)

section \<open>Properties\<close>

text \<open>C16: A page that starts with one message and then sees any sequence of appends, takes at its cursor and
  markings by index, in front of the cursor or behind it, hands out exactly what a bounded list of messages with a cursor hands out, and still
  represents that list (its heap, counters and cursor included). In particular messages leave a page in the
  order they entered it, each as it was.\<close>

theorem page_runs_as_list:
  assumes "item_codec c" "ic_max_encoded_len c + length m \<le> unat heap_size"
    and "item_run c heap_size ops ([(False, m)], 0) = (outs, (items, fi))"
  shows "\<exists>pg. page_run c heap_size ops (from_message c heap_size m) = (outs, pg) \<and>
    page_repr c heap_size items fi pg"
  using item_codec.page_run_refines[OF assms(1) item_codec.from_message_repr[OF assms(1,2)] assms(3)] .

theorem page_runs_as_list_witness:
  "item_codec fixed_codec \<and>
   item_run fixed_codec 18 [PAppend [7, 8], PAppend [9], PMark 1, PTake True, PTake True, PTake True] ([(False, [1])], 0)
     = ([Some [7, 8], None, Some [7, 8], Some [1], Some [7, 8], None], ([(True, [1]), (True, [7, 8])], 2)) \<and>
   (\<exists>pg. page_run fixed_codec 18 [PAppend [7, 8], PAppend [9], PMark 1, PTake True, PTake True, PTake True]
       (from_message fixed_codec 18 [1]) = ([Some [7, 8], None, Some [7, 8], Some [1], Some [7, 8], None], pg) \<and>
     page_repr fixed_codec 18 [(True, [1]), (True, [7, 8])] 2 pg)"
proof -
  have run: "item_run fixed_codec 18 [PAppend [7, 8], PAppend [9], PMark 1, PTake True, PTake True, PTake True]
      ([(False, [1])], 0)
     = ([Some [7, 8], None, Some [7, 8], Some [1], Some [7, 8], None], ([(True, [1]), (True, [7, 8])], 2))"
    by code_simp
  have fits: "ic_max_encoded_len fixed_codec + length [1 :: u8] \<le> unat (18 :: u32)"
    by (simp add: fixed_codec_def)
  show ?thesis
    using run page_runs_as_list[OF fixed.item_codec_axioms fits run] fixed.item_codec_axioms by blast
qed

end
