(* ===== verification/MQ_Ring.thy ===== *)
theory MQ_Ring
  imports MQ_Page
begin

text \<open>
  The storage of the message queue pallet and its ready ring
  (\<open>substrate/frame/message-queue/src/lib.rs\<close>): the books of the queues, the head of the ring, the pages,
  and the three operations on the doubly linked ring of the queues that have ready pages. The ring is
  shown to be a cyclic list: \<open>ready_ring_knit\<close> appends to it, \<open>ready_ring_unknit\<close> deletes from it and
  \<open>bump_service_head\<close> rotates it.
\<close>

section \<open>Storage\<close>

record 'o Neighbours =
  nb_prev :: 'o
  nb_next :: 'o

record 'o BookState =
  bk_begin :: u32
  bk_end :: u32
  bk_count :: u32
  ready_neighbours :: "'o Neighbours option"
  message_count :: u64
  bk_size :: u64

definition default_book :: "'o BookState" where
  "default_book = \<lparr>bk_begin = 0, bk_end = 0, bk_count = 0, ready_neighbours = None,
     message_count = 0, bk_size = 0\<rparr>"

record QueueFootprint =
  fp_pages :: u32
  fp_ready_pages :: u32
  fp_count :: u64
  fp_size :: u64

definition footprint_of :: "'o BookState \<Rightarrow> QueueFootprint" where
  "footprint_of book = \<lparr>fp_pages = bk_count book, fp_ready_pages = saturating_sub (bk_end book) (bk_begin book),
     fp_count = message_count book, fp_size = bk_size book\<rparr>"

datatype ProcessMessageError =
  BadFormat | Corrupt | Unsupported | Overweight_error Weight | Yield | StackLimit_error

datatype 'o Event =
    ProcessingFailed bytes 'o ProcessMessageError
  | Processed_event bytes 'o Weight bool
  | OverweightEnqueued bytes 'o u32 u32
  | PageReaped 'o u32

text \<open>The pallet's storage, the token of the service mutex, the events, and the rest of the chain's state.\<close>

record ('o, 'x) mq =
  books :: "'o \<Rightarrow> 'o BookState option"
  service_head :: "'o option"
  pages :: "'o \<times> u32 \<Rightarrow> Page option"
  mutex_held :: bool
  events :: "'o Event list"
  env :: 'x

definition get_book :: "('o, 'x) mq \<Rightarrow> 'o \<Rightarrow> 'o BookState" where
  "get_book st o' = (case books st o' of Some b \<Rightarrow> b | None \<Rightarrow> default_book)"

definition put_book :: "'o \<Rightarrow> 'o BookState \<Rightarrow> ('o, 'x) mq \<Rightarrow> ('o, 'x) mq" where
  "put_book o' b st = st\<lparr>books := (books st)(o' \<mapsto> b)\<rparr>"

definition put_page :: "'o \<Rightarrow> u32 \<Rightarrow> Page \<Rightarrow> ('o, 'x) mq \<Rightarrow> ('o, 'x) mq" where
  "put_page o' i p st = st\<lparr>pages := (pages st)((o', i) \<mapsto> p)\<rparr>"

definition remove_page :: "'o \<Rightarrow> u32 \<Rightarrow> ('o, 'x) mq \<Rightarrow> ('o, 'x) mq" where
  "remove_page o' i st = st\<lparr>pages := (pages st)((o', i) := None)\<rparr>"

definition deposit_event :: "'o Event \<Rightarrow> ('o, 'x) mq \<Rightarrow> ('o, 'x) mq" where
  "deposit_event e st = st\<lparr>events := events st @ [e]\<rparr>"

section \<open>The ready ring\<close>

text \<open>An \<open>Err\<close> leaves behind what was written before it, as the early return does.\<close>

definition ready_ring_knit :: "'o \<Rightarrow> ('o, 'x) mq \<Rightarrow> (unit, 'o Neighbours) result \<times> ('o, 'x) mq" where
  "ready_ring_knit origin st = (case service_head st of
     Some head \<Rightarrow>
       (let head_book = get_book st head in case ready_neighbours head_book of None \<Rightarrow> (Inl (), st)
        | Some head_nb \<Rightarrow>
          (let tail = nb_prev head_nb;
               st = put_book head (head_book\<lparr>ready_neighbours := Some (head_nb\<lparr>nb_prev := origin\<rparr>)\<rparr>) st;
               tail_book = get_book st tail
           in case ready_neighbours tail_book of None \<Rightarrow> (Inl (), st)
              | Some tail_nb \<Rightarrow>
                 (Inr \<lparr>nb_prev = tail, nb_next = head\<rparr>,
                  put_book tail (tail_book\<lparr>ready_neighbours := Some (tail_nb\<lparr>nb_next := origin\<rparr>)\<rparr>) st)))
   | None \<Rightarrow> (Inr \<lparr>nb_prev = origin, nb_next = origin\<rparr>, st\<lparr>service_head := Some origin\<rparr>))"

text \<open>\<open>BookStateFor::mutate\<close> of the neighbours, where there are some.\<close>

definition mutate_neighbours :: "'o \<Rightarrow> ('o Neighbours \<Rightarrow> 'o Neighbours) \<Rightarrow> ('o, 'x) mq \<Rightarrow> ('o, 'x) mq" where
  "mutate_neighbours o' f st = (let b = get_book st o'
     in put_book o' (b\<lparr>ready_neighbours := map_option f (ready_neighbours b)\<rparr>) st)"

definition ready_ring_unknit :: "'o \<Rightarrow> 'o Neighbours \<Rightarrow> ('o, 'x) mq \<Rightarrow> ('o, 'x) mq" where
  "ready_ring_unknit origin nb st =
     (if origin = nb_next nb then st\<lparr>service_head := None\<rparr>
      else let st = mutate_neighbours (nb_next nb) (\<lambda>n. n\<lparr>nb_prev := nb_prev nb\<rparr>) st;
               st = mutate_neighbours (nb_prev nb) (\<lambda>n. n\<lparr>nb_next := nb_next nb\<rparr>) st
           in case service_head st of
                Some head \<Rightarrow> if head = origin then st\<lparr>service_head := Some (nb_next nb)\<rparr> else st
              | None \<Rightarrow> st)"

definition bump_service_head ::
  "Weight \<Rightarrow> WeightMeter \<Rightarrow> ('o, 'x) mq \<Rightarrow> 'o option \<times> WeightMeter \<times> ('o, 'x) mq" where
  "bump_service_head w weight st = (case try_consume weight w of Inl _ \<Rightarrow> (None, weight, st)
     | Inr weight \<Rightarrow> (case service_head st of None \<Rightarrow> (None, weight, st)
        | Some head \<Rightarrow> (case ready_neighbours (get_book st head) of
             Some nb \<Rightarrow> (Some head, weight, st\<lparr>service_head := Some (nb_next nb)\<rparr>)
           | None \<Rightarrow> (None, weight, st))))"

section \<open>Reading and writing the storage\<close>

lemma get_put_book [simp]: "get_book (put_book a b st) a' = (if a' = a then b else get_book st a')"
  by (simp add: get_book_def put_book_def)

lemma get_book_frame [simp]:
  "get_book (put_page o' i p st) a = get_book st a" "get_book (remove_page o' i st) a = get_book st a"
  "get_book (deposit_event e st) a = get_book st a" "get_book (st\<lparr>service_head := h\<rparr>) a = get_book st a"
  "get_book (st\<lparr>env := x\<rparr>) a = get_book st a" "get_book (st\<lparr>mutex_held := t\<rparr>) a = get_book st a"
  "get_book (st\<lparr>pages := ps\<rparr>) a = get_book st a" "get_book (st\<lparr>events := es\<rparr>) a = get_book st a"
  by (simp_all add: get_book_def put_page_def remove_page_def deposit_event_def)

lemma pages_frame [simp]:
  "pages (put_book a b st) = pages st" "pages (deposit_event e st) = pages st"
  "pages (put_page o' i p st) = (pages st)((o', i) \<mapsto> p)"
  "pages (remove_page o' i st) = (pages st)((o', i) := None)"
  by (simp_all add: put_book_def put_page_def remove_page_def deposit_event_def)

lemma head_frame [simp]:
  "service_head (put_book a b st) = service_head st" "service_head (deposit_event e st) = service_head st"
  "service_head (put_page o' i p st) = service_head st" "service_head (remove_page o' i st) = service_head st"
  by (simp_all add: put_book_def put_page_def remove_page_def deposit_event_def)

lemma env_frame [simp]:
  "env (put_book a b st) = env st" "env (deposit_event e st) = env st"
  "env (put_page o' i p st) = env st" "env (remove_page o' i st) = env st"
  "mutex_held (put_book a b st) = mutex_held st" "mutex_held (deposit_event e st) = mutex_held st"
  "mutex_held (put_page o' i p st) = mutex_held st" "mutex_held (remove_page o' i st) = mutex_held st"
  by (simp_all add: put_book_def put_page_def remove_page_def deposit_event_def)

definition neighbours_of :: "('o, 'x) mq \<Rightarrow> 'o \<Rightarrow> 'o Neighbours option" where
  "neighbours_of st o' = ready_neighbours (get_book st o')"

lemma neighbours_head [simp]: "neighbours_of (st\<lparr>service_head := h\<rparr>) = neighbours_of st"
  by (rule ext) (simp add: neighbours_of_def)

lemma neighbours_put: "neighbours_of (put_book a b st) = (neighbours_of st)(a := ready_neighbours b)"
  by (rule ext) (simp add: neighbours_of_def)

section \<open>The ring as a cyclic list\<close>

text \<open>The links of a cyclic list: every element's neighbours are the ones before and after it.\<close>

definition linked :: "'o list \<Rightarrow> ('o \<Rightarrow> 'o Neighbours option) \<Rightarrow> bool" where
  "linked r nb \<longleftrightarrow> distinct r \<and> (\<forall>a. a \<notin> set r \<longrightarrow> nb a = None) \<and>
     (\<forall>xs a ys. r = xs @ a # ys \<longrightarrow>
        nb a = Some \<lparr>nb_prev = last (a # ys @ xs), nb_next = hd (ys @ xs @ [a])\<rparr>)"

definition ring :: "('o, 'x) mq \<Rightarrow> 'o list \<Rightarrow> bool" where
  "ring st r \<longleftrightarrow> linked r (neighbours_of st) \<and> service_head st = (case r of [] \<Rightarrow> None | a # _ \<Rightarrow> Some a)"

lemma linkedD: "linked (xs @ a # ys) nb \<Longrightarrow>
    nb a = Some \<lparr>nb_prev = last (a # ys @ xs), nb_next = hd (ys @ xs @ [a])\<rparr>"
  unfolding linked_def by blast

lemma linked_outside: "linked r nb \<Longrightarrow> a \<notin> set r \<Longrightarrow> nb a = None"
  by (simp add: linked_def)

lemma linked_inside: "linked r nb \<Longrightarrow> nb a = None \<longleftrightarrow> a \<notin> set r"
  by (metis linked_def linkedD option.distinct(1) split_list)

lemma linked_distinct: "linked r nb \<Longrightarrow> distinct r"
  by (simp add: linked_def)

lemma linked_rotate: "linked (xs @ ys) nb \<Longrightarrow> linked (ys @ xs) nb"
proof -
  assume l: "linked (xs @ ys) nb"
  have "nb a = Some \<lparr>nb_prev = last (a # bs @ as), nb_next = hd (bs @ as @ [a])\<rparr>"
    if "ys @ xs = as @ a # bs" for as a bs
  proof -
    from that consider c where "ys = as @ a # c" "bs = c @ xs" | c where "as = ys @ c" "xs = c @ a # bs"
      by (auto simp: append_eq_append_conv2 append_eq_Cons_conv Cons_eq_append_conv)
    then show ?thesis
      using l by cases (use linkedD[of "xs @ as" a _ nb] linkedD[of _ a "bs @ ys" nb] in auto)
  qed
  with l show ?thesis by (auto simp: linked_def)
qed

lemma linked_snoc:
  assumes l: "linked q nb" and q: "q \<noteq> []" and o': "o' \<notin> set q"
  shows "linked (q @ [o']) (\<lambda>a. if a = o' then Some \<lparr>nb_prev = last q, nb_next = hd q\<rparr> else
    map_option (\<lambda>n. \<lparr>nb_prev = (if a = hd q then o' else nb_prev n), nb_next = (if a = last q then o' else nb_next n)\<rparr>)
      (nb a))" (is "linked _ ?nb")
proof -
  have "?nb a = Some \<lparr>nb_prev = last (a # bs @ as), nb_next = hd (bs @ as @ [a])\<rparr>"
    if eq: "q @ [o'] = as @ a # bs" for as a bs
  proof (cases bs rule: rev_cases)
    case Nil
    with eq q show ?thesis by auto
  next
    case (snoc bs' z)
    with eq have q_eq: "q = as @ a # bs'" "z = o'" by auto
    have "a = hd q \<longleftrightarrow> as = []" "a = last q \<longleftrightarrow> bs' = []"
      using linked_distinct[OF l] by (cases as; auto simp: q_eq)+
    with linkedD[OF l[unfolded q_eq]] o' show ?thesis by (auto simp: snoc q_eq hd_append)
  qed
  with l o' show ?thesis by (auto simp: linked_def)
qed

lemma linked_butlast:
  assumes l: "linked (q @ [o']) nb" and q: "q \<noteq> []"
  shows "linked q (\<lambda>a. if a = o' then None else
    map_option (\<lambda>n. \<lparr>nb_prev = (if a = hd q then last q else nb_prev n), nb_next = (if a = last q then hd q else nb_next n)\<rparr>)
      (nb a))" (is "linked _ ?nb")
proof -
  have o': "o' \<notin> set q" using linked_distinct[OF l] by simp
  have "?nb a = Some \<lparr>nb_prev = last (a # bs @ as), nb_next = hd (bs @ as @ [a])\<rparr>"
    if eq: "q = as @ a # bs" for as a bs
  proof -
    have "a = hd q \<longleftrightarrow> as = []" "a = last q \<longleftrightarrow> bs = []"
      using linked_distinct[OF l] by (cases as; auto simp: eq)+
    with linkedD[of as a "bs @ [o']" nb] l o' show ?thesis
      by (auto simp: eq hd_append last_append)
  qed
  with l o' show ?thesis by (auto simp: linked_def)
qed

text \<open>Two states that differ at most in the ring.\<close>

definition off_ring :: "'o BookState \<Rightarrow> 'o BookState" where
  "off_ring b = b\<lparr>ready_neighbours := None\<rparr>"

definition same_but_ring :: "('o, 'x) mq \<Rightarrow> ('o, 'x) mq \<Rightarrow> bool" where
  "same_but_ring st st' \<longleftrightarrow> pages st' = pages st \<and> env st' = env st \<and> mutex_held st' = mutex_held st \<and>
     events st' = events st \<and> (\<forall>a. off_ring (get_book st' a) = off_ring (get_book st a))"

lemma off_ring_eqD:
  "off_ring b = off_ring b' \<Longrightarrow> bk_begin b = bk_begin b' \<and> bk_end b = bk_end b' \<and> bk_count b = bk_count b' \<and>
     message_count b = message_count b' \<and> bk_size b = bk_size b'"
  by (cases b; cases b') (simp add: off_ring_def)

lemma off_ring_upd [simp]: "off_ring (b\<lparr>ready_neighbours := x\<rparr>) = off_ring b"
  by (simp add: off_ring_def)

lemma same_but_ring_refl [simp]: "same_but_ring st st"
  by (simp add: same_but_ring_def)

lemma ring_knit:
  assumes r: "ring st r" and o': "o' \<notin> set r"
  obtains nb st' where "ready_ring_knit o' st = (Inr nb, st')" "same_but_ring st st'"
    "get_book st' o' = get_book st o'"
    "\<And>b. ring (put_book o' (b\<lparr>ready_neighbours := Some nb\<rparr>) st') (r @ [o'])"
proof (cases r)
  case Nil
  have nb: "neighbours_of st a = None" for a using r Nil by (auto simp: ring_def linked_def)
  show ?thesis
    by (rule that[of "\<lparr>nb_prev = o', nb_next = o'\<rparr>" "st\<lparr>service_head := Some o'\<rparr>"])
      (use r Nil nb in \<open>auto simp: ring_def ready_ring_knit_def same_but_ring_def linked_def neighbours_of_def
        Cons_eq_append_conv\<close>)
next
  case (Cons h xs)
  have l: "linked r (neighbours_of st)" and head: "service_head st = Some h"
    using r Cons by (auto simp: ring_def)
  let ?nb = "\<lparr>nb_prev = last r, nb_next = h\<rparr>"
  have h_nb: "neighbours_of st h = Some \<lparr>nb_prev = last r, nb_next = hd (xs @ [h])\<rparr>"
    using linkedD[of "[]" h xs] l Cons by simp
  obtain n where t_nb: "neighbours_of st (last r) = Some n"
    using linked_inside[OF l, of "last r"] last_in_set[of r] Cons by fastforce
  define st1 where "st1 = put_book h ((get_book st h)\<lparr>ready_neighbours :=
    Some \<lparr>nb_prev = o', nb_next = hd (xs @ [h])\<rparr>\<rparr>) st"
  obtain n1 where n1: "ready_neighbours (get_book st1 (last r)) = Some n1"
    "nb_prev n1 = (if last r = h then o' else nb_prev n)" "nb_next n1 = nb_next n"
    using t_nb h_nb by (cases "last r = h") (auto simp: st1_def neighbours_of_def)
  define st2 where "st2 = put_book (last r) ((get_book st1 (last r))\<lparr>ready_neighbours :=
    Some (n1\<lparr>nb_next := o'\<rparr>)\<rparr>) st1"
  have knit: "ready_ring_knit o' st = (Inr ?nb, st2)"
    using head h_nb n1(1) by (simp add: ready_ring_knit_def neighbours_of_def st1_def st2_def Let_def)
  have diff: "o' \<noteq> h" "o' \<noteq> last r" using o' Cons by (auto split: if_splits)
  have nbs: "neighbours_of (put_book o' (b\<lparr>ready_neighbours := Some ?nb\<rparr>) st2) a =
    (if a = o' then Some \<lparr>nb_prev = last r, nb_next = hd r\<rparr> else
      map_option (\<lambda>n. \<lparr>nb_prev = (if a = hd r then o' else nb_prev n), nb_next = (if a = last r then o' else nb_next n)\<rparr>)
      (neighbours_of st a))" for a b
    using h_nb t_nb n1 Cons by (auto simp: neighbours_of_def st2_def st1_def map_option_case split: option.splits)
  show ?thesis
  proof (rule that[OF knit])
    show "same_but_ring st st2" by (auto simp: same_but_ring_def st2_def st1_def put_book_def get_book_def)
    show "get_book st2 o' = get_book st o'" using diff by (simp add: st2_def st1_def)
    show "ring (put_book o' (b\<lparr>ready_neighbours := Some ?nb\<rparr>) st2) (r @ [o'])" for b
      using linked_snoc[OF l _ o'] Cons head
      unfolding ring_def nbs by (simp add: st2_def st1_def)
  qed
qed

lemma ring_unknit:
  assumes r: "ring st (xs @ o' # ys)" and nb: "neighbours_of st o' = Some nb"
  shows "same_but_ring st (ready_ring_unknit o' nb st)"
    "get_book (ready_ring_unknit o' nb st) o' = get_book st o'"
    "ring (put_book o' (b\<lparr>ready_neighbours := None\<rparr>) (ready_ring_unknit o' nb st)) (xs @ ys)"
proof -
  let ?q = "ys @ xs"
  have l: "linked (xs @ o' # ys) (neighbours_of st)" using r by (simp add: ring_def)
  have nb_eq: "nb = \<lparr>nb_prev = last (o' # ?q), nb_next = hd (?q @ [o'])\<rparr>"
    using linkedD[OF l] nb by simp
  have dist: "distinct (?q @ [o'])" using linked_distinct[OF l] by auto
  have "same_but_ring st (ready_ring_unknit o' nb st) \<and>
    get_book (ready_ring_unknit o' nb st) o' = get_book st o' \<and>
    ring (put_book o' (b\<lparr>ready_neighbours := None\<rparr>) (ready_ring_unknit o' nb st)) (xs @ ys)"
  proof (cases "?q = []")
    case True
    have "neighbours_of st a = None" if "a \<noteq> o'" for a
      using linked_outside[OF l, of a] that True by simp
    with True show ?thesis
      by (auto simp: nb_eq ready_ring_unknit_def same_but_ring_def ring_def linked_def neighbours_of_def)
  next
    case False
    have diff: "o' \<noteq> hd ?q" "o' \<noteq> last ?q" using dist False hd_in_set[OF False] last_in_set[OF False] by auto
    have nb_q: "nb = \<lparr>nb_prev = last ?q, nb_next = hd ?q\<rparr>" using nb_eq False by (simp add: hd_append)
    define st2 where "st2 = mutate_neighbours (last ?q) (\<lambda>n. n\<lparr>nb_next := hd ?q\<rparr>)
      (mutate_neighbours (hd ?q) (\<lambda>n. n\<lparr>nb_prev := last ?q\<rparr>) st)"
    have unknit: "ready_ring_unknit o' nb st = (case service_head st2 of
        Some head \<Rightarrow> if head = o' then st2\<lparr>service_head := Some (hd ?q)\<rparr> else st2 | None \<Rightarrow> st2)"
      unfolding nb_q using diff by (simp add: ready_ring_unknit_def st2_def Let_def split: option.split)
    have head: "service_head st2 = Some (hd (xs @ o' # ys))"
      using r by (cases xs) (auto simp: st2_def mutate_neighbours_def Let_def ring_def)
    have nbs: "neighbours_of (put_book o' (b\<lparr>ready_neighbours := None\<rparr>) st2) =
      (\<lambda>a. if a = o' then None else map_option (\<lambda>n. \<lparr>nb_prev = (if a = hd ?q then last ?q else nb_prev n),
        nb_next = (if a = last ?q then hd ?q else nb_next n)\<rparr>) (neighbours_of st a))" for b
      by (rule ext) (auto simp: neighbours_of_def st2_def mutate_neighbours_def Let_def map_option_case
          split: option.splits)
    have rot: "linked (?q @ [o']) (neighbours_of st)"
      using linked_rotate[of "xs @ [o']" ys] l by simp
    have link: "linked (xs @ ys) (neighbours_of (put_book o' (b\<lparr>ready_neighbours := None\<rparr>) st2))" for b
      unfolding nbs by (rule linked_rotate[OF linked_butlast[OF rot False]])
    have frame: "same_but_ring st st2" "get_book st2 o' = get_book st o'"
      using diff by (auto simp: same_but_ring_def st2_def mutate_neighbours_def Let_def put_book_def get_book_def)
    show ?thesis
    proof (cases xs)
      case Nil
      then have "ready_ring_unknit o' nb st = st2\<lparr>service_head := Some (hd ys)\<rparr>" using unknit head by simp
      with Nil False link frame show ?thesis
        by (cases ys) (auto simp: ring_def same_but_ring_def neighbours_put)
    next
      case (Cons x xs')
      then have "ready_ring_unknit o' nb st = st2" using unknit head dist by auto
      with Cons link frame head show ?thesis by (simp add: ring_def)
    qed
  qed
  then show "same_but_ring st (ready_ring_unknit o' nb st)"
    "get_book (ready_ring_unknit o' nb st) o' = get_book st o'"
    "ring (put_book o' (b\<lparr>ready_neighbours := None\<rparr>) (ready_ring_unknit o' nb st)) (xs @ ys)" by blast+
qed

lemma ring_bump:
  assumes r: "ring st r" and bump: "bump_service_head w weight st = (res, weight', st')"
  shows "same_but_ring st st' \<and>
    (case res of None \<Rightarrow> st' = st | Some a \<Rightarrow> \<exists>xs. r = a # xs \<and> ring st' (xs @ [a]))"
proof (cases r)
  case Nil
  with r bump show ?thesis by (auto simp: bump_service_head_def ring_def split: sum.splits)
next
  case (Cons a xs)
  then have l: "linked (a # xs) (neighbours_of st)" and head: "service_head st = Some a"
    using r by (auto simp: ring_def)
  have nb: "ready_neighbours (get_book st a) = Some \<lparr>nb_prev = last (a # xs), nb_next = hd (xs @ [a])\<rparr>"
    using linkedD[of "[]" a xs "neighbours_of st"] l by (simp add: neighbours_of_def)
  have "linked (xs @ [a]) (neighbours_of st)" using linked_rotate[of "[a]" xs] l by simp
  then have "ring (st\<lparr>service_head := Some (hd (xs @ [a]))\<rparr>) (xs @ [a])"
    by (cases xs) (auto simp: ring_def)
  moreover have "(res, st') = (None, st) \<or> (res, st') = (Some a, st\<lparr>service_head := Some (hd (xs @ [a]))\<rparr>)"
    using bump head nb by (cases "try_consume weight w") (auto simp: bump_service_head_def)
  ultimately show ?thesis
    using Cons by (auto simp: same_but_ring_def)
qed

end
