(* ===== verification/MQ_Pallet.thy ===== *)
theory MQ_Pallet
  imports MQ_Ring "HOL-Library.Monad_Syntax"
begin

text \<open>
  The operations of the message queue pallet (\<open>substrate/frame/message-queue/src/lib.rs\<close>): enqueueing,
  sweeping, servicing queue by queue, page by page and message by message, executing an overweight message
  and reaping a page, with the two hooks and the two calls.

  What the runtime configures is a parameter: the record \<open>mq_config\<close> holds the constants, the weights of
  \<open>WeightInfo\<close>, the hash, the queries and the message processor. The processor is arbitrary code that may
  call back into the pallet. While it runs the service mutex is held, so the calls of it that can change the
  pallet's state are those of \<open>EnqueueMessage\<close>; an outcome of the processor lists them in their order. The
  three loops are recursive functions into \<open>option\<close>, where \<open>None\<close> is a loop that never ends.
\<close>

section \<open>Configuration\<close>

datatype 'o ApiCall = EnqueueMessages "bytes list" 'o | SweepQueue 'o

record ('o, 'x) ProcessOutcome =
  po_result :: "(ProcessMessageError, bool) result"
  po_meter :: WeightMeter
  po_id :: bytes
  po_calls :: "'o ApiCall list"
  po_env :: 'x

record ('o, 'x) mq_config =
  item_codec_of :: ItemCodec
  HeapSize :: u32
  MaxStale :: u32
  ServiceWeight :: "Weight option"
  IdleMaxServiceWeight :: "Weight option"
  blake2_256 :: "bytes \<Rightarrow> bytes"
  process_message :: "('o, 'x) mq \<Rightarrow> bytes \<Rightarrow> 'o \<Rightarrow> WeightMeter \<Rightarrow> bytes \<Rightarrow> ('o, 'x) ProcessOutcome"
  is_paused :: "'x \<Rightarrow> 'o \<Rightarrow> bool"
  on_queue_changed :: "'o \<Rightarrow> QueueFootprint \<Rightarrow> 'x \<Rightarrow> 'x"
  w_bump_service_head :: Weight
  w_service_queue_base :: Weight
  w_service_page_base_completion :: Weight
  w_service_page_base_no_completion :: Weight
  w_service_page_item :: Weight
  w_ready_ring_unknit :: Weight
  w_execute_overweight_page_removed :: Weight
  w_execute_overweight_page_updated :: Weight

datatype Error = NotReapable | NoPage | NoMessage | AlreadyProcessed | Queued | InsufficientWeight_error
  | TemporarilyUnprocessable | QueuePaused | RecursiveDisallowed

datatype PageExecutionStatus = PageBailed | PageNoProgress | PageNoMore

datatype ItemExecutionStatus = ItemBailed | ItemNoProgress | ItemNoItem | ItemExecuted bool

datatype MessageExecutionStatus =
  InsufficientWeight | Overweight | Processed | Unprocessable bool | StackLimitReached

definition single_msg_overhead :: "('o, 'x) mq_config \<Rightarrow> Weight" where
  "single_msg_overhead cf =
     weight_saturating_add (weight_saturating_add (weight_saturating_add (weight_saturating_add
       (w_bump_service_head cf) (w_service_queue_base cf))
       (weight_max (w_service_page_base_completion cf) (w_service_page_base_no_completion cf)))
       (w_service_page_item cf)) (w_ready_ring_unknit cf)"

definition max_message_weight :: "('o, 'x) mq_config \<Rightarrow> Weight \<Rightarrow> Weight option" where
  "max_message_weight cf limit_w = weight_checked_sub limit_w (single_msg_overhead cf)"

section \<open>Enqueueing\<close>

definition do_enqueue_message :: "('o, 'x) mq_config \<Rightarrow> 'o \<Rightarrow> bytes \<Rightarrow> ('o, 'x) mq \<Rightarrow> ('o, 'x) mq" where
  "do_enqueue_message cf origin message st =
     (let book = get_book st origin;
          book = book\<lparr>message_count := saturating_inc (message_count book),
            bk_size := saturating_add (bk_size book) (of_nat (length message))\<rparr>;
          link_page = (\<lambda>book st.
            let book = book\<lparr>bk_end := saturating_inc (bk_end book), bk_count := saturating_inc (bk_count book)\<rparr>;
                page = from_message (item_codec_of cf) (HeapSize cf) message
            in put_book origin book (put_page origin (bk_end book - 1) page st))
      in if bk_end book > bk_begin book
         then let last_index = bk_end book - 1
              in case pages st (origin, last_index) of
                   None \<Rightarrow> st
                 | Some page \<Rightarrow> (case try_append_message (item_codec_of cf) (HeapSize cf) message page of
                      Inr page \<Rightarrow> put_book origin book (put_page origin last_index page st)
                    | Inl _ \<Rightarrow> link_page book st)
         else case ready_ring_knit origin st of
                (Inr neighbours, st) \<Rightarrow> link_page (book\<lparr>ready_neighbours := Some neighbours\<rparr>) st
              | (Inl _, st) \<Rightarrow> link_page book st)"

definition notify_changed :: "('o, 'x) mq_config \<Rightarrow> 'o \<Rightarrow> 'o BookState \<Rightarrow> ('o, 'x) mq \<Rightarrow> ('o, 'x) mq" where
  "notify_changed cf origin book st = st\<lparr>env := on_queue_changed cf origin (footprint_of book) (env st)\<rparr>"

definition enqueue_message :: "('o, 'x) mq_config \<Rightarrow> bytes \<Rightarrow> 'o \<Rightarrow> ('o, 'x) mq \<Rightarrow> ('o, 'x) mq" where
  "enqueue_message cf message origin st =
     (let st = do_enqueue_message cf origin message st in notify_changed cf origin (get_book st origin) st)"

definition enqueue_messages :: "('o, 'x) mq_config \<Rightarrow> bytes list \<Rightarrow> 'o \<Rightarrow> ('o, 'x) mq \<Rightarrow> ('o, 'x) mq" where
  "enqueue_messages cf messages origin st =
     (let st = fold (do_enqueue_message cf origin) messages st
      in notify_changed cf origin (get_book st origin) st)"

definition sweep_queue :: "'o \<Rightarrow> ('o, 'x) mq \<Rightarrow> ('o, 'x) mq" where
  "sweep_queue origin st = (case books st origin of None \<Rightarrow> st
     | Some book \<Rightarrow>
        (let book = book\<lparr>bk_begin := bk_end book\<rparr>
         in case ready_neighbours book of
              Some neighbours \<Rightarrow> put_book origin (book\<lparr>ready_neighbours := None\<rparr>)
                (ready_ring_unknit origin neighbours st)
            | None \<Rightarrow> put_book origin book st))"

definition footprint :: "'o \<Rightarrow> ('o, 'x) mq \<Rightarrow> QueueFootprint" where
  "footprint origin st = footprint_of (get_book st origin)"

fun api_call :: "('o, 'x) mq_config \<Rightarrow> 'o ApiCall \<Rightarrow> ('o, 'x) mq \<Rightarrow> ('o, 'x) mq" where
  "api_call cf (EnqueueMessages ms origin) st = enqueue_messages cf ms origin st"
| "api_call cf (SweepQueue origin) st = sweep_queue origin st"

section \<open>Processing one message\<close>

definition process_message_payload ::
  "('o, 'x) mq_config \<Rightarrow> 'o \<Rightarrow> u32 \<Rightarrow> u32 \<Rightarrow> bytes \<Rightarrow> WeightMeter \<Rightarrow> Weight \<Rightarrow> ('o, 'x) mq \<Rightarrow>
     MessageExecutionStatus \<times> WeightMeter \<times> ('o, 'x) mq" where
  "process_message_payload cf origin page_index message_index message weight overweight_limit st =
     (let prev_consumed = consumed weight;
          out = process_message cf st message origin weight (blake2_256 cf message);
          msg_id = po_id out; weight = po_meter out;
          st = fold (api_call cf) (po_calls out) (st\<lparr>env := po_env out\<rparr>)
      in case po_result out of
           Inl (Overweight_error w) \<Rightarrow>
             if any_gt w overweight_limit
             then (Overweight, weight, deposit_event (OverweightEnqueued msg_id origin page_index message_index) st)
             else (InsufficientWeight, weight, st)
         | Inl Yield \<Rightarrow> (Unprocessable False, weight, st)
         | Inl StackLimit_error \<Rightarrow>
             (StackLimitReached, weight, deposit_event (ProcessingFailed msg_id origin StackLimit_error) st)
         | Inl error \<Rightarrow> (Unprocessable True, weight, deposit_event (ProcessingFailed msg_id origin error) st)
         | Inr success \<Rightarrow>
             (Processed, weight, deposit_event (Processed_event msg_id origin
                (weight_saturating_sub (consumed weight) prev_consumed) success) st))"

section \<open>Servicing\<close>

text \<open>The state of a service of one queue: the storage, and the local copies of the book, the page and the
  meter.\<close>

record ('o, 'x) service =
  sv_st :: "('o, 'x) mq"
  sv_book :: "'o BookState"
  sv_page :: Page
  sv_weight :: WeightMeter

definition service_page_item ::
  "('o, 'x) mq_config \<Rightarrow> 'o \<Rightarrow> u32 \<Rightarrow> Weight \<Rightarrow> ('o, 'x) service \<Rightarrow>
     ItemExecutionStatus \<times> ('o, 'x) service" where
  "service_page_item cf origin page_index overweight_limit s =
     (if is_complete (sv_page s) then (ItemNoItem, s)
      else case try_consume (sv_weight s) (w_service_page_item cf) of
        Inl _ \<Rightarrow> (ItemBailed, s)
      | Inr weight \<Rightarrow>
        (case peek_first (item_codec_of cf) (sv_page s) of
           None \<Rightarrow> (ItemNoItem, s\<lparr>sv_weight := weight\<rparr>)
         | Some payload \<Rightarrow>
           (let st = put_book origin (sv_book s) (put_page origin page_index (sv_page s) (sv_st s));
                (res, weight, st) = process_message_payload cf origin page_index (first_index (sv_page s))
                  payload weight overweight_limit st;
                book = get_book st origin;
                s = s\<lparr>sv_st := st, sv_book := book, sv_weight := weight\<rparr>
            in case pages st (origin, page_index) of
                 None \<Rightarrow> (ItemNoItem, s)
               | Some page \<Rightarrow>
                  (let s = s\<lparr>sv_page := page\<rparr>;
                       finish = (\<lambda>is_processed. (ItemExecuted is_processed, s\<lparr>
                         sv_book := (if is_processed
                           then book\<lparr>message_count := saturating_dec (message_count book),
                             bk_size := saturating_sub (bk_size book) (of_nat (length payload))\<rparr>
                           else book),
                         sv_page := skip_first (item_codec_of cf) is_processed page\<rparr>))
                   in case res of
                        InsufficientWeight \<Rightarrow> (ItemBailed, s)
                      | Unprocessable permanent \<Rightarrow> if permanent then finish True else (ItemNoProgress, s)
                      | Processed \<Rightarrow> finish True
                      | StackLimitReached \<Rightarrow> finish True
                      | Overweight \<Rightarrow> finish False))))"

text \<open>The loop of \<open>service_page\<close>.\<close>

partial_function (option) service_items ::
  "('o, 'x) mq_config \<Rightarrow> 'o \<Rightarrow> u32 \<Rightarrow> Weight \<Rightarrow> u32 \<Rightarrow> ('o, 'x) service \<Rightarrow>
     (u32 \<times> PageExecutionStatus \<times> ('o, 'x) service) option" where
  "service_items cf origin page_index overweight_limit total_processed s =
     (case service_page_item cf origin page_index overweight_limit s of (status, s) \<Rightarrow>
        (case status of
           ItemBailed \<Rightarrow> Some (total_processed, PageBailed, s)
         | ItemNoItem \<Rightarrow> Some (total_processed, PageNoMore, s)
         | ItemNoProgress \<Rightarrow> Some (total_processed, PageNoProgress, s)
         | ItemExecuted b \<Rightarrow> service_items cf origin page_index overweight_limit
             (if b then saturating_inc total_processed else total_processed) s))"

definition page_base :: "('o, 'x) mq_config \<Rightarrow> Weight" where
  "page_base cf = weight_max (w_service_page_base_completion cf) (w_service_page_base_no_completion cf)"

definition service_page ::
  "('o, 'x) mq_config \<Rightarrow> 'o \<Rightarrow> Weight \<Rightarrow> 'o BookState \<Rightarrow> WeightMeter \<Rightarrow> ('o, 'x) mq \<Rightarrow>
     (u32 \<times> PageExecutionStatus \<times> 'o BookState \<times> WeightMeter \<times> ('o, 'x) mq) option" where
  "service_page cf origin overweight_limit book weight st =
     (case try_consume weight (page_base cf) of
        Inl _ \<Rightarrow> Some (0, PageBailed, book, weight, st)
      | Inr weight \<Rightarrow>
        (let page_index = bk_begin book in
         case pages st (origin, page_index) of
           None \<Rightarrow> Some (0, PageNoMore, book, weight, st)
         | Some page \<Rightarrow> do {
             (total_processed, status, s) \<leftarrow> service_items cf origin page_index overweight_limit 0
               \<lparr>sv_st = st, sv_book = book, sv_page = page, sv_weight = weight\<rparr>;
             (if is_complete (sv_page s)
              then Some (total_processed, status,
                (sv_book s)\<lparr>bk_count := saturating_dec (bk_count (sv_book s))\<rparr>, sv_weight s,
                remove_page origin page_index (sv_st s))
              else Some (total_processed, status, sv_book s, sv_weight s,
                put_page origin page_index (sv_page s) (sv_st s)))
           }))"

text \<open>The loop of \<open>service_queue\<close>.\<close>

partial_function (option) service_pages ::
  "('o, 'x) mq_config \<Rightarrow> 'o \<Rightarrow> Weight \<Rightarrow> u32 \<Rightarrow> 'o BookState \<Rightarrow> WeightMeter \<Rightarrow> ('o, 'x) mq \<Rightarrow>
     (u32 \<times> 'o BookState \<times> WeightMeter \<times> ('o, 'x) mq) option" where
  "service_pages cf origin overweight_limit total_processed book weight st =
     (if bk_end book > bk_begin book
      then do {
        (processed, status, book, weight, st) \<leftarrow> service_page cf origin overweight_limit book weight st;
        (if status = PageNoMore
         then service_pages cf origin overweight_limit (saturating_add total_processed processed)
           (book\<lparr>bk_begin := saturating_inc (bk_begin book)\<rparr>) weight st
         else Some (saturating_add total_processed processed, book, weight, st))
      }
      else Some (total_processed, book, weight, st))"

definition service_queue ::
  "('o, 'x) mq_config \<Rightarrow> 'o \<Rightarrow> Weight \<Rightarrow> WeightMeter \<Rightarrow> ('o, 'x) mq \<Rightarrow>
     (bool \<times> 'o option \<times> WeightMeter \<times> ('o, 'x) mq) option" where
  "service_queue cf origin overweight_limit weight st =
     (case try_consume weight (weight_saturating_add (w_service_queue_base cf) (w_ready_ring_unknit cf)) of
        Inl _ \<Rightarrow> Some (False, None, weight, st)
      | Inr weight \<Rightarrow>
        (let book = get_book st origin in
         if is_paused cf (env st) origin
         then Some (False, map_option nb_next (ready_neighbours book), weight, st)
         else do {
           (total_processed, book, weight, st) \<leftarrow> service_pages cf origin overweight_limit 0 book weight st;
           let next_ready = map_option nb_next (ready_neighbours book);
           let (book, st) = (if bk_begin book \<ge> bk_end book
             then (case ready_neighbours book of
                     Some neighbours \<Rightarrow> (book\<lparr>ready_neighbours := None\<rparr>, ready_ring_unknit origin neighbours st)
                   | None \<Rightarrow> (book, st))
             else (book, st));
           let st = put_book origin book st;
           let st = (if total_processed > 0 then notify_changed cf origin book st else st);
           Some (total_processed > 0, next_ready, weight, st)
         }))"

text \<open>The loop of \<open>service_queues\<close>.\<close>

partial_function (option) service_ring ::
  "('o, 'x) mq_config \<Rightarrow> Weight \<Rightarrow> 'o \<Rightarrow> 'o option \<Rightarrow> WeightMeter \<Rightarrow> ('o, 'x) mq \<Rightarrow>
     (WeightMeter \<times> ('o, 'x) mq) option" where
  "service_ring cf max_weight next_o last_no_progress weight st = do {
     (progressed, n, weight, st) \<leftarrow> service_queue cf next_o max_weight weight st;
     (case n of
        Some n \<Rightarrow>
          if \<not> progressed
          then if last_no_progress = Some n then Some (weight, st)
               else service_ring cf max_weight n
                 (if last_no_progress = None then Some next_o else last_no_progress) weight st
          else service_ring cf max_weight n None weight st
      | None \<Rightarrow> Some (weight, st))
   }"

declare service_items.simps [code] service_pages.simps [code] service_ring.simps [code]

text \<open>\<open>with_service_mutex\<close> of a computation that may not end.\<close>

definition with_service_mutex ::
  "(('o, 'x) mq \<Rightarrow> ('r \<times> ('o, 'x) mq) option) \<Rightarrow> ('o, 'x) mq \<Rightarrow> ((unit, 'r) result \<times> ('o, 'x) mq) option" where
  "with_service_mutex f st = (if mutex_held st then Some (Inl (), st)
     else do { (r, st') \<leftarrow> f (st\<lparr>mutex_held := True\<rparr>); Some (Inr r, st'\<lparr>mutex_held := False\<rparr>) })"

definition service_queues :: "('o, 'x) mq_config \<Rightarrow> Weight \<Rightarrow> ('o, 'x) mq \<Rightarrow> (Weight \<times> ('o, 'x) mq) option" where
  "service_queues cf weight_limit st =
     (let weight = meter_with_limit weight_limit;
          max_weight = (case max_message_weight cf weight_limit of Some w \<Rightarrow> w | None \<Rightarrow> weight_zero)
      in do {
        (r, st) \<leftarrow> with_service_mutex (\<lambda>st. case bump_service_head (w_bump_service_head cf) weight st of
            (None, weight, st) \<Rightarrow> Some (consumed weight, st)
          | (Some next_o, weight, st) \<Rightarrow> do {
              (weight, st) \<leftarrow> service_ring cf max_weight next_o None weight st;
              Some (consumed weight, st) }) st;
        Some (case r of Inl _ \<Rightarrow> consumed weight | Inr w \<Rightarrow> w, st)
      })"

definition on_initialize :: "('o, 'x) mq_config \<Rightarrow> ('o, 'x) mq \<Rightarrow> (Weight \<times> ('o, 'x) mq) option" where
  "on_initialize cf st = (case ServiceWeight cf of
     Some weight_limit \<Rightarrow> service_queues cf weight_limit st | None \<Rightarrow> Some (weight_zero, st))"

definition on_idle :: "('o, 'x) mq_config \<Rightarrow> Weight \<Rightarrow> ('o, 'x) mq \<Rightarrow> (Weight \<times> ('o, 'x) mq) option" where
  "on_idle cf remaining_weight st = (case IdleMaxServiceWeight cf of
     Some weight_limit \<Rightarrow> service_queues cf (weight_min weight_limit remaining_weight) st
   | None \<Rightarrow> Some (weight_zero, st))"

section \<open>Overweight messages\<close>

text \<open>The book and the page are read before the message is processed and written back after it.\<close>

definition do_execute_overweight_inner ::
  "('o, 'x) mq_config \<Rightarrow> 'o \<Rightarrow> u32 \<Rightarrow> u32 \<Rightarrow> Weight \<Rightarrow> ('o, 'x) mq \<Rightarrow> (Error, Weight) result \<times> ('o, 'x) mq" where
  "do_execute_overweight_inner cf origin page_index index weight_limit st =
     (let book = get_book st origin in
      if is_paused cf (env st) origin then (Inl QueuePaused, st)
      else case pages st (origin, page_index) of None \<Rightarrow> (Inl NoPage, st)
      | Some page \<Rightarrow> (case peek_index (item_codec_of cf) (unat index) page of None \<Rightarrow> (Inl NoMessage, st)
      | Some (pos, processed, payload) \<Rightarrow>
         if \<not> (page_index < bk_begin book \<or> page_index = bk_begin book \<and> pos < unat (pg_first page))
         then (Inl Queued, st)
         else if processed then (Inl AlreadyProcessed, st)
         else
           (let (res, weight_counter, st) = process_message_payload cf origin page_index index payload
                  (meter_with_limit weight_limit) weight_MAX st;
                finish = (let page = note_processed_at_pos (item_codec_of cf) pos page;
                     book = book\<lparr>message_count := saturating_dec (message_count book),
                       bk_size := saturating_sub (bk_size book) (of_nat (length payload))\<rparr>;
                     (page_weight, book, st) = (if remaining page = 0
                       then (w_execute_overweight_page_removed cf,
                         book\<lparr>bk_count := saturating_dec (bk_count book)\<rparr>, remove_page origin page_index st)
                       else (w_execute_overweight_page_updated cf, book, put_page origin page_index page st));
                     st = notify_changed cf origin book (put_book origin book st)
                   in (Inr (weight_saturating_add (consumed weight_counter) page_weight), st))
            in case res of
                 Overweight \<Rightarrow> (Inl InsufficientWeight_error, st)
               | InsufficientWeight \<Rightarrow> (Inl InsufficientWeight_error, st)
               | StackLimitReached \<Rightarrow> (Inl TemporarilyUnprocessable, st)
               | Unprocessable permanent \<Rightarrow> if permanent then finish else (Inl TemporarilyUnprocessable, st)
               | Processed \<Rightarrow> finish)))"

definition do_execute_overweight ::
  "('o, 'x) mq_config \<Rightarrow> 'o \<Rightarrow> u32 \<Rightarrow> u32 \<Rightarrow> Weight \<Rightarrow> ('o, 'x) mq \<Rightarrow> (Error, Weight) result \<times> ('o, 'x) mq" where
  "do_execute_overweight cf origin page_index index weight_limit st =
     (case with_service_mutex (\<lambda>st. Some (do_execute_overweight_inner cf origin page_index index weight_limit st)) st of
        Some (Inr x, st) \<Rightarrow> (x, st) | _ \<Rightarrow> (Inl RecursiveDisallowed, st))"

datatype ExecuteOverweightError = EO_NotFound | EO_AlreadyProcessed | EO_InsufficientWeight | EO_QueuePaused
  | EO_Other | EO_RecursiveDisallowed

fun overweight_error :: "Error \<Rightarrow> ExecuteOverweightError" where
  "overweight_error InsufficientWeight_error = EO_InsufficientWeight"
| "overweight_error AlreadyProcessed = EO_AlreadyProcessed"
| "overweight_error QueuePaused = EO_QueuePaused"
| "overweight_error NoPage = EO_NotFound"
| "overweight_error NoMessage = EO_NotFound"
| "overweight_error Queued = EO_NotFound"
| "overweight_error RecursiveDisallowed = EO_RecursiveDisallowed"
| "overweight_error _ = EO_Other"

text \<open>\<open>ServiceQueues::execute_overweight\<close>.\<close>

definition execute_overweight ::
  "('o, 'x) mq_config \<Rightarrow> Weight \<Rightarrow> 'o \<times> u32 \<times> u32 \<Rightarrow> ('o, 'x) mq \<Rightarrow>
     (ExecuteOverweightError, Weight) result \<times> ('o, 'x) mq" where
  "execute_overweight cf weight_limit address st = (case address of (origin, page, index) \<Rightarrow>
     (case try_consume (meter_with_limit weight_limit)
        (weight_max (w_execute_overweight_page_removed cf) (w_execute_overweight_page_updated cf)) of
        Inl _ \<Rightarrow> (Inl EO_InsufficientWeight, st)
      | Inr weight \<Rightarrow> (case do_execute_overweight cf origin page index (meter_remaining weight) st of
           (Inl e, st) \<Rightarrow> (Inl (overweight_error e), st)
         | (Inr w, st) \<Rightarrow> (Inr w, st))))"

section \<open>Reaping\<close>

definition cullable :: "('o, 'x) mq_config \<Rightarrow> 'o BookState \<Rightarrow> u32 \<Rightarrow> bool" where
  "cullable cf book page_index =
     (let total_pages = bk_count book;
          ready_pages = min (saturating_sub (bk_end book) (bk_begin book)) total_pages;
          stale_pages = total_pages - ready_pages;
          max_stale = MaxStale cf
      in case checked_sub stale_pages (max_stale + 1) of
           None \<Rightarrow> False
         | Some x \<Rightarrow>
            (let overflow = x + 1;
                 backlog = max (max_stale * max_stale div overflow) max_stale;
                 watermark = saturating_sub (bk_begin book) backlog
             in page_index < watermark))"

definition do_reap_page_inner ::
  "('o, 'x) mq_config \<Rightarrow> 'o \<Rightarrow> u32 \<Rightarrow> ('o, 'x) mq \<Rightarrow> (Error, unit) result \<times> ('o, 'x) mq" where
  "do_reap_page_inner cf origin page_index st =
     (let book = get_book st origin in
      if \<not> page_index < bk_begin book then (Inl NotReapable, st)
      else case pages st (origin, page_index) of None \<Rightarrow> (Inl NoPage, st)
      | Some page \<Rightarrow>
         if \<not> (remaining page = 0 \<or> cullable cf book page_index) then (Inl NotReapable, st)
         else
           (let st = remove_page origin page_index st;
                book = book\<lparr>bk_count := saturating_dec (bk_count book),
                  message_count := saturating_sub (message_count book) (ucast (remaining page)),
                  bk_size := saturating_sub (bk_size book) (ucast (pg_remaining_size page))\<rparr>;
                st = notify_changed cf origin book (put_book origin book st)
            in (Inr (), deposit_event (PageReaped origin page_index) st)))"

definition do_reap_page ::
  "('o, 'x) mq_config \<Rightarrow> 'o \<Rightarrow> u32 \<Rightarrow> ('o, 'x) mq \<Rightarrow> (Error, unit) result \<times> ('o, 'x) mq" where
  "do_reap_page cf origin page_index st =
     (case with_service_mutex (\<lambda>st. Some (do_reap_page_inner cf origin page_index st)) st of
        Some (Inr x, st) \<Rightarrow> (x, st) | _ \<Rightarrow> (Inl RecursiveDisallowed, st))"

section \<open>The calls\<close>

text \<open>A call by somebody who is not signed is refused; a call that fails leaves the storage as it was.\<close>

definition dispatch :: "bool \<Rightarrow> (('o, 'x) mq \<Rightarrow> (Error, 'r) result \<times> ('o, 'x) mq) \<Rightarrow>
    ('o, 'x) mq \<Rightarrow> (Error option, 'r) result \<times> ('o, 'x) mq" where
  "dispatch is_signed call st = (if \<not> is_signed then (Inl None, st)
     else case call st of (Inl e, _) \<Rightarrow> (Inl (Some e), st) | (Inr r, st') \<Rightarrow> (Inr r, st'))"

definition call_reap_page where
  "call_reap_page cf is_signed origin page_index st = dispatch is_signed (do_reap_page cf origin page_index) st"

definition call_execute_overweight where
  "call_execute_overweight cf is_signed origin page index weight_limit st =
     dispatch is_signed (do_execute_overweight cf origin page index weight_limit) st"

end
