(* ===== verification/MQ_Service.thy ===== *)
theory MQ_Service
  imports MQ_Pallet
begin

text \<open>
  Servicing ends and stays within its weight. Every round of the three loops of the message queue pallet
  charges the meter, so with weights that are not zero the units left in the meter bound the rounds. What
  is asked of the message processor is what its interface documents: it does not use more than the meter
  has left.
\<close>

section \<open>Charging\<close>

text \<open>The meter \<open>m'\<close> is \<open>m\<close> after some more charges.\<close>

definition charged :: "WeightMeter \<Rightarrow> WeightMeter \<Rightarrow> bool" where
  "charged m m' \<longleftrightarrow> meter_ok m' \<and> limit m' = limit m \<and> meter_left m' \<le> meter_left m"

definition respects_meter :: "('o, 'x) mq_config \<Rightarrow> bool" where
  "respects_meter cf \<longleftrightarrow> (\<forall>st message origin weight msg_id. meter_ok weight \<longrightarrow>
     charged weight (po_meter (process_message cf st message origin weight msg_id)))"

definition positive_weights :: "('o, 'x) mq_config \<Rightarrow> bool" where
  "positive_weights cf \<longleftrightarrow> w_service_page_item cf \<noteq> weight_zero \<and>
     (w_service_page_base_completion cf \<noteq> weight_zero \<or> w_service_page_base_no_completion cf \<noteq> weight_zero) \<and>
     (w_service_queue_base cf \<noteq> weight_zero \<or> w_ready_ring_unknit cf \<noteq> weight_zero)"

lemma charged_refl: "meter_ok m \<Longrightarrow> charged m m"
  by (simp add: charged_def)

lemma charged_trans: "charged a b \<Longrightarrow> charged b c \<Longrightarrow> charged a c"
  by (simp add: charged_def)

lemma charged_ok: "charged a b \<Longrightarrow> meter_ok b"
  by (simp add: charged_def)

lemma charged_left: "charged a b \<Longrightarrow> meter_left b \<le> meter_left a"
  by (simp add: charged_def)

lemma try_consume_charged: "try_consume m w = Inr m' \<Longrightarrow> charged m m'"
  by (simp add: charged_def wm.charge_ok wm.charge_cap wm.charge_left)

lemma weight_units_pos: "0 < weight_units w \<longleftrightarrow> w \<noteq> weight_zero"
  by (auto simp: weight_units_def weight_zero_def weight_eq_iff unat_gt_0 unsigned_eq_0_iff)

lemma positive_weightsD:
  assumes "positive_weights cf"
  shows "0 < weight_units (w_service_page_item cf)" "0 < weight_units (page_base cf)"
    "0 < weight_units (weight_saturating_add (w_service_queue_base cf) (w_ready_ring_unknit cf))"
proof -
  have max_zero: "max a b = 0 \<longleftrightarrow> a = 0 \<and> b = 0" for a b :: u64
    by (auto simp: max_def word_le_nat_alt unsigned_eq_0_iff)
  show "0 < weight_units (w_service_page_item cf)" "0 < weight_units (page_base cf)"
    "0 < weight_units (weight_saturating_add (w_service_queue_base cf) (w_ready_ring_unknit cf))"
    using assms unfolding weight_units_pos
    by (auto simp: positive_weights_def page_base_def weight_max_def weight_zero_def weight_eq_iff max_zero
        weight_saturating_add_def saturating_add_eq_0)
qed

section \<open>Messages and pages\<close>

lemma payload_charged:
  assumes "respects_meter cf" "meter_ok weight"
    and "process_message_payload cf origin pi mi message weight ol st = (res, weight', st')"
  shows "charged weight weight'"
proof -
  have "weight' = po_meter (process_message cf st message origin weight (blake2_256 cf message))"
    using assms(3) by (auto simp: process_message_payload_def Let_def
        split: sum.splits ProcessMessageError.splits if_splits)
  with assms(1,2) show ?thesis by (simp add: respects_meter_def)
qed

lemma item_charged:
  assumes "respects_meter cf" "meter_ok (sv_weight s)"
    and "service_page_item cf origin pi ol s = (status, s')"
  shows "charged (sv_weight s) (sv_weight s')"
    and "status = ItemExecuted b \<Longrightarrow>
      meter_left (sv_weight s') + weight_units (w_service_page_item cf) \<le> meter_left (sv_weight s)"
proof -
  have "charged (sv_weight s) (sv_weight s') \<and> (\<forall>b. status = ItemExecuted b \<longrightarrow>
      meter_left (sv_weight s') + weight_units (w_service_page_item cf) \<le> meter_left (sv_weight s))"
  proof (cases "is_complete (sv_page s)")
    case True
    with assms show ?thesis by (auto simp: service_page_item_def charged_refl)
  next
    case False
    show ?thesis
    proof (cases "try_consume (sv_weight s) (w_service_page_item cf)")
      case (Inl u)
      with assms False show ?thesis by (auto simp: service_page_item_def charged_refl)
    next
      case (Inr w)
      note c = try_consume_charged[OF Inr] and l = wm.charge_left[OF Inr]
      show ?thesis
      proof (cases "peek_first (item_codec_of cf) (sv_page s)")
        case None
        with assms False Inr c show ?thesis by (auto simp: service_page_item_def)
      next
        case (Some payload)
        define st0 where "st0 = put_book origin (sv_book s) (put_page origin pi (sv_page s) (sv_st s))"
        obtain res w' st' where p: "process_message_payload cf origin pi (first_index (sv_page s)) payload w ol st0 =
            (res, w', st')" using prod_cases3 by blast
        have "charged w w'" by (rule payload_charged[OF assms(1) charged_ok[OF c] p])
        with c have "charged (sv_weight s) w'" "meter_left w' \<le> meter_left w"
          by (auto simp: charged_def)
        moreover have "sv_weight s' = w'"
          using assms(3) False Inr Some p
          by (auto simp: service_page_item_def Let_def st0_def split: option.splits MessageExecutionStatus.splits if_splits)
        ultimately show ?thesis using l by auto
      qed
    qed
  qed
  then show "charged (sv_weight s) (sv_weight s')"
    "status = ItemExecuted b \<Longrightarrow>
      meter_left (sv_weight s') + weight_units (w_service_page_item cf) \<le> meter_left (sv_weight s)" by blast+
qed

lemma items_return:
  assumes "respects_meter cf" "positive_weights cf"
  shows "meter_ok (sv_weight s) \<Longrightarrow>
    \<exists>n status s'. service_items cf origin pi ol k s = Some (n, status, s') \<and> charged (sv_weight s) (sv_weight s')"
proof (induction "meter_left (sv_weight s)" arbitrary: s k rule: less_induct)
  case less
  obtain status s1 where item: "service_page_item cf origin pi ol s = (status, s1)" by fastforce
  note c = item_charged[OF assms(1) less.prems item]
  show ?case
  proof (cases status)
    case (ItemExecuted b)
    have "meter_left (sv_weight s1) < meter_left (sv_weight s)"
      using c(2)[OF ItemExecuted] positive_weightsD(1)[OF assms(2)] by linarith
    then obtain n status' s' where "service_items cf origin pi ol (if b then saturating_inc k else k) s1 =
        Some (n, status', s')" "charged (sv_weight s1) (sv_weight s')"
      using less.hyps charged_ok[OF c(1)] by blast
    with charged_trans[OF c(1)] show ?thesis
      by (subst service_items.simps) (simp add: item ItemExecuted)
  qed (use c(1) in \<open>subst service_items.simps, auto simp: item\<close>)+
qed

lemma page_returns:
  assumes "respects_meter cf" "positive_weights cf" "meter_ok weight"
  obtains n status book' weight' st' where
    "service_page cf origin ol book weight st = Some (n, status, book', weight', st')"
    "charged weight weight'" "status = PageNoMore \<Longrightarrow> meter_left weight' < meter_left weight"
proof (cases "try_consume weight (page_base cf)")
  case (Inl u)
  with assms(3) that show ?thesis by (auto simp: service_page_def charged_refl)
next
  case (Inr w)
  note c = try_consume_charged[OF Inr]
    and l = wm.charge_left_less[OF Inr positive_weightsD(2)[OF assms(2)]]
  show ?thesis
  proof (cases "pages st (origin, bk_begin book)")
    case None
    with Inr c l that show ?thesis by (auto simp: service_page_def)
  next
    case (Some page)
    obtain n status s' where items: "service_items cf origin (bk_begin book) ol 0
        \<lparr>sv_st = st, sv_book = book, sv_page = page, sv_weight = w\<rparr> = Some (n, status, s')"
      "charged w (sv_weight s')"
      using items_return[OF assms(1,2), of "\<lparr>sv_st = st, sv_book = book, sv_page = page, sv_weight = w\<rparr>"
          origin "bk_begin book" ol 0] charged_ok[OF c] by auto
    then have "charged weight (sv_weight s')" "meter_left (sv_weight s') < meter_left weight"
      using charged_trans[OF c] charged_left[OF items(2)] l by auto
    with Inr Some items that show ?thesis
      by (cases "is_complete (sv_page s')") (auto simp: service_page_def Let_def)
  qed
qed

section \<open>Queues and the ring\<close>

lemma pages_return:
  assumes "respects_meter cf" "positive_weights cf"
  shows "meter_ok weight \<Longrightarrow> \<exists>n book' weight' st'.
    service_pages cf origin ol k book weight st = Some (n, book', weight', st') \<and> charged weight weight'"
proof (induction "meter_left weight" arbitrary: k book weight st rule: less_induct)
  case less
  show ?case
  proof (cases "bk_end book > bk_begin book")
    case False
    with less.prems show ?thesis by (subst service_pages.simps) (simp add: charged_refl)
  next
    case True
    obtain n status book1 weight1 st1 where page:
      "service_page cf origin ol book weight st = Some (n, status, book1, weight1, st1)"
      "charged weight weight1" "status = PageNoMore \<Longrightarrow> meter_left weight1 < meter_left weight"
      by (rule page_returns[OF assms less.prems, of origin ol book st]) blast
    show ?thesis
    proof (cases "status = PageNoMore")
      case False
      with True page show ?thesis by (subst service_pages.simps) simp
    next
      case more: True
      obtain m book2 weight2 st2 where "service_pages cf origin ol (saturating_add k n)
          (book1\<lparr>bk_begin := saturating_inc (bk_begin book1)\<rparr>) weight1 st1 = Some (m, book2, weight2, st2)"
        "charged weight1 weight2"
        using less.hyps[OF page(3)[OF more] charged_ok[OF page(2)]] by blast
      with True page more charged_trans[OF page(2)] show ?thesis
        by (subst service_pages.simps) simp
    qed
  qed
qed

lemma queue_returns:
  assumes "respects_meter cf" "positive_weights cf" "meter_ok weight"
  shows "\<exists>progressed n weight' st'. service_queue cf origin ol weight st = Some (progressed, n, weight', st') \<and>
    charged weight weight' \<and> (n \<noteq> None \<longrightarrow> meter_left weight' < meter_left weight)"
proof (cases "try_consume weight (weight_saturating_add (w_service_queue_base cf) (w_ready_ring_unknit cf))")
  case (Inl u)
  with assms(3) show ?thesis by (auto simp: service_queue_def charged_refl)
next
  case (Inr w)
  note c = try_consume_charged[OF Inr]
    and l = wm.charge_left_less[OF Inr positive_weightsD(3)[OF assms(2)]]
  show ?thesis
  proof (cases "is_paused cf (env st) origin")
    case True
    with Inr c l show ?thesis by (auto simp: service_queue_def Let_def)
  next
    case False
    obtain n book' weight' st' where "service_pages cf origin ol 0 (get_book st origin) w st =
        Some (n, book', weight', st')" and c': "charged w weight'"
      using pages_return[OF assms(1,2) charged_ok[OF c]] by blast
    moreover have "charged weight weight'" "meter_left weight' < meter_left weight"
      using charged_trans[OF c c'] charged_left[OF c'] l by auto
    ultimately show ?thesis
      using Inr False by (simp add: service_queue_def Let_def case_prod_unfold)
  qed
qed

lemma ring_returns:
  assumes "respects_meter cf" "positive_weights cf"
  shows "meter_ok weight \<Longrightarrow> \<exists>weight' st'.
    service_ring cf ol next_o np weight st = Some (weight', st') \<and> charged weight weight'"
proof (induction "meter_left weight" arbitrary: next_o np weight st rule: less_induct)
  case less
  obtain progressed n weight1 st1 where q:
    "service_queue cf next_o ol weight st = Some (progressed, n, weight1, st1)" "charged weight weight1"
    "n \<noteq> None \<longrightarrow> meter_left weight1 < meter_left weight"
    using queue_returns[OF assms less.prems] by blast
  show ?case
  proof (cases n)
    case None
    with q show ?thesis by (subst service_ring.simps) simp
  next
    case (Some a)
    have IH: "\<exists>weight' st'. service_ring cf ol a np' weight1 st1 = Some (weight', st') \<and> charged weight weight'" for np'
      using less.hyps[of weight1 a np' st1] q Some charged_ok[OF q(2)] charged_trans[OF q(2)] by blast
    show ?thesis
      by (subst service_ring.simps) (use q Some IH in auto)
  qed
qed

section \<open>A runtime for the examples\<close>

text \<open>The processor charges as many units as the first byte of the message says.\<close>

definition counting_processor ::
  "('o, unit) mq \<Rightarrow> bytes \<Rightarrow> 'o \<Rightarrow> WeightMeter \<Rightarrow> bytes \<Rightarrow> ('o, unit) ProcessOutcome" where
  "counting_processor st message origin weight msg_id =
     (let w = from_parts (case message of [] \<Rightarrow> 0 | b # _ \<Rightarrow> word_of_int (uint b)) 0
      in case try_consume weight w of
           Inl _ \<Rightarrow> \<lparr>po_result = Inl (Overweight_error w), po_meter = weight, po_id = msg_id, po_calls = [], po_env = ()\<rparr>
         | Inr weight \<Rightarrow> \<lparr>po_result = Inr True, po_meter = weight, po_id = msg_id, po_calls = [], po_env = ()\<rparr>)"

definition counting_config :: "('o, unit) mq_config" where
  "counting_config = \<lparr>item_codec_of = fixed_codec, HeapSize = 24, MaxStale = 2,
     ServiceWeight = Some (from_parts 100 100), IdleMaxServiceWeight = None, blake2_256 = (\<lambda>m. m),
     process_message = counting_processor, is_paused = (\<lambda>_ _. False), on_queue_changed = (\<lambda>_ _ x. x),
     w_bump_service_head = from_all 1, w_service_queue_base = from_all 1,
     w_service_page_base_completion = from_all 1, w_service_page_base_no_completion = from_all 1,
     w_service_page_item = from_all 1, w_ready_ring_unknit = from_all 1,
     w_execute_overweight_page_removed = from_all 1, w_execute_overweight_page_updated = from_all 1\<rparr>"

definition empty_mq :: "('o, unit) mq" where
  "empty_mq = \<lparr>books = (\<lambda>_. None), service_head = None, pages = (\<lambda>_. None), mutex_held = False, events = [],
     env = ()\<rparr>"

lemma counting_respects_meter: "respects_meter counting_config"
  by (auto simp: respects_meter_def counting_config_def counting_processor_def charged_refl Let_def
      try_consume_charged split: sum.splits)

lemma counting_positive_weights: "positive_weights counting_config"
  by (simp add: positive_weights_def counting_config_def from_all_def weight_zero_def)

section \<open>Properties\<close>

text \<open>C13: Servicing the queues always returns, for any state of the pallet and any processor that respects its
  meter, and what it reports as consumed is within the given limit in both components. The three nested
  loops end because each round of them charges a weight, and the weights of these steps are assumed not to be zero.\<close>

theorem service_queues_returns_within_limit:
  assumes "respects_meter cf" "positive_weights cf"
  shows "\<exists>w st'. service_queues cf weight_limit st = Some (w, st') \<and> all_lte w weight_limit"
proof (cases "mutex_held st")
  case True
  then show ?thesis
    by (simp add: service_queues_def with_service_mutex_def meter_with_limit_def Let_def)
next
  case False
  obtain n weight st1 where bump: "bump_service_head (w_bump_service_head cf) (meter_with_limit weight_limit)
      (st\<lparr>mutex_held := True\<rparr>) = (n, weight, st1)" using prod_cases3 by blast
  have c: "charged (meter_with_limit weight_limit) weight"
    using bump try_consume_charged
    by (auto simp: bump_service_head_def charged_refl split: sum.splits option.splits)
  have lte: "all_lte (consumed w) weight_limit" if "charged (meter_with_limit weight_limit) w" for w
    using that by (auto simp: charged_def meter_ok_def)
  show ?thesis
  proof (cases n)
    case None
    with False bump lte[OF c] show ?thesis
      by (simp add: service_queues_def with_service_mutex_def Let_def)
  next
    case (Some a)
    obtain weight' st' where "service_ring cf (case max_message_weight cf weight_limit of Some w \<Rightarrow> w |
        None \<Rightarrow> weight_zero) a None weight st1 = Some (weight', st')" "charged weight weight'"
      using ring_returns[OF assms charged_ok[OF c]] by blast
    with False bump Some lte[OF charged_trans[OF c]] show ?thesis
      by (simp add: service_queues_def with_service_mutex_def Let_def)
  qed
qed

theorem service_queues_returns_within_limit_witness:
  "respects_meter (counting_config :: (nat, unit) mq_config) \<and>
   positive_weights (counting_config :: (nat, unit) mq_config) \<and>
   (\<exists>w st'. service_queues counting_config (from_parts 40 40)
      (enqueue_message counting_config [3] (7 :: nat) (enqueue_message counting_config [99] 8 empty_mq)) = Some (w, st') \<and>
    all_lte w (from_parts 40 40) \<and> w = from_parts 15 12)"
proof -
  have "map_option fst (service_queues counting_config (from_parts 40 40)
      (enqueue_message counting_config [3] (7 :: nat) (enqueue_message counting_config [99] 8 empty_mq))) =
    Some (from_parts 15 12)" by code_simp
  with service_queues_returns_within_limit[OF counting_respects_meter counting_positive_weights,
      of "from_parts 40 40" "enqueue_message counting_config [3] (7 :: nat) (enqueue_message counting_config [99] 8 empty_mq)"]
  show ?thesis using counting_respects_meter counting_positive_weights by auto
qed

end
