(* ===== verification/MQ_Invariant.thy ===== *)
theory MQ_Invariant
  imports MQ_Service
begin

text \<open>
  The invariant of the message queue pallet and the abstract view of its queues. A page is read back as the
  list of its items, a queue as the messages of its ready pages from the cursor on. The invariant says that
  the ring lists exactly the queues with ready pages, that the pages of a book are the ones its indices say,
  and that the counters of a book (pages, messages, bytes) are the sums over its pages. Enqueueing,
  sweeping, servicing, executing overweight messages and reaping keep it.

  Page indices are 32 bits wide and only grow; a queue whose last index has been reached is exhausted, and
  the statements are about states that are not.
\<close>

section \<open>Definitions\<close>

text \<open>The items of a heap.\<close>

fun parse_items :: "ItemCodec \<Rightarrow> nat \<Rightarrow> bytes \<Rightarrow> item list" where
  "parse_items c 0 bs = []"
| "parse_items c (Suc n) bs = (if bs = [] then [] else case ic_decode c bs of None \<Rightarrow> []
     | Some (h, rest) \<Rightarrow> if length rest < unat (payload_len h) then []
         else (is_processed h, take (unat (payload_len h)) rest) #
           parse_items c n (drop (unat (payload_len h)) rest))"

definition items_of :: "ItemCodec \<Rightarrow> Page \<Rightarrow> item list" where
  "items_of c pg = parse_items c (length (heap pg)) (heap pg)"

definition ready_items :: "ItemCodec \<Rightarrow> Page \<Rightarrow> item list" where
  "ready_items c pg = drop (unat (first_index pg)) (items_of c pg)"

definition page_ok :: "('o, 'x) mq_config \<Rightarrow> Page \<Rightarrow> bool" where
  "page_ok cf pg \<longleftrightarrow> page_repr (item_codec_of cf) (HeapSize cf) (items_of (item_codec_of cf) pg)
     (unat (first_index pg)) pg"

text \<open>No message behind the cursor's position has been processed out of turn.\<close>

definition in_turn :: "('o, 'x) mq_config \<Rightarrow> Page \<Rightarrow> bool" where
  "in_turn cf pg \<longleftrightarrow> (\<forall>x\<in>set (ready_items (item_codec_of cf) pg). \<not> fst x)"

definition page_map :: "('o, 'x) mq \<Rightarrow> 'o \<Rightarrow> u32 \<Rightarrow> Page option" where
  "page_map st o' i = pages st (o', i)"

text \<open>A sum over the pages of a queue.\<close>

definition page_val :: "(Page \<Rightarrow> nat) \<Rightarrow> Page option \<Rightarrow> nat" where
  "page_val g p = (case p of None \<Rightarrow> 0 | Some pg \<Rightarrow> g pg)"

definition page_sum :: "(Page \<Rightarrow> nat) \<Rightarrow> (u32 \<Rightarrow> Page option) \<Rightarrow> nat" where
  "page_sum g P = (\<Sum>i\<in>UNIV. page_val g (P i))"

definition book_ok :: "('o, 'x) mq_config \<Rightarrow> 'o BookState \<Rightarrow> (u32 \<Rightarrow> Page option) \<Rightarrow> bool" where
  "book_ok cf b P \<longleftrightarrow> bk_begin b \<le> bk_end b \<and>
     (\<forall>i pg. P i = Some pg \<longrightarrow> i < bk_end b \<and> page_ok cf pg) \<and>
     (\<forall>i. bk_begin b \<le> i \<longrightarrow> i < bk_end b \<longrightarrow> (\<exists>pg. P i = Some pg \<and> in_turn cf pg \<and>
        (i \<noteq> bk_begin b \<longrightarrow> ready_items (item_codec_of cf) pg \<noteq> []))) \<and>
     unat (bk_count b) = page_sum (\<lambda>_. 1) P \<and>
     unat (message_count b) = page_sum (\<lambda>pg. unat (remaining pg)) P \<and>
     unat (bk_size b) = page_sum (\<lambda>pg. unat (pg_remaining_size pg)) P"

text \<open>The first ready page has messages left. They may all be overweight ones that were skipped: the cursor of
  that page can be at its end until the queue is served again.\<close>

definition front_ok :: "'o BookState \<Rightarrow> (u32 \<Rightarrow> Page option) \<Rightarrow> bool" where
  "front_ok b P \<longleftrightarrow> (bk_begin b < bk_end b \<longrightarrow>
     (\<forall>pg. P (bk_begin b) = Some pg \<longrightarrow> \<not> is_complete pg))"

text \<open>The invariant of the pallet; the queues of \<open>S\<close> are being served, and their first page may be
  complete.\<close>

definition mq_inv :: "('o, 'x) mq_config \<Rightarrow> 'o set \<Rightarrow> ('o, 'x) mq \<Rightarrow> bool" where
  "mq_inv cf S st \<longleftrightarrow> (\<exists>r. ring st r \<and>
     (\<forall>a. (a \<in> set r \<longleftrightarrow> bk_begin (get_book st a) < bk_end (get_book st a)) \<and>
        book_ok cf (get_book st a) (page_map st a) \<and>
        (a \<notin> S \<longrightarrow> front_ok (get_book st a) (page_map st a))))"

text \<open>The messages that wait in a page from its cursor on, and in the ready pages of a queue.\<close>

definition page_msgs :: "ItemCodec \<Rightarrow> Page option \<Rightarrow> bytes list" where
  "page_msgs c p = (case p of None \<Rightarrow> [] | Some pg \<Rightarrow> map snd (ready_items c pg))"

definition msgs_range :: "ItemCodec \<Rightarrow> (u32 \<Rightarrow> Page option) \<Rightarrow> nat \<Rightarrow> nat \<Rightarrow> bytes list" where
  "msgs_range c P i j = concat (map (\<lambda>k. page_msgs c (P (of_nat k))) [i..<j])"

definition waiting :: "ItemCodec \<Rightarrow> 'o BookState \<Rightarrow> (u32 \<Rightarrow> Page option) \<Rightarrow> bytes list" where
  "waiting c b P = msgs_range c P (unat (bk_begin b)) (unat (bk_end b))"

definition queue_of :: "('o, 'x) mq_config \<Rightarrow> ('o, 'x) mq \<Rightarrow> 'o \<Rightarrow> bytes list" where
  "queue_of cf st o' = waiting (item_codec_of cf) (get_book st o') (page_map st o')"

definition exhausted :: "('o, 'x) mq \<Rightarrow> bool" where
  "exhausted st \<longleftrightarrow> (\<exists>a. bk_end (get_book st a) = umax)"

section \<open>Pages\<close>

context item_codec
begin

lemma parse_heap:
  "\<lbrakk>\<And>j. j < length items \<Longrightarrow> length (snd (items ! j)) < 2 ^ 32; length items \<le> n\<rbrakk> \<Longrightarrow>
    parse_items c n (heap_of c items) = items"
proof (induction items arbitrary: n)
  case (Cons x xs)
  then obtain k where n: "n = Suc k" by (cases n) auto
  have "parse_items c k (heap_of c xs) = xs"
    using Cons.prems(1)[of "Suc _"] Cons.prems(2) by (intro Cons.IH) (auto simp: n)
  moreover have "item_bytes c (fst x) (snd x) \<noteq> []"
    using header_len(1) item_bytes_length[of "fst x" "snd x"] by (auto simp del: item_bytes_length)
  ultimately show ?case
    using Cons.prems(1)[of 0] by (simp add: n saturated_from_exact)
next
  case Nil
  then show ?case by (cases n) auto
qed

lemma repr_items:
  assumes "page_repr c heap_size items fi pg"
  shows "items_of c pg = items" "ready_items c pg = drop fi items" "unat (first_index pg) = fi"
proof -
  show "items_of c pg = items"
    using assms parse_heap[OF repr_bounds(5)[OF assms] items_le_heap]
    by (simp add: items_of_def page_repr_def)
  then show "ready_items c pg = drop fi items" "unat (first_index pg) = fi"
    using assms by (auto simp: ready_items_def page_repr_def)
qed

end

section \<open>Sums over pages\<close>

lemma page_sum_upd: "page_sum g (P(i := x)) + page_val g (P i) = page_sum g P + page_val g x"
proof -
  have "page_sum g (P(i := x)) = page_val g x + (\<Sum>j\<in>UNIV - {i}. page_val g (P j))"
    unfolding page_sum_def by (subst sum.remove[of UNIV i]) (auto intro!: sum.cong)
  moreover have "page_sum g P = page_val g (P i) + (\<Sum>j\<in>UNIV - {i}. page_val g (P j))"
    unfolding page_sum_def by (rule sum.remove) auto
  ultimately show ?thesis by simp
qed

lemma page_val_simps [simp]: "page_val g None = 0" "page_val g (Some pg) = g pg"
  by (simp_all add: page_val_def)

lemma page_sum_le: "page_val g (P i) \<le> page_sum g P"
  unfolding page_sum_def by (rule member_le_sum) auto

lemma page_sum_bound:
  assumes "\<And>pg. g pg < 2 ^ 32"
  shows "page_sum g P < 2 ^ 64"
proof -
  have "page_val g (P i) \<le> 2 ^ 32 - 1" for i
    using assms by (cases "P i") (auto simp: less_eq_Suc_le dest: spec)
  then have "page_sum g P \<le> card (UNIV :: u32 set) * (2 ^ 32 - 1)"
    unfolding page_sum_def using sum_bounded_above[of UNIV "\<lambda>i. page_val g (P i)" "2 ^ 32 - 1"] by simp
  also have "card (UNIV :: u32 set) = 2 ^ 32" by (simp add: card_word)
  finally show ?thesis by simp
qed

lemma drop_eq_ConsD: "drop i xs = y # ys \<Longrightarrow> i < length xs \<and> xs ! i = y \<and> drop (Suc i) xs = ys"
  by (metis Cons_nth_drop_Suc drop_eq_Nil2 list.inject list.simps(3) not_le)

section \<open>The runtime's codec\<close>

text \<open>What the pallet asks of its configuration: a header codec.\<close>

locale mq_codec =
  fixes cf :: "('o, 'x) mq_config"
  assumes codec: "item_codec (item_codec_of cf)"

sublocale mq_codec \<subseteq> cd: item_codec "item_codec_of cf"
  by (rule codec)

interpretation counting: mq_codec counting_config
  by (rule mq_codec.intro) (simp add: counting_config_def fixed.item_codec_axioms)

context mq_codec
begin

lemma okI: "page_repr (item_codec_of cf) (HeapSize cf) items fi pg \<Longrightarrow> page_ok cf pg"
  using cd.repr_items[of "HeapSize cf" items fi pg] by (simp add: page_ok_def)

lemma ok_counts:
  assumes "page_ok cf pg"
  shows "unat (remaining pg) = length (left_of (items_of (item_codec_of cf) pg))"
    "unat (pg_remaining_size pg) = left_size (items_of (item_codec_of cf) pg)"
  using assms by (auto simp: page_ok_def page_repr_def)

lemma ok_from_message:
  assumes "ic_max_encoded_len (item_codec_of cf) + length m \<le> unat (HeapSize cf)"
  shows "page_ok cf (from_message (item_codec_of cf) (HeapSize cf) m)"
    "ready_items (item_codec_of cf) (from_message (item_codec_of cf) (HeapSize cf) m) = [(False, m)]"
    "unat (remaining (from_message (item_codec_of cf) (HeapSize cf) m)) = 1"
    "unat (pg_remaining_size (from_message (item_codec_of cf) (HeapSize cf) m)) = length m"
proof -
  note r = cd.from_message_repr[OF assms]
  show "page_ok cf (from_message (item_codec_of cf) (HeapSize cf) m)" by (rule okI[OF r])
  show "ready_items (item_codec_of cf) (from_message (item_codec_of cf) (HeapSize cf) m) = [(False, m)]"
    using cd.repr_items[OF r] by simp
  show "unat (remaining (from_message (item_codec_of cf) (HeapSize cf) m)) = 1"
    "unat (pg_remaining_size (from_message (item_codec_of cf) (HeapSize cf) m)) = length m"
    using r by (auto simp: page_repr_def)
qed

lemma ok_append:
  assumes ok: "page_ok cf pg" and app: "try_append_message (item_codec_of cf) (HeapSize cf) m pg = Inr pg'"
  shows "page_ok cf pg'" "ready_items (item_codec_of cf) pg' = ready_items (item_codec_of cf) pg @ [(False, m)]"
    "unat (remaining pg') = Suc (unat (remaining pg))"
    "unat (pg_remaining_size pg') = unat (pg_remaining_size pg) + length m"
proof -
  let ?items = "items_of (item_codec_of cf) pg"
  note r = ok[unfolded page_ok_def]
  have fit: "length (heap_of (item_codec_of cf) ?items) + ic_max_encoded_len (item_codec_of cf) + length m
      \<le> unat (HeapSize cf)"
    using cd.try_append_repr(2)[OF r, of m] app by force
  then have r': "page_repr (item_codec_of cf) (HeapSize cf) (?items @ [(False, m)]) (unat (first_index pg)) pg'"
    using cd.try_append_repr(1)[OF r fit] app by auto
  have "unat (first_index pg) \<le> length ?items" using r by (simp add: page_repr_def)
  then show "ready_items (item_codec_of cf) pg' = ready_items (item_codec_of cf) pg @ [(False, m)]"
    using cd.repr_items(2)[OF r'] by (simp add: ready_items_def)
  show "page_ok cf pg'" by (rule okI[OF r'])
  show "unat (remaining pg') = Suc (unat (remaining pg))"
    "unat (pg_remaining_size pg') = unat (pg_remaining_size pg) + length m"
    using r r' by (auto simp: page_repr_def)
qed

lemma ok_peek:
  assumes "page_ok cf pg"
  shows "peek_first (item_codec_of cf) pg =
    (case ready_items (item_codec_of cf) pg of [] \<Rightarrow> None | x # _ \<Rightarrow> Some (snd x))"
proof (cases "ready_items (item_codec_of cf) pg")
  case Nil
  then show ?thesis
    using cd.peek_first_repr[OF assms[unfolded page_ok_def]] by (simp add: ready_items_def)
next
  case (Cons x xs)
  with drop_eq_ConsD[OF Cons[unfolded ready_items_def]] show ?thesis
    using cd.peek_first_repr[OF assms[unfolded page_ok_def]] by simp
qed

lemma ok_skip:
  assumes ok: "page_ok cf pg" and ready: "ready_items (item_codec_of cf) pg = (False, m) # xs"
  shows "page_ok cf (skip_first (item_codec_of cf) p pg)"
    "ready_items (item_codec_of cf) (skip_first (item_codec_of cf) p pg) = xs"
    "unat (remaining pg) = unat (remaining (skip_first (item_codec_of cf) p pg)) + (if p then 1 else 0)"
    "unat (pg_remaining_size pg) =
       unat (pg_remaining_size (skip_first (item_codec_of cf) p pg)) + (if p then length m else 0)"
proof -
  let ?items = "items_of (item_codec_of cf) pg" and ?fi = "unat (first_index pg)"
  note r = ok[unfolded page_ok_def]
  have fi: "?fi < length ?items" and it: "?items ! ?fi = (False, m)" and xs: "drop (Suc ?fi) ?items = xs"
    using drop_eq_ConsD[OF ready[unfolded ready_items_def]] by simp_all
  let ?items' = "if p then ?items[?fi := (True, snd (?items ! ?fi))] else ?items"
  have r': "page_repr (item_codec_of cf) (HeapSize cf) ?items' (Suc ?fi) (skip_first (item_codec_of cf) p pg)"
    by (rule cd.skip_first_repr[OF r fi])
  show ok': "page_ok cf (skip_first (item_codec_of cf) p pg)" by (rule okI[OF r'])
  show "ready_items (item_codec_of cf) (skip_first (item_codec_of cf) p pg) = xs"
    using cd.repr_items(2)[OF r'] xs by simp
  show "unat (remaining pg) = unat (remaining (skip_first (item_codec_of cf) p pg)) + (if p then 1 else 0)"
    "unat (pg_remaining_size pg) =
       unat (pg_remaining_size (skip_first (item_codec_of cf) p pg)) + (if p then length m else 0)"
    using left_upd(1,2)[OF fi, of m] left_upd(3)[OF fi] it
    by (auto simp: ok_counts[OF ok] ok_counts[OF ok'] cd.repr_items(1)[OF r'])
qed

lemma ok_note:
  assumes ok: "page_ok cf pg" and peek: "peek_index (item_codec_of cf) i pg = Some (pos, False, m)"
    and i: "i < length (items_of (item_codec_of cf) pg)"
  shows "page_ok cf (note_processed_at_pos (item_codec_of cf) pos pg)"
    "i < unat (first_index pg) \<Longrightarrow> ready_items (item_codec_of cf) (note_processed_at_pos (item_codec_of cf) pos pg) =
      ready_items (item_codec_of cf) pg"
    "unat (remaining pg) = Suc (unat (remaining (note_processed_at_pos (item_codec_of cf) pos pg)))"
    "unat (pg_remaining_size pg) =
       unat (pg_remaining_size (note_processed_at_pos (item_codec_of cf) pos pg)) + length m"
proof -
  let ?items = "items_of (item_codec_of cf) pg"
  note r = ok[unfolded page_ok_def]
  have it: "pos = offset (item_codec_of cf) ?items i" "?items ! i = (False, m)"
    using cd.peek_index_repr[OF r i] peek by auto
  note r' = cd.note_processed_repr[OF r i, folded it(1)]
  show ok': "page_ok cf (note_processed_at_pos (item_codec_of cf) pos pg)" by (rule okI[OF r'])
  show "ready_items (item_codec_of cf) (note_processed_at_pos (item_codec_of cf) pos pg) =
      ready_items (item_codec_of cf) pg" if "i < unat (first_index pg)"
    using cd.repr_items(2)[OF r'] that by (simp add: ready_items_def)
  show "unat (remaining pg) = Suc (unat (remaining (note_processed_at_pos (item_codec_of cf) pos pg)))"
    "unat (pg_remaining_size pg) =
       unat (pg_remaining_size (note_processed_at_pos (item_codec_of cf) pos pg)) + length m"
    using left_upd(1,2)[OF i, of m] left_upd(3)[OF i] it(2)
    by (auto simp: ok_counts[OF ok] ok_counts[OF ok'] cd.repr_items(1)[OF r'])
qed

lemma ok_complete:
  assumes "page_ok cf pg" "in_turn cf pg" "is_complete pg"
  shows "ready_items (item_codec_of cf) pg = []"
proof (cases "ready_items (item_codec_of cf) pg")
  case (Cons x xs)
  then have "x \<in> set (items_of (item_codec_of cf) pg)" unfolding ready_items_def
    by (metis in_set_dropD list.set_intros(1))
  then show ?thesis
    using assms(2,3) cd.is_complete_repr[OF assms(1)[unfolded page_ok_def]] Cons by (simp add: in_turn_def)
qed

end

section \<open>Books\<close>

lemma sum_add:
  assumes "unat (x :: u64) = page_sum g P" "\<And>pg. g pg < 2 ^ 32" "page_val g (P i) + d = g pg"
  shows "unat (saturating_add x (of_nat d)) = page_sum g (P(i \<mapsto> pg))"
proof -
  have sum: "page_sum g (P(i \<mapsto> pg)) = page_sum g P + d"
    using page_sum_upd[of g P i "Some pg"] assms(3) by simp
  have b: "page_sum g (P(i \<mapsto> pg)) < 2 ^ 64" by (rule page_sum_bound[OF assms(2)])
  moreover have "d < 2 ^ 64" using b sum by simp
  ultimately show ?thesis using sum assms(1) by (simp add: unat_saturating_add unat_of_nat)
qed

lemma sum_sub:
  assumes "unat (x :: u64) = page_sum g P" "\<And>pg. g pg < 2 ^ 32" "page_val g (P i) = page_val g p + d"
  shows "unat (saturating_sub x (of_nat d)) = page_sum g (P(i := p))"
proof -
  have "page_sum g P < 2 ^ 64" by (rule page_sum_bound[OF assms(2)])
  moreover have "d \<le> page_sum g P" using page_sum_le[of g P i] assms(3) by simp
  ultimately have "d < 2 ^ 64" by simp
  then show ?thesis
    using page_sum_upd[of g P i p] assms(1,3) by (simp add: unat_saturating_sub unat_of_nat)
qed

lemma page_count_le:
  assumes "\<And>i pg. P i = Some pg \<Longrightarrow> i < e"
  shows "page_sum (\<lambda>_. 1) P \<le> unat (e :: u32)"
proof -
  have "page_sum (\<lambda>_. 1) P = (\<Sum>i\<in>UNIV. if i \<in> dom P then 1 else 0)"
    unfolding page_sum_def by (rule sum.cong) (auto simp: page_val_def split: option.split)
  also have "\<dots> = card (dom P)" by (subst sum.If_cases) simp_all
  also have "\<dots> \<le> card {..<e}" using assms by (intro card_mono) auto
  also have "\<dots> = card (unat ` {..<e})" by (rule card_image[symmetric]) (simp add: inj_on_def word_unat_eq_iff)
  also have "\<dots> \<le> card {..<unat e}" by (intro card_mono) (auto simp: word_less_nat_alt)
  finally show ?thesis by simp
qed

lemma unat_lt32: "unat (x :: u32) < 2 ^ 32"
  using unat_bound[of x] by simp

lemma saturating_inc_word: "x \<noteq> umax \<Longrightarrow> unat (saturating_inc (x :: u32)) = Suc (unat x)"
  using unat_lt32[of x] by (auto simp: unat_saturating_inc word_unat_eq_iff unat_umax)

lemma pred_word: "x < y \<Longrightarrow> unat (y - 1 :: u32) = unat y - 1 \<and> y - 1 < y \<and> x \<le> y - 1"
  by (auto simp: word_less_nat_alt word_le_nat_alt unat_minus_exact Suc_le_eq)

lemma waiting_snoc:
  assumes "bk_begin b < bk_end b"
  shows "waiting c b P = msgs_range c P (unat (bk_begin b)) (unat (bk_end b) - 1) @
    page_msgs c (P (bk_end b - 1))"
proof -
  have "unat (bk_end b) = Suc (unat (bk_end b) - 1)" "unat (bk_begin b) \<le> unat (bk_end b) - 1"
    using assms by (auto simp: word_less_nat_alt)
  moreover have "(of_nat (unat (bk_end b) - 1) :: u32) = bk_end b - 1"
    using pred_word[OF assms] unat_lt32[of "bk_end b"] by (simp add: word_unat_eq_iff unat_of_nat)
  ultimately have "[unat (bk_begin b)..<unat (bk_end b)] = [unat (bk_begin b)..<unat (bk_end b) - 1] @ [unat (bk_end b) - 1]"
    "(of_nat (unat (bk_end b) - 1) :: u32) = bk_end b - 1"
    using upt_Suc_append[of "unat (bk_begin b)" "unat (bk_end b) - 1"] by simp_all
  then show ?thesis unfolding waiting_def msgs_range_def by simp
qed

lemma msgs_range_cong:
  assumes "\<And>i :: u32. a \<le> unat i \<Longrightarrow> unat i < n \<Longrightarrow> page_msgs c (P' i) = page_msgs c (P i)" "n \<le> 2 ^ 32"
  shows "msgs_range c P' a n = msgs_range c P a n"
proof -
  have "page_msgs c (P' (of_nat k)) = page_msgs c (P (of_nat k))" if "k \<in> set [a..<n]" for k
    using that assms(2) by (intro assms(1)) (auto simp: unat_of_nat)
  then show ?thesis unfolding msgs_range_def by (metis (no_types, lifting) map_cong)
qed

lemma pages_before: "msgs_range c (P(j := x)) a (unat j) = msgs_range c P a (unat (j :: u32))"
  using unat_lt32[of j] by (intro msgs_range_cong) auto

lemma waiting_cong:
  assumes "bk_begin b' = bk_begin b" "bk_end b' = bk_end b"
    and "\<And>i. bk_begin b \<le> i \<Longrightarrow> i < bk_end b \<Longrightarrow> page_msgs c (P' i) = page_msgs c (P i)"
  shows "waiting c b' P' = waiting c b P"
  using assms unat_lt32[of "bk_end b"] unfolding waiting_def
  by (auto intro!: msgs_range_cong simp: word_less_nat_alt word_le_nat_alt)

context mq_codec
begin

lemmas counter_bounds = unat_lt32

lemma book_append:
  assumes b: "book_ok cf b P" "bk_begin b < bk_end b" "P (bk_end b - 1) = Some pg"
    and app: "try_append_message (item_codec_of cf) (HeapSize cf) m pg = Inr pg'"
    and b': "bk_begin b' = bk_begin b" "bk_end b' = bk_end b" "bk_count b' = bk_count b"
      "message_count b' = saturating_inc (message_count b)"
      "bk_size b' = saturating_add (bk_size b) (of_nat (length m))"
  shows "book_ok cf b' (P(bk_end b - 1 \<mapsto> pg'))"
    "waiting (item_codec_of cf) b' (P(bk_end b - 1 \<mapsto> pg')) = waiting (item_codec_of cf) b P @ [m]"
    "ready_items (item_codec_of cf) pg' = ready_items (item_codec_of cf) pg @ [(False, m)]"
proof -
  have ok: "page_ok cf pg" and turn: "in_turn cf pg"
    using b pred_word[OF b(2)] by (auto simp: book_ok_def)
  note app' = ok_append[OF ok app]
  show "ready_items (item_codec_of cf) pg' = ready_items (item_codec_of cf) pg @ [(False, m)]" by (rule app'(2))
  have counts: "unat (bk_count b') = page_sum (\<lambda>_. 1) (P(bk_end b - 1 \<mapsto> pg'))"
    "unat (message_count b') = page_sum (\<lambda>pg. unat (remaining pg)) (P(bk_end b - 1 \<mapsto> pg'))"
    "unat (bk_size b') = page_sum (\<lambda>pg. unat (pg_remaining_size pg)) (P(bk_end b - 1 \<mapsto> pg'))"
    using b page_sum_upd[of "\<lambda>_. 1" P "bk_end b - 1" "Some pg'"] app'(3,4)
      sum_add[of "message_count b" "\<lambda>pg. unat (remaining pg)" P "bk_end b - 1" 1 pg'] unat_lt32
      sum_add[of "bk_size b" "\<lambda>pg. unat (pg_remaining_size pg)" P "bk_end b - 1" "length m" pg']
    by (simp_all add: book_ok_def b' saturating_inc_def)
  show "book_ok cf b' (P(bk_end b - 1 \<mapsto> pg'))"
    using b counts app'(1,2) turn pred_word[OF b(2)] unfolding book_ok_def
    by (auto simp: b' in_turn_def)
  show "waiting (item_codec_of cf) b' (P(bk_end b - 1 \<mapsto> pg')) = waiting (item_codec_of cf) b P @ [m]"
    using b(2,3) app'(2) pred_word[OF b(2)]
      pages_before[of "item_codec_of cf" P "bk_end b - 1" "Some pg'" "unat (bk_begin b)"]
    by (simp add: waiting_snoc[of b] waiting_snoc[of b'] b' page_msgs_def[of _ "Some _"])
qed

lemma book_link:
  assumes b: "book_ok cf b P" "bk_end b \<noteq> umax"
    and fit: "ic_max_encoded_len (item_codec_of cf) + length m \<le> unat (HeapSize cf)"
    and pg: "pg = from_message (item_codec_of cf) (HeapSize cf) m"
    and b': "bk_begin b' = bk_begin b" "bk_end b' = saturating_inc (bk_end b)" "bk_count b' = saturating_inc (bk_count b)"
      "message_count b' = saturating_inc (message_count b)"
      "bk_size b' = saturating_add (bk_size b) (of_nat (length m))"
  shows "book_ok cf b' (P(bk_end b \<mapsto> pg))"
    "waiting (item_codec_of cf) b' (P(bk_end b \<mapsto> pg)) = waiting (item_codec_of cf) b P @ [m]"
    "bk_end b' - 1 = bk_end b" "bk_begin b < bk_end b'" "P (bk_end b) = None"
    "ready_items (item_codec_of cf) pg = [(False, m)]"
proof -
  note new = ok_from_message[OF fit, folded pg]
  have e: "unat (bk_end b') = Suc (unat (bk_end b))" using saturating_inc_word[OF b(2)] b' by simp
  show none: "P (bk_end b) = None"
    using b(1) by (cases "P (bk_end b)") (auto simp: book_ok_def)
  show lt: "bk_begin b < bk_end b'"
    using b(1) e by (simp add: book_ok_def word_less_nat_alt word_le_nat_alt)
  show pred: "bk_end b' - 1 = bk_end b"
    using pred_word[OF lt] e by (simp add: word_unat_eq_iff)
  show "ready_items (item_codec_of cf) pg = [(False, m)]" by (rule new(2))
  have cnt: "page_sum (\<lambda>_. 1) P \<le> unat (bk_end b)"
    using b(1) by (intro page_count_le) (auto simp: book_ok_def)
  have ne: "bk_count b \<noteq> umax"
    using cnt b(1) e unat_lt32[of "bk_end b'"] by (auto simp: book_ok_def unat_umax)
  have counts: "unat (bk_count b') = page_sum (\<lambda>_. 1) (P(bk_end b \<mapsto> pg))"
    "unat (message_count b') = page_sum (\<lambda>pg. unat (remaining pg)) (P(bk_end b \<mapsto> pg))"
    "unat (bk_size b') = page_sum (\<lambda>pg. unat (pg_remaining_size pg)) (P(bk_end b \<mapsto> pg))"
    using b(1) none new(3,4) page_sum_upd[of "\<lambda>_. 1" P "bk_end b" "Some pg"] saturating_inc_word[OF ne]
      sum_add[of "message_count b" "\<lambda>pg. unat (remaining pg)" P "bk_end b" 1 pg] unat_lt32
      sum_add[of "bk_size b" "\<lambda>pg. unat (pg_remaining_size pg)" P "bk_end b" "length m" pg]
    by (simp_all add: book_ok_def b' saturating_inc_def)
  have split: "i < bk_end b' \<longleftrightarrow> i < bk_end b \<or> i = bk_end b" for i
    using e by (auto simp: word_less_nat_alt word_unat_eq_iff)
  show "book_ok cf b' (P(bk_end b \<mapsto> pg))"
    using b(1) counts new(1,2) lt unfolding book_ok_def
    by (auto simp: b'(1) split in_turn_def word_le_less_eq)
  show "waiting (item_codec_of cf) b' (P(bk_end b \<mapsto> pg)) = waiting (item_codec_of cf) b P @ [m]"
    using lt new(2) pred e pages_before[of "item_codec_of cf" P "bk_end b" "Some pg" "unat (bk_begin b)"]
    by (simp add: waiting_snoc[of b'] b'(1) page_msgs_def[of _ "Some _"]) (simp add: waiting_def)
qed

end

end
