(* ===== verification/MQ_Enqueue.thy ===== *)
theory MQ_Enqueue
  imports MQ_Invariant
begin

text \<open>
  Enqueueing and sweeping. A message that is enqueued is appended to its queue and to no other, and the
  invariant of the message queue pallet is kept; sweeping empties a queue. Both may happen while another
  message is being processed, so the lemmas also say what they leave of a queue that is being served.
\<close>

section \<open>Definitions\<close>

definition fits_page :: "('o, 'x) mq_config \<Rightarrow> bytes \<Rightarrow> bool" where
  "fits_page cf m \<longleftrightarrow> ic_max_encoded_len (item_codec_of cf) + length m \<le> unat (HeapSize cf)"

definition ends_mono :: "('o, 'x) mq \<Rightarrow> ('o, 'x) mq \<Rightarrow> bool" where
  "ends_mono st st' \<longleftrightarrow> (\<forall>a. bk_end (get_book st a) \<le> bk_end (get_book st' a))"

text \<open>The queue of \<open>a\<close> has its pages, possibly with further messages behind the ones it had.\<close>

definition grown :: "('o, 'x) mq_config \<Rightarrow> 'o \<Rightarrow> ('o, 'x) mq \<Rightarrow> ('o, 'x) mq \<Rightarrow> bool" where
  "grown cf a st st' \<longleftrightarrow> bk_begin (get_book st' a) = bk_begin (get_book st a) \<and>
     bk_end (get_book st a) \<le> bk_end (get_book st' a) \<and>
     (\<exists>more. queue_of cf st' a = queue_of cf st a @ more) \<and>
     (\<forall>i pg. page_map st a i = Some pg \<longrightarrow> (\<exists>pg' more. page_map st' a i = Some pg' \<and>
        ready_items (item_codec_of cf) pg' = ready_items (item_codec_of cf) pg @ more))"

lemma ends_mono_refl [simp]: "ends_mono st st"
  by (simp add: ends_mono_def)

lemma ends_mono_trans: "ends_mono a b \<Longrightarrow> ends_mono b c \<Longrightarrow> ends_mono a c"
  unfolding ends_mono_def by (meson order_trans)

lemma ends_mono_exhausted: "ends_mono st st' \<Longrightarrow> exhausted st \<Longrightarrow> exhausted st'"
  unfolding ends_mono_def exhausted_def by (metis umax_le_iff)

lemma grown_refl [simp]: "grown cf a st st"
  by (simp add: grown_def)

lemma grown_trans:
  assumes "grown cf a st st'" "grown cf a st' st''"
  shows "grown cf a st st''"
proof -
  have "\<exists>pg'' more. page_map st'' a i = Some pg'' \<and>
      ready_items (item_codec_of cf) pg'' = ready_items (item_codec_of cf) pg @ more"
    if pg: "page_map st a i = Some pg" for i pg
  proof -
    obtain pg' more where "page_map st' a i = Some pg'"
      "ready_items (item_codec_of cf) pg' = ready_items (item_codec_of cf) pg @ more"
      using assms(1) pg unfolding grown_def by blast
    moreover from this(1) obtain pg'' more' where "page_map st'' a i = Some pg''"
      "ready_items (item_codec_of cf) pg'' = ready_items (item_codec_of cf) pg' @ more'"
      using assms(2) unfolding grown_def by blast
    ultimately show ?thesis by simp
  qed
  moreover have "\<exists>more. queue_of cf st'' a = queue_of cf st a @ more"
    using assms by (auto simp: grown_def)
  ultimately show ?thesis using assms by (auto simp: grown_def)
qed

lemma page_map_frame [simp]:
  "page_map (put_book a b st) = page_map st" "page_map (deposit_event e st) = page_map st"
  "page_map (st\<lparr>service_head := h\<rparr>) = page_map st" "page_map (st\<lparr>env := x\<rparr>) = page_map st"
  "page_map (st\<lparr>mutex_held := t\<rparr>) = page_map st"
  by (intro ext; simp add: page_map_def)+

lemma page_map_put [simp]:
  "page_map (put_page o' i pg st) = (page_map st)(o' := (page_map st o')(i \<mapsto> pg))"
  "page_map (remove_page o' i st) = (page_map st)(o' := (page_map st o')(i := None))"
  by (intro ext; simp add: page_map_def)+

lemma ring_frame:
  "ring (st\<lparr>env := x\<rparr>) r = ring st r" "ring (st\<lparr>mutex_held := t\<rparr>) r = ring st r"
  "ring (deposit_event e st) r = ring st r" "ring (put_page o' i pg st) r = ring st r"
  "ring (remove_page o' i st) r = ring st r"
proof -
  have "neighbours_of (st\<lparr>env := x\<rparr>) = neighbours_of st" "neighbours_of (st\<lparr>mutex_held := t\<rparr>) = neighbours_of st"
    "neighbours_of (deposit_event e st) = neighbours_of st" "neighbours_of (put_page o' i pg st) = neighbours_of st"
    "neighbours_of (remove_page o' i st) = neighbours_of st"
    by (intro ext; simp add: neighbours_of_def)+
  then show "ring (st\<lparr>env := x\<rparr>) r = ring st r" "ring (st\<lparr>mutex_held := t\<rparr>) r = ring st r"
    "ring (deposit_event e st) r = ring st r" "ring (put_page o' i pg st) r = ring st r"
    "ring (remove_page o' i st) r = ring st r" by (simp_all add: ring_def)
qed

lemma mq_inv_frame [simp]:
  "mq_inv cf S (st\<lparr>env := x\<rparr>) = mq_inv cf S st" "mq_inv cf S (st\<lparr>mutex_held := t\<rparr>) = mq_inv cf S st"
  "mq_inv cf S (deposit_event e st) = mq_inv cf S st"
  by (simp_all add: mq_inv_def ring_frame)

lemma queue_of_frame [simp]:
  "queue_of cf (st\<lparr>env := x\<rparr>) a = queue_of cf st a" "queue_of cf (st\<lparr>mutex_held := t\<rparr>) a = queue_of cf st a"
  "queue_of cf (deposit_event e st) a = queue_of cf st a"
  by (simp_all add: queue_of_def)

text \<open>Only the neighbours of a book are outside what its invariant and its messages depend on.\<close>

lemma off_ring_book:
  assumes "off_ring b' = off_ring b"
  shows "book_ok cf b' P = book_ok cf b P" "front_ok b' P = front_ok b P" "waiting c b' P = waiting c b P"
  using off_ring_eqD[OF assms] by (simp_all add: book_ok_def front_ok_def waiting_def)

lemma same_but_ring_books:
  assumes "same_but_ring st st'"
  shows "page_map st' = page_map st" "book_ok cf (get_book st' a) P = book_ok cf (get_book st a) P"
    "front_ok (get_book st' a) P = front_ok (get_book st a) P"
    "waiting c (get_book st' a) P = waiting c (get_book st a) P"
    "bk_begin (get_book st' a) = bk_begin (get_book st a)" "bk_end (get_book st' a) = bk_end (get_book st a)"
proof -
  have o: "off_ring (get_book st' a) = off_ring (get_book st a)" using assms by (simp add: same_but_ring_def)
  show "page_map st' = page_map st" using assms by (intro ext) (simp add: same_but_ring_def page_map_def)
  show "book_ok cf (get_book st' a) P = book_ok cf (get_book st a) P"
    "front_ok (get_book st' a) P = front_ok (get_book st a) P"
    "waiting c (get_book st' a) P = waiting c (get_book st a) P"
    using off_ring_book[OF o] by simp_all
  show "bk_begin (get_book st' a) = bk_begin (get_book st a)" "bk_end (get_book st' a) = bk_end (get_book st a)"
    using off_ring_eqD[OF o] by simp_all
qed

lemma ring_members:
  assumes "mq_inv cf S st" "ring st r"
  shows "a \<in> set r \<longleftrightarrow> bk_begin (get_book st a) < bk_end (get_book st a)"
proof -
  obtain r0 where "ring st r0" and in_r0: "a \<in> set r0 \<longleftrightarrow> bk_begin (get_book st a) < bk_end (get_book st a)"
    using assms(1) unfolding mq_inv_def by blast
  then have "linked r (neighbours_of st)" "linked r0 (neighbours_of st)" using assms(2) by (auto simp: ring_def)
  then show ?thesis using in_r0 linked_inside[of r _ a] linked_inside[of r0 _ a] by blast
qed

lemma put_book_page: "put_book o' b (put_page o' i pg st) = put_page o' i pg (put_book o' b st)"
  by (cases st) (simp add: put_book_def put_page_def)

lemma ring_put_same:
  assumes "ready_neighbours b = ready_neighbours (get_book st o')"
  shows "ring (put_book o' b st) r = ring st r"
proof -
  have "neighbours_of (put_book o' b st) = neighbours_of st" using assms by (intro ext) (simp add: neighbours_of_def)
  then show ?thesis by (simp add: ring_def)
qed

section \<open>Writing one page and one book\<close>

text \<open>What is common to the branches of \<open>do_enqueue_message\<close>: the ring may have changed, then a page and
  the book are written, and the queue has one more message.\<close>

definition written :: "('o, 'x) mq_config \<Rightarrow> ('o, 'x) mq \<Rightarrow> 'o \<Rightarrow> bytes \<Rightarrow> ('o, 'x) mq \<Rightarrow> bool" where
  "written cf st o' m st' \<longleftrightarrow> (\<exists>b' i pg st1. st' = put_book o' b' (put_page o' i pg st1) \<and> same_but_ring st st1 \<and>
     (\<exists>r r'. ring st r \<and> ring st' r' \<and> set r' = insert o' (set r)) \<and>
     book_ok cf b' ((page_map st o')(i \<mapsto> pg)) \<and> bk_begin b' = bk_begin (get_book st o') \<and>
     bk_begin b' < bk_end b' \<and> bk_end (get_book st o') \<le> bk_end b' \<and>
     waiting (item_codec_of cf) b' ((page_map st o')(i \<mapsto> pg)) = queue_of cf st o' @ [m] \<and>
     (\<forall>q. page_map st o' i = Some q \<longrightarrow>
       (\<exists>more. ready_items (item_codec_of cf) pg = ready_items (item_codec_of cf) q @ more)) \<and>
     (page_map st o' (bk_begin b') = None \<longrightarrow> i = bk_begin b') \<and> \<not> is_complete pg)"

lemma written_queue:
  assumes inv: "mq_inv cf S st" and w: "written cf st o' m st'"
  shows "mq_inv cf S st'" "queue_of cf st' o' = queue_of cf st o' @ [m]"
    "a \<noteq> o' \<Longrightarrow> queue_of cf st' a = queue_of cf st a" "ends_mono st st'" "grown cf a st st'"
proof -
  obtain b' i pg st1 r r' where st': "st' = put_book o' b' (put_page o' i pg st1)" and same: "same_but_ring st st1"
    and r0: "ring st r" and r': "ring st' r'" "set r' = insert o' (set r)"
    and b': "book_ok cf b' ((page_map st o')(i \<mapsto> pg))" "bk_begin b' = bk_begin (get_book st o')"
      "bk_begin b' < bk_end b'" "bk_end (get_book st o') \<le> bk_end b'"
      "waiting (item_codec_of cf) b' ((page_map st o')(i \<mapsto> pg)) = queue_of cf st o' @ [m]"
    and grow: "\<forall>q. page_map st o' i = Some q \<longrightarrow>
      (\<exists>more. ready_items (item_codec_of cf) pg = ready_items (item_codec_of cf) q @ more)"
    and first: "page_map st o' (bk_begin b') = None \<longrightarrow> i = bk_begin b'" "\<not> is_complete pg"
    using w unfolding written_def by (elim exE conjE) (rule that)
  note sb = same_but_ring_books[OF same]
  have pm: "page_map st' = (page_map st)(o' := (page_map st o')(i \<mapsto> pg))" by (simp add: st' sb)
  have gb: "get_book st' a = (if a = o' then b' else get_book st1 a)" for a by (simp add: st')
  have r: "a \<in> set r \<longleftrightarrow> bk_begin (get_book st a) < bk_end (get_book st a)"
    "book_ok cf (get_book st a) (page_map st a)" "a \<notin> S \<Longrightarrow> front_ok (get_book st a) (page_map st a)" for a
    using inv ring_members[OF inv r0] unfolding mq_inv_def by blast+
  have front: "front_ok b' ((page_map st o')(i \<mapsto> pg))" if "o' \<notin> S"
  proof (cases "page_map st o' (bk_begin b')")
    case None
    then show ?thesis using first by (simp add: front_ok_def)
  next
    case (Some q)
    have "bk_begin (get_book st o') < bk_end (get_book st o')"
      using r(2)[of o'] Some b'(2) by (auto simp: book_ok_def)
    then show ?thesis using r(3)[OF that] Some first(2) b'(2) by (auto simp: front_ok_def)
  qed
  show "mq_inv cf S st'"
    unfolding mq_inv_def
    by (rule exI[of _ r']) (use r r' b' front in \<open>auto simp: gb pm sb\<close>)
  show q: "queue_of cf st' o' = queue_of cf st o' @ [m]" using b'(5) by (simp add: queue_of_def gb pm)
  show q': "a \<noteq> o' \<Longrightarrow> queue_of cf st' a = queue_of cf st a" for a by (simp add: queue_of_def gb pm sb)
  show "ends_mono st st'" using b'(4) by (simp add: ends_mono_def gb sb)
  show "grown cf a st st'" using b'(2,4) grow q q'[of a] by (cases "a = o'") (auto simp: grown_def gb pm sb)
qed

section \<open>Enqueueing\<close>

text \<open>The book with the counters of one more message, and the tail of \<open>do_enqueue_message\<close>.\<close>

definition counted :: "bytes \<Rightarrow> 'o BookState \<Rightarrow> 'o BookState" where
  "counted m b = b\<lparr>message_count := saturating_inc (message_count b),
     bk_size := saturating_add (bk_size b) (of_nat (length m))\<rparr>"

definition link_page :: "('o, 'x) mq_config \<Rightarrow> 'o \<Rightarrow> bytes \<Rightarrow> 'o BookState \<Rightarrow> ('o, 'x) mq \<Rightarrow> ('o, 'x) mq" where
  "link_page cf o' m b st = put_book o'
     (b\<lparr>bk_end := saturating_inc (bk_end b), bk_count := saturating_inc (bk_count b)\<rparr>)
     (put_page o' (saturating_inc (bk_end b) - 1) (from_message (item_codec_of cf) (HeapSize cf) m) st)"

lemma do_enqueue_message_eq:
  "do_enqueue_message cf o' m st =
     (let b = counted m (get_book st o')
      in if bk_begin b < bk_end b
         then (case page_map st o' (bk_end b - 1) of None \<Rightarrow> st
           | Some pg \<Rightarrow> (case try_append_message (item_codec_of cf) (HeapSize cf) m pg of
                Inr pg' \<Rightarrow> put_book o' b (put_page o' (bk_end b - 1) pg' st) | Inl _ \<Rightarrow> link_page cf o' m b st))
         else (case ready_ring_knit o' st of
             (Inr nb, st1) \<Rightarrow> link_page cf o' m (b\<lparr>ready_neighbours := Some nb\<rparr>) st1
           | (Inl _, st1) \<Rightarrow> link_page cf o' m b st1))"
  by (simp add: do_enqueue_message_def counted_def link_page_def page_map_def Let_def
      split: option.split sum.split prod.split)

lemma counted_simps [simp]:
  "bk_begin (counted m b) = bk_begin b" "bk_end (counted m b) = bk_end b" "bk_count (counted m b) = bk_count b"
  "ready_neighbours (counted m b) = ready_neighbours b"
  by (simp_all add: counted_def)

lemma same_but_ring_ends: "same_but_ring st st' \<Longrightarrow> bk_end (get_book st' a) = bk_end (get_book st a)"
  by (rule same_but_ring_books)

lemma knit_ends: "ready_ring_knit o' st = (x, st1) \<Longrightarrow> bk_end (get_book st1 a) = bk_end (get_book st a)"
  by (auto simp: ready_ring_knit_def Let_def split: option.splits if_splits)

lemma saturating_inc_ge: "x \<le> saturating_inc (x :: u32)"
  using unat_lt32[of x] by (auto simp: word_le_nat_alt unat_saturating_inc)

lemma enqueue_ends_mono: "ends_mono st (do_enqueue_message cf o' m st)"
  by (auto simp: do_enqueue_message_eq ends_mono_def Let_def link_page_def saturating_inc_ge knit_ends
      split: option.split sum.split prod.split)

context mq_codec
begin

lemma written_append:
  assumes inv: "mq_inv cf S st" and lt: "bk_begin (get_book st o') < bk_end (get_book st o')"
    and pg: "page_map st o' (bk_end (get_book st o') - 1) = Some pg"
    and app: "try_append_message (item_codec_of cf) (HeapSize cf) m pg = Inr pg'"
  shows "written cf st o' m (put_book o' (counted m (get_book st o')) (put_page o' (bk_end (get_book st o') - 1) pg' st))"
proof -
  let ?b = "get_book st o'" and ?P = "page_map st o'"
  obtain r where r: "ring st r" using inv by (auto simp: mq_inv_def)
  have b: "book_ok cf ?b ?P" using inv by (auto simp: mq_inv_def)
  note A = book_append[OF b lt pg app, of "counted m ?b"]
  have "ring (put_book o' (counted m ?b) (put_page o' (bk_end ?b - 1) pg' st)) r"
    using r by (simp add: ring_put_same ring_frame)
  moreover have "set r = insert o' (set r)" using ring_members[OF inv r, of o'] lt by auto
  moreover have "bk_end ?b - 1 = bk_begin ?b" if "?P (bk_begin ?b) = None"
    using that lt b unfolding book_ok_def by fastforce
  moreover have "\<not> is_complete pg'"
    using ok_append(3)[OF _ app] b pg by (auto simp: book_ok_def is_complete_def simp flip: unat_eq_zero)
  ultimately show ?thesis
    unfolding written_def using A pg lt r
    by (intro exI[of _ "counted m ?b"] exI[of _ "bk_end ?b - 1"] exI[of _ pg'] exI[of _ st])
      (auto simp: counted_def queue_of_def)
qed

lemma written_link:
  assumes inv: "mq_inv cf S st" and fit: "fits_page cf m" and e: "bk_end (get_book st o') \<noteq> umax"
    and same: "same_but_ring st st1" and rg: "ring st r" "set r' = insert o' (set r)"
      "\<And>b. ring (put_book o' (b\<lparr>ready_neighbours := nb\<rparr>) st1) r'"
  shows "written cf st o' m (link_page cf o' m ((counted m (get_book st o'))\<lparr>ready_neighbours := nb\<rparr>) st1)"
proof -
  let ?b = "get_book st o'" and ?P = "page_map st o'" and ?pg = "from_message (item_codec_of cf) (HeapSize cf) m"
  let ?b2 = "(counted m ?b)\<lparr>ready_neighbours := nb, bk_end := saturating_inc (bk_end ?b),
    bk_count := saturating_inc (bk_count ?b)\<rparr>"
  have b: "book_ok cf ?b ?P" using inv by (auto simp: mq_inv_def)
  note L0 = book_link[OF b e fit[unfolded fits_page_def] refl, of ?b2]
  have L: "book_ok cf ?b2 (?P(bk_end ?b \<mapsto> ?pg))"
    "waiting (item_codec_of cf) ?b2 (?P(bk_end ?b \<mapsto> ?pg)) = waiting (item_codec_of cf) ?b ?P @ [m]"
    "saturating_inc (bk_end ?b) - 1 = bk_end ?b" "bk_begin ?b < saturating_inc (bk_end ?b)"
    "?P (bk_end ?b) = None" "ready_items (item_codec_of cf) ?pg = [(False, m)]"
    using L0 by (simp_all add: counted_def)
  have "link_page cf o' m ((counted m ?b)\<lparr>ready_neighbours := nb\<rparr>) st1 = put_book o' ?b2 (put_page o' (bk_end ?b) ?pg st1)"
    using L(3) by (simp add: link_page_def)
  moreover have "ring (put_book o' ?b2 (put_page o' (bk_end ?b) ?pg st1)) r'"
  proof -
    have "?b2\<lparr>ready_neighbours := nb\<rparr> = ?b2" by (cases "counted m ?b") simp
    then show ?thesis using rg(3)[of ?b2] by (simp only: put_book_page ring_frame)
  qed
  moreover have "bk_end ?b = bk_begin ?b" if "?P (bk_begin ?b) = None"
    using that b unfolding book_ok_def by (metis order_le_less order_refl option.distinct(1))
  moreover have "bk_end ?b \<le> saturating_inc (bk_end ?b)"
    using saturating_inc_word[OF e] by (simp add: word_le_nat_alt)
  moreover have "\<not> is_complete ?pg"
    using ok_from_message(3)[OF fit[unfolded fits_page_def]] by (auto simp: is_complete_def)
  ultimately show ?thesis
    unfolding written_def using L same rg(1,2)
    by (intro exI[of _ ?b2] exI[of _ "bk_end ?b"] exI[of _ ?pg] exI[of _ st1])
      (auto simp: counted_def queue_of_def)
qed

lemma enqueue_written:
  assumes inv: "mq_inv cf S st" and fit: "fits_page cf m" and e: "bk_end (get_book st o') \<noteq> umax"
  shows "written cf st o' m (do_enqueue_message cf o' m st)"
proof -
  let ?b = "get_book st o'" and ?P = "page_map st o'"
  obtain r where r: "ring st r" using inv by (auto simp: mq_inv_def)
  have b: "book_ok cf ?b ?P" using inv by (auto simp: mq_inv_def)
  show ?thesis
  proof (cases "bk_begin ?b < bk_end ?b")
    case True
    then obtain pg where pg: "?P (bk_end ?b - 1) = Some pg"
      using b pred_word[OF True] unfolding book_ok_def by blast
    have "set r = insert o' (set r)" using ring_members[OF inv r, of o'] True by auto
    moreover have "ring (put_book o' (b\<lparr>ready_neighbours := ready_neighbours ?b\<rparr>) st) r" for b
      using r by (simp add: ring_put_same)
    ultimately have "written cf st o' m (link_page cf o' m (counted m ?b) st)"
      using written_link[OF inv fit e same_but_ring_refl r, of r "ready_neighbours ?b"] by (simp add: counted_def)
    with True pg written_append[OF inv True pg] show ?thesis
      by (auto simp: do_enqueue_message_eq Let_def split: sum.split)
  next
    case False
    then have "o' \<notin> set r" using ring_members[OF inv r] by simp
    then obtain nb st1 where k: "ready_ring_knit o' st = (Inr nb, st1)" "same_but_ring st st1"
      "\<And>b. ring (put_book o' (b\<lparr>ready_neighbours := Some nb\<rparr>) st1) (r @ [o'])"
      using ring_knit[OF r] by metis
    with False written_link[OF inv fit e k(2) r _ k(3)] show ?thesis
      by (simp add: do_enqueue_message_eq Let_def)
  qed
qed

lemma enqueue_many:
  assumes "\<And>m. m \<in> set ms \<Longrightarrow> fits_page cf m"
  shows "mq_inv cf S st \<Longrightarrow> \<not> exhausted (fold (do_enqueue_message cf o') ms st) \<Longrightarrow>
    mq_inv cf S (fold (do_enqueue_message cf o') ms st) \<and>
    queue_of cf (fold (do_enqueue_message cf o') ms st) o' = queue_of cf st o' @ ms \<and>
    (\<forall>a. a \<noteq> o' \<longrightarrow> queue_of cf (fold (do_enqueue_message cf o') ms st) a = queue_of cf st a) \<and>
    (\<forall>a. grown cf a st (fold (do_enqueue_message cf o') ms st))"
  using assms
proof (induction ms arbitrary: st)
  case (Cons m ms)
  let ?st1 = "do_enqueue_message cf o' m st"
  have mono: "ends_mono s (do_enqueue_message cf o' m' s)" for s m' by (rule enqueue_ends_mono)
  then have fold_mono: "ends_mono s (fold (do_enqueue_message cf o') ms' s)" for s ms'
    by (induction ms' arbitrary: s) (auto intro: ends_mono_trans)
  have "\<not> exhausted st"
    using ends_mono_exhausted[OF fold_mono[of st "m # ms"]] Cons.prems(2) by blast
  then have w: "written cf st o' m ?st1"
    using Cons.prems(3)[of m] by (intro enqueue_written[OF Cons.prems(1)]) (auto simp: exhausted_def)
  note W = written_queue[OF Cons.prems(1) w]
  have IH: "mq_inv cf S (fold (do_enqueue_message cf o') ms ?st1) \<and>
    queue_of cf (fold (do_enqueue_message cf o') ms ?st1) o' = queue_of cf ?st1 o' @ ms \<and>
    (\<forall>a. a \<noteq> o' \<longrightarrow> queue_of cf (fold (do_enqueue_message cf o') ms ?st1) a = queue_of cf ?st1 a) \<and>
    (\<forall>a. grown cf a ?st1 (fold (do_enqueue_message cf o') ms ?st1))"
    using Cons.IH[OF W(1)] Cons.prems(2,3) by simp
  with W grown_trans[OF W(5)] show ?case by (simp add: ext)
qed simp

end

section \<open>Sweeping\<close>

lemma sweep_queue_eq:
  assumes "ring st r" "o' \<in> set r \<longleftrightarrow> bk_begin (get_book st o') < bk_end (get_book st o')"
  obtains st1 r' where "sweep_queue o' st = st \<and> books st o' = None \<and> r' = r \<or>
      sweep_queue o' st = put_book o' ((get_book st o')\<lparr>bk_begin := bk_end (get_book st o'), ready_neighbours := None\<rparr>) st1"
    "same_but_ring st st1" "ring (sweep_queue o' st) r'" "set r' = set r - {o'}"
proof (cases "books st o'")
  case None
  then have "o' \<notin> set r" using assms(2) by (simp add: get_book_def default_book_def)
  with None assms(1) show ?thesis by (intro that[of r st]) (auto simp: sweep_queue_def)
next
  case (Some b)
  then have b: "get_book st o' = b" by (simp add: get_book_def)
  have l: "linked r (neighbours_of st)" using assms(1) by (simp add: ring_def)
  show ?thesis
  proof (cases "ready_neighbours b")
    case None
    have upd: "b\<lparr>bk_begin := bk_end b, ready_neighbours := None\<rparr> = b\<lparr>bk_begin := bk_end b\<rparr>"
      using None by (cases b) simp
    have "o' \<notin> set r" using linked_inside[OF l, of o'] None b by (simp add: neighbours_of_def)
    moreover have "ring (put_book o' (b\<lparr>bk_begin := bk_end b\<rparr>) st) r"
      using assms(1) b by (simp add: ring_put_same)
    moreover have sw: "sweep_queue o' st = put_book o' (b\<lparr>bk_begin := bk_end b\<rparr>) st"
      using Some None by (simp add: sweep_queue_def Let_def)
    moreover from sw have "sweep_queue o' st = put_book o' (b\<lparr>bk_begin := bk_end b, ready_neighbours := None\<rparr>) st"
      unfolding upd .
    ultimately show ?thesis
      by (intro that[of r st]) (auto simp: b)
  next
    case (Some nb)
    have nb: "neighbours_of st o' = Some nb" using Some b by (simp add: neighbours_of_def)
    then obtain xs ys where r: "r = xs @ o' # ys" using linked_inside[OF l, of o'] by (auto simp: in_set_conv_decomp)
    note U = ring_unknit[OF assms(1)[unfolded r] nb]
    have "set (xs @ ys) = set r - {o'}" using linked_distinct[OF l] r by auto
    with U(1) U(3)[of "b\<lparr>bk_begin := bk_end b\<rparr>"] Some \<open>books st o' = Some b\<close> b show ?thesis
      by (intro that[of "xs @ ys" "ready_ring_unknit o' nb st"]) (auto simp: sweep_queue_def Let_def)
  qed
qed

lemma sweep_keeps:
  assumes inv: "mq_inv cf S st"
  shows "mq_inv cf S (sweep_queue o' st)" "queue_of cf (sweep_queue o' st) o' = []"
    "a \<noteq> o' \<Longrightarrow> queue_of cf (sweep_queue o' st) a = queue_of cf st a"
    "ends_mono st (sweep_queue o' st)" "a \<noteq> o' \<Longrightarrow> grown cf a st (sweep_queue o' st)"
proof -
  obtain r where r: "ring st r" "a \<in> set r \<longleftrightarrow> bk_begin (get_book st a) < bk_end (get_book st a)"
    "book_ok cf (get_book st a) (page_map st a)"
    "a \<notin> S \<Longrightarrow> front_ok (get_book st a) (page_map st a)" for a
    using inv unfolding mq_inv_def by blast
  obtain st1 r' where eq: "sweep_queue o' st = st \<and> books st o' = None \<and> r' = r \<or>
      sweep_queue o' st = put_book o' ((get_book st o')\<lparr>bk_begin := bk_end (get_book st o'), ready_neighbours := None\<rparr>) st1"
    and same: "same_but_ring st st1" and r': "ring (sweep_queue o' st) r'" "set r' = set r - {o'}"
    by (rule sweep_queue_eq[OF r(1,2)])
  note sb = same_but_ring_books[OF same]
  have pm: "page_map (sweep_queue o' st) = page_map st" using eq sb by auto
  have gb: "a \<noteq> o' \<Longrightarrow> off_ring (get_book (sweep_queue o' st) a) = off_ring (get_book st a)"
    "off_ring (get_book (sweep_queue o' st) o') = off_ring ((get_book st o')\<lparr>bk_begin := bk_end (get_book st o')\<rparr>)" for a
  proof -
    show "a \<noteq> o' \<Longrightarrow> off_ring (get_book (sweep_queue o' st) a) = off_ring (get_book st a)"
      using eq same by (elim disjE) (simp_all add: same_but_ring_def)
    have "books st o' = None \<Longrightarrow> (get_book st o')\<lparr>bk_begin := bk_end (get_book st o')\<rparr> = get_book st o'"
      by (simp add: get_book_def default_book_def)
    then show "off_ring (get_book (sweep_queue o' st) o') = off_ring ((get_book st o')\<lparr>bk_begin := bk_end (get_book st o')\<rparr>)"
      using eq by (elim disjE) simp_all
  qed
  have ok: "book_ok cf ((get_book st o')\<lparr>bk_begin := bk_end (get_book st o')\<rparr>) (page_map st o')"
    using r(3)[of o'] by (auto simp: book_ok_def)
  note G = off_ring_book[OF gb(1)] off_ring_book[OF gb(2)] and E = off_ring_eqD[OF gb(1)] off_ring_eqD[OF gb(2)]
  have "(a \<in> set r' \<longleftrightarrow> bk_begin (get_book (sweep_queue o' st) a) < bk_end (get_book (sweep_queue o' st) a)) \<and>
      book_ok cf (get_book (sweep_queue o' st) a) (page_map (sweep_queue o' st) a) \<and>
      (a \<notin> S \<longrightarrow> front_ok (get_book (sweep_queue o' st) a) (page_map (sweep_queue o' st) a))" for a
    using r r' ok by (cases "a = o'") (auto simp: pm G E front_ok_def)
  then show "mq_inv cf S (sweep_queue o' st)" unfolding mq_inv_def using r'(1) by blast
  show "queue_of cf (sweep_queue o' st) o' = []"
    using E(2) by (simp add: queue_of_def waiting_def msgs_range_def)
  show q: "a \<noteq> o' \<Longrightarrow> queue_of cf (sweep_queue o' st) a = queue_of cf st a" by (simp add: queue_of_def pm G)
  show "ends_mono st (sweep_queue o' st)" unfolding ends_mono_def using E by (metis (no_types) BookState.select_convs(2)
        BookState.surjective BookState.update_convs(1) order_refl)
  show "a \<noteq> o' \<Longrightarrow> grown cf a st (sweep_queue o' st)" using E(1)[of a] q by (simp add: grown_def pm)
qed

section \<open>Properties\<close>

lemma page_sum_empty: "page_sum g (\<lambda>_. None) = 0"
  by (simp add: page_sum_def)

lemma empty_mq_inv: "mq_inv cf S (empty_mq :: ('o, unit) mq)"
proof -
  have "ring (empty_mq :: ('o, unit) mq) []"
    by (simp add: ring_def linked_def empty_mq_def neighbours_of_def get_book_def default_book_def)
  moreover have "get_book empty_mq a = default_book" "page_map empty_mq a = (\<lambda>_. None)" for a :: 'o
    by (simp_all add: empty_mq_def get_book_def page_map_def fun_eq_iff)
  ultimately show ?thesis
    unfolding mq_inv_def
    by (intro exI[of _ "[]"]) (simp add: default_book_def book_ok_def front_ok_def page_sum_empty)
qed

text \<open>C17: Enqueueing a message of an allowed length appends it to the queue of its origin, behind every message
  that waits there, changes no other queue and keeps the invariant of the pallet (the ready ring, the page
  indices, and the counters of pages, messages and bytes).\<close>

theorem enqueue_message_appends:
  assumes "item_codec (item_codec_of cf)" "mq_inv cf {} st" "fits_page cf m" "bk_end (get_book st origin) \<noteq> umax"
  shows "mq_inv cf {} (enqueue_message cf m origin st) \<and>
    queue_of cf (enqueue_message cf m origin st) = (queue_of cf st)(origin := queue_of cf st origin @ [m])"
proof -
  have "written cf st origin m (do_enqueue_message cf origin m st)"
    by (rule mq_codec.enqueue_written[OF mq_codec.intro[OF assms(1)] assms(2-4)])
  note W = written_queue[OF assms(2) this]
  then show ?thesis
    by (simp add: enqueue_message_def notify_changed_def Let_def fun_eq_iff)
qed

theorem enqueue_message_appends_witness:
  "item_codec (item_codec_of (counting_config :: (nat, unit) mq_config)) \<and>
   mq_inv counting_config {} (empty_mq :: (nat, unit) mq) \<and>
   fits_page (counting_config :: (nat, unit) mq_config) [3, 4] \<and> bk_end (get_book empty_mq (7 :: nat)) \<noteq> umax \<and>
   mq_inv counting_config {} (enqueue_message counting_config [3, 4] (7 :: nat) empty_mq) \<and>
   queue_of counting_config (enqueue_message counting_config [3, 4] (7 :: nat) empty_mq) 7 = [[3, 4]]"
proof -
  have pre: "item_codec (item_codec_of (counting_config :: (nat, unit) mq_config))"
    "fits_page (counting_config :: (nat, unit) mq_config) [3, 4]"
    "bk_end (get_book empty_mq (7 :: nat)) \<noteq> umax" "queue_of counting_config empty_mq (7 :: nat) = []"
    by (rule counting.codec) (simp_all add: fits_page_def counting_config_def fixed_codec_def empty_mq_def get_book_def
        default_book_def umax_def queue_of_def waiting_def msgs_range_def)
  show ?thesis
    using enqueue_message_appends[OF pre(1) empty_mq_inv pre(2,3)] pre empty_mq_inv by simp
qed

text \<open>Sweeping a queue empties it and takes it off the ready ring, changes no other queue and keeps the
  invariant of the pallet.\<close>

theorem sweep_queue_empties:
  assumes "mq_inv cf {} st"
  shows "mq_inv cf {} (sweep_queue origin st) \<and>
    queue_of cf (sweep_queue origin st) = (queue_of cf st)(origin := [])"
  using sweep_keeps[OF assms, where o' = origin] by (simp add: fun_eq_iff)

theorem sweep_queue_empties_witness:
  "mq_inv counting_config {} (enqueue_message counting_config [3, 4] (7 :: nat) empty_mq) \<and>
   mq_inv counting_config {} (sweep_queue 7 (enqueue_message counting_config [3, 4] (7 :: nat) empty_mq)) \<and>
   queue_of counting_config (sweep_queue 7 (enqueue_message counting_config [3, 4] (7 :: nat) empty_mq)) 7 = []"
proof -
  have "written counting_config empty_mq 7 [3, 4] (do_enqueue_message counting_config (7 :: nat) [3, 4] empty_mq)"
    by (rule counting.enqueue_written[OF empty_mq_inv])
      (simp_all add: fits_page_def counting_config_def fixed_codec_def empty_mq_def get_book_def default_book_def
        umax_def)
  then have inv: "mq_inv counting_config {} (enqueue_message counting_config [3, 4] (7 :: nat) empty_mq)"
    using written_queue(1)[OF empty_mq_inv] by (simp add: enqueue_message_def notify_changed_def Let_def)
  show ?thesis using inv sweep_queue_empties[OF inv, of 7] by simp
qed

end
