(* ===== verification/MQ_Serving.thy ===== *)
theory MQ_Serving
  imports MQ_Enqueue
begin

text \<open>
  Servicing keeps the invariant of the message queue pallet, from one message to the whole ring, with a
  message processor that may call back to enqueue messages anywhere and to sweep queues other than the one
  it serves. A message that is served is the first one of its queue.
\<close>

section \<open>Definitions\<close>

text \<open>The calls a processor may make while it serves the queue of \<open>o'\<close>.\<close>

fun tame_call :: "('o, 'x) mq_config \<Rightarrow> 'o \<Rightarrow> 'o ApiCall \<Rightarrow> bool" where
  "tame_call cf o' (EnqueueMessages ms a) \<longleftrightarrow> (\<forall>m\<in>set ms. fits_page cf m)"
| "tame_call cf o' (SweepQueue a) \<longleftrightarrow> a \<noteq> o'"

definition tame_processor :: "('o, 'x) mq_config \<Rightarrow> bool" where
  "tame_processor cf \<longleftrightarrow> (\<forall>st message origin weight msg_id.
     \<forall>call\<in>set (po_calls (process_message cf st message origin weight msg_id)). tame_call cf origin call)"

text \<open>The storage once the local copies of a service are written back.\<close>

definition commit :: "'o \<Rightarrow> u32 \<Rightarrow> ('o, 'x) service \<Rightarrow> ('o, 'x) mq" where
  "commit o' i s = put_book o' (sv_book s) (put_page o' i (sv_page s) (sv_st s))"

definition serving :: "('o, 'x) mq_config \<Rightarrow> 'o \<Rightarrow> u32 \<Rightarrow> ('o, 'x) service \<Rightarrow> bool" where
  "serving cf o' i s \<longleftrightarrow> mq_inv cf {o'} (commit o' i s) \<and> bk_begin (sv_book s) = i \<and> i < bk_end (sv_book s)"

text \<open>The queue of \<open>o'\<close> has run out of pages but is still in the ring.\<close>

definition mq_done :: "('o, 'x) mq_config \<Rightarrow> 'o \<Rightarrow> ('o, 'x) mq \<Rightarrow> bool" where
  "mq_done cf o' st \<longleftrightarrow> bk_begin (get_book st o') = bk_end (get_book st o') \<and>
     book_ok cf (get_book st o') (page_map st o') \<and> (\<exists>r. ring st r \<and> o' \<in> set r \<and>
     (\<forall>a. a \<noteq> o' \<longrightarrow> (a \<in> set r \<longleftrightarrow> bk_begin (get_book st a) < bk_end (get_book st a)) \<and>
        book_ok cf (get_book st a) (page_map st a) \<and> front_ok (get_book st a) (page_map st a)))"

text \<open>What a call does to the waiting messages of the queues.\<close>

fun call_effect :: "'o ApiCall \<Rightarrow> ('o \<Rightarrow> bytes list) \<Rightarrow> 'o \<Rightarrow> bytes list" where
  "call_effect (EnqueueMessages ms a) q = q(a := q a @ ms)"
| "call_effect (SweepQueue a) q = q(a := [])"

section \<open>Calls of the processor\<close>

lemma api_call_ends: "ends_mono st (api_call cf call st)"
proof (cases call)
  case (EnqueueMessages ms o')
  have "ends_mono st (fold (do_enqueue_message cf o') ms st)"
    by (induction ms arbitrary: st) (auto intro: ends_mono_trans enqueue_ends_mono)
  then show ?thesis
    by (simp add: EnqueueMessages enqueue_messages_def notify_changed_def Let_def ends_mono_def)
next
  case (SweepQueue o')
  have unknit: "bk_end (get_book (ready_ring_unknit o' nb st) a) = bk_end (get_book st a)" for nb a
    by (simp add: ready_ring_unknit_def mutate_neighbours_def Let_def split: option.split)
  have "bk_end b = bk_end (get_book st o')" if "books st o' = Some b" for b
    using that by (simp add: get_book_def)
  with unknit show ?thesis
    by (auto simp: SweepQueue ends_mono_def sweep_queue_def Let_def split: option.split)
qed

lemma fold_api_ends: "ends_mono st (fold (api_call cf) calls st)"
  by (induction calls arbitrary: st) (auto intro: ends_mono_trans api_call_ends)

context mq_codec
begin

lemma api_call_keeps:
  assumes inv: "mq_inv cf S st" and tame: "tame_call cf o' call" and ne: "\<not> exhausted (api_call cf call st)"
  shows "mq_inv cf S (api_call cf call st) \<and> grown cf o' st (api_call cf call st)"
proof (cases call)
  case (EnqueueMessages ms a)
  let ?st = "fold (do_enqueue_message cf a) ms st"
  have ne': "\<not> exhausted ?st"
    using ne by (simp add: EnqueueMessages enqueue_messages_def notify_changed_def Let_def exhausted_def)
  have "mq_inv cf S ?st \<and> grown cf o' st ?st"
    using enqueue_many[OF _ inv ne'] tame by (simp add: EnqueueMessages)
  then show ?thesis
    by (simp add: EnqueueMessages enqueue_messages_def notify_changed_def Let_def grown_def)
next
  case (SweepQueue a)
  then show ?thesis
    using sweep_keeps(1)[OF inv, of a] sweep_keeps(5)[OF inv, of o' a] tame by simp
qed

lemma fold_api_keeps:
  "\<lbrakk>mq_inv cf S st; \<forall>call\<in>set calls. tame_call cf o' call; \<not> exhausted (fold (api_call cf) calls st)\<rbrakk> \<Longrightarrow>
    mq_inv cf S (fold (api_call cf) calls st) \<and> grown cf o' st (fold (api_call cf) calls st)"
proof (induction calls arbitrary: st)
  case (Cons call calls)
  have "\<not> exhausted (api_call cf call st)"
    using Cons.prems(3) ends_mono_exhausted[OF fold_api_ends[of "api_call cf call st" cf calls]] by auto
  then have "mq_inv cf S (api_call cf call st)" and g: "grown cf o' st (api_call cf call st)"
    using api_call_keeps[OF Cons.prems(1)] Cons.prems(2) by auto
  then have "mq_inv cf S (fold (api_call cf) calls (api_call cf call st)) \<and>
      grown cf o' (api_call cf call st) (fold (api_call cf) calls (api_call cf call st))"
    using Cons.IH Cons.prems by simp
  then show ?case using grown_trans[OF g] by simp
qed simp

lemma api_call_queues:
  assumes inv: "mq_inv cf S st" and tame: "tame_call cf o' call" and ne: "\<not> exhausted (api_call cf call st)"
  shows "queue_of cf (api_call cf call st) = call_effect call (queue_of cf st)"
proof (cases call)
  case (EnqueueMessages ms a)
  have "\<not> exhausted (fold (do_enqueue_message cf a) ms st)"
    using ne by (simp add: EnqueueMessages enqueue_messages_def notify_changed_def Let_def exhausted_def)
  from enqueue_many[OF _ inv this] tame show ?thesis
    by (auto simp: EnqueueMessages enqueue_messages_def notify_changed_def Let_def fun_eq_iff)
next
  case (SweepQueue a)
  then show ?thesis using sweep_keeps(2)[OF inv, of a] sweep_keeps(3)[OF inv, of _ a] by (auto simp: fun_eq_iff)
qed

lemma fold_api_queues:
  "\<lbrakk>mq_inv cf S st; \<forall>call\<in>set calls. tame_call cf o' call; \<not> exhausted (fold (api_call cf) calls st)\<rbrakk> \<Longrightarrow>
    queue_of cf (fold (api_call cf) calls st) = fold call_effect calls (queue_of cf st)"
proof (induction calls arbitrary: st)
  case (Cons call calls)
  have "\<not> exhausted (api_call cf call st)"
    using Cons.prems(3) ends_mono_exhausted[OF fold_api_ends[of "api_call cf call st" cf calls]] by auto
  then have "mq_inv cf S (api_call cf call st)" "queue_of cf (api_call cf call st) = call_effect call (queue_of cf st)"
    using api_call_keeps[OF Cons.prems(1)] api_call_queues[OF Cons.prems(1)] Cons.prems(2) by auto
  with Cons.IH[of "api_call cf call st"] Cons.prems show ?case by simp
qed simp

end

text \<open>Calls that do not sweep a queue leave its first message alone.\<close>

lemma fold_call_effect_first:
  "\<lbrakk>\<forall>call\<in>set calls. tame_call cf o' call; q o' = m # r\<rbrakk> \<Longrightarrow>
    fold call_effect calls q = (let q' = fold call_effect calls (q(o' := r)) in q'(o' := m # q' o'))"
proof (induction calls arbitrary: q r)
  case (Cons call calls)
  let ?r = "call_effect call (q(o' := r)) o'"
  have r': "call_effect call q o' = m # ?r" "(call_effect call q)(o' := ?r) = call_effect call (q(o' := r))"
    using Cons.prems by (cases call; auto simp: fun_eq_iff)+
  have "\<forall>call\<in>set calls. tame_call cf o' call" using Cons.prems(1) by simp
  from Cons.IH[of "call_effect call q" ?r, OF this r'(1)] show ?case unfolding r'(2) fold_simps .
qed (auto simp: Let_def)

lemma payload_state:
  assumes "process_message_payload cf o' i mi m weight ol st = (res, weight', st')"
    and "st1 = fold (api_call cf) (po_calls (process_message cf st m o' weight (blake2_256 cf m)))
      (st\<lparr>env := po_env (process_message cf st m o' weight (blake2_256 cf m))\<rparr>)"
  shows "st' = st1 \<or> (\<exists>e. st' = deposit_event e st1)"
  using assms
  by (auto simp: process_message_payload_def Let_def split: sum.splits ProcessMessageError.splits if_splits)

lemma payload_ends:
  assumes "process_message_payload cf o' i mi m weight ol st = (res, weight', st')"
  shows "ends_mono st st'"
proof -
  let ?out = "process_message cf st m o' weight (blake2_256 cf m)"
  have "ends_mono (st\<lparr>env := po_env ?out\<rparr>) (fold (api_call cf) (po_calls ?out) (st\<lparr>env := po_env ?out\<rparr>))"
    by (rule fold_api_ends)
  with payload_state[OF assms refl] show ?thesis by (auto simp: ends_mono_def)
qed

context mq_codec
begin

lemma payload_keeps:
  assumes "tame_processor cf" "mq_inv cf S st" "\<not> exhausted st'"
    and p: "process_message_payload cf o' i mi m weight ol st = (res, weight', st')"
  shows "mq_inv cf S st'" "grown cf o' st st'"
    "queue_of cf st' = fold call_effect (po_calls (process_message cf st m o' weight (blake2_256 cf m))) (queue_of cf st)"
proof -
  let ?out = "process_message cf st m o' weight (blake2_256 cf m)"
  let ?st1 = "fold (api_call cf) (po_calls ?out) (st\<lparr>env := po_env ?out\<rparr>)"
  have st': "st' = ?st1 \<or> (\<exists>e. st' = deposit_event e ?st1)" by (rule payload_state[OF p refl])
  have tame: "\<forall>call\<in>set (po_calls ?out). tame_call cf o' call" using assms(1) unfolding tame_processor_def by blast
  have "\<not> exhausted ?st1" using assms(3) st' by (auto simp: exhausted_def)
  then have "mq_inv cf S ?st1" "grown cf o' (st\<lparr>env := po_env ?out\<rparr>) ?st1"
    using fold_api_keeps[OF _ tame, of S "st\<lparr>env := po_env ?out\<rparr>"] assms(2) by simp_all
  with st' show "mq_inv cf S st'" "grown cf o' st st'" by (auto simp: grown_def)
  have "queue_of cf ?st1 = fold call_effect (po_calls ?out) (queue_of cf st)"
    using fold_api_queues[OF _ tame, of S "st\<lparr>env := po_env ?out\<rparr>"] assms(2) \<open>\<not> exhausted ?st1\<close>
    by (simp add: queue_of_def[abs_def])
  with st' show "queue_of cf st' = fold call_effect (po_calls ?out) (queue_of cf st)"
    by (auto simp: queue_of_def[abs_def])
qed

end

section \<open>Updates of one book and its pages\<close>

lemma inv_update:
  assumes inv: "mq_inv cf S st" and gb: "\<And>a. a \<noteq> o' \<Longrightarrow> get_book st' a = get_book st a"
    and pm: "page_map st' = (page_map st)(o' := P)" and head: "service_head st' = service_head st"
    and nb: "ready_neighbours (get_book st' o') = ready_neighbours (get_book st o')"
    and lt: "bk_begin (get_book st' o') < bk_end (get_book st' o') \<longleftrightarrow> bk_begin (get_book st o') < bk_end (get_book st o')"
    and ok: "book_ok cf (get_book st' o') P" and front: "o' \<notin> T \<Longrightarrow> front_ok (get_book st' o') P"
    and sub: "S \<subseteq> insert o' T"
  shows "mq_inv cf T st'"
proof -
  obtain r where r: "ring st r" "\<And>a. (a \<in> set r \<longleftrightarrow> bk_begin (get_book st a) < bk_end (get_book st a)) \<and>
      book_ok cf (get_book st a) (page_map st a) \<and> (a \<notin> S \<longrightarrow> front_ok (get_book st a) (page_map st a))"
    using inv unfolding mq_inv_def by blast
  have "neighbours_of st' = neighbours_of st"
    using gb nb by (intro ext, rename_tac a, case_tac "a = o'") (simp_all add: neighbours_of_def)
  then have "ring st' r" using r(1) head by (simp add: ring_def)
  moreover have "(a \<in> set r \<longleftrightarrow> bk_begin (get_book st' a) < bk_end (get_book st' a)) \<and>
      book_ok cf (get_book st' a) (page_map st' a) \<and> (a \<notin> T \<longrightarrow> front_ok (get_book st' a) (page_map st' a))" for a
    using r(2)[of a] gb[of a] pm lt ok front sub by (cases "a = o'") auto
  ultimately show ?thesis unfolding mq_inv_def by blast
qed

lemma inv_book: "mq_inv cf S st \<Longrightarrow> book_ok cf (get_book st a) (page_map st a)"
  unfolding mq_inv_def by blast

lemma inv_front: "mq_inv cf S st \<Longrightarrow> a \<notin> S \<Longrightarrow> front_ok (get_book st a) (page_map st a)"
  unfolding mq_inv_def by blast

lemma book_okD:
  assumes "book_ok cf b P" "bk_begin b \<le> i" "i < bk_end b"
  obtains pg where "P i = Some pg" "page_ok cf pg" "in_turn cf pg"
    "i \<noteq> bk_begin b \<Longrightarrow> ready_items (item_codec_of cf) pg \<noteq> []"
  using assms unfolding book_ok_def by blast

context mq_codec
begin

lemma book_skip:
  assumes b: "book_ok cf b P" "bk_begin b < bk_end b" "P (bk_begin b) = Some pg"
    and ready: "ready_items (item_codec_of cf) pg = (False, m) # xs"
    and b': "b' = (if p then b\<lparr>message_count := saturating_dec (message_count b),
      bk_size := saturating_sub (bk_size b) (of_nat (length m))\<rparr> else b)"
  shows "book_ok cf b' (P(bk_begin b \<mapsto> skip_first (item_codec_of cf) p pg))"
proof -
  have ok: "page_ok cf pg" and turn: "in_turn cf pg"
    by (rule book_okD[OF b(1) order_refl b(2)]; simp add: b(3))+
  note sk = ok_skip[OF ok ready, of p]
  let ?P = "P(bk_begin b \<mapsto> skip_first (item_codec_of cf) p pg)"
  have f: "bk_begin b' = bk_begin b" "bk_end b' = bk_end b" "bk_count b' = bk_count b" using b' by simp_all
  have "unat (message_count b') = page_sum (\<lambda>pg. unat (remaining pg)) ?P"
    "unat (bk_size b') = page_sum (\<lambda>pg. unat (pg_remaining_size pg)) ?P" "unat (bk_count b') = page_sum (\<lambda>_. 1) ?P"
    using b sk(3,4) unat_lt32 page_sum_upd[of "\<lambda>_. 1" P "bk_begin b" "Some (skip_first (item_codec_of cf) p pg)"]
      sum_sub[of "message_count b" "\<lambda>pg. unat (remaining pg)" P "bk_begin b" "Some (skip_first (item_codec_of cf) p pg)"
        "if p then 1 else 0"]
      sum_sub[of "bk_size b" "\<lambda>pg. unat (pg_remaining_size pg)" P "bk_begin b"
        "Some (skip_first (item_codec_of cf) p pg)" "if p then length m else 0"]
    by (auto simp: book_ok_def b' saturating_dec_def saturating_sub_def split: if_splits)
  moreover have "in_turn cf (skip_first (item_codec_of cf) p pg)" using sk(2) turn ready by (simp add: in_turn_def)
  ultimately show ?thesis using b sk(1) unfolding book_ok_def f by auto
qed

lemma waiting_front:
  assumes "bk_begin b < bk_end b"
  shows "waiting (item_codec_of cf) b P = page_msgs (item_codec_of cf) (P (bk_begin b)) @
    msgs_range (item_codec_of cf) P (Suc (unat (bk_begin b))) (unat (bk_end b))"
  using assms by (simp add: waiting_def msgs_range_def word_less_nat_alt upt_conv_Cons)

lemma waiting_skip:
  assumes "bk_begin b < bk_end b" "bk_begin b' = bk_begin b" "bk_end b' = bk_end b" "P (bk_begin b) = Some pg"
    "ready_items (item_codec_of cf) pg = (q, m) # xs" "ready_items (item_codec_of cf) pg' = xs"
  shows "waiting (item_codec_of cf) b P = m # waiting (item_codec_of cf) b' (P(bk_begin b \<mapsto> pg'))"
proof -
  have "msgs_range (item_codec_of cf) (P(bk_begin b \<mapsto> pg')) (Suc (unat (bk_begin b))) (unat (bk_end b)) =
      msgs_range (item_codec_of cf) P (Suc (unat (bk_begin b))) (unat (bk_end b))"
    using unat_lt32[of "bk_end b"] by (intro msgs_range_cong) auto
  then show ?thesis
    using assms by (simp add: waiting_front page_msgs_def)
qed

end

section \<open>One message\<close>

lemma commit_simps [simp]:
  "get_book (commit o' i s) a = (if a = o' then sv_book s else get_book (sv_st s) a)"
  "page_map (commit o' i s) = (page_map (sv_st s))(o' := (page_map (sv_st s) o')(i \<mapsto> sv_page s))"
  "service_head (commit o' i s) = service_head (sv_st s)"
  by (simp_all add: commit_def)

lemma servingD:
  assumes "serving cf o' i s"
  shows "book_ok cf (sv_book s) ((page_map (sv_st s) o')(i \<mapsto> sv_page s))" "page_ok cf (sv_page s)"
    "in_turn cf (sv_page s)"
proof -
  show b: "book_ok cf (sv_book s) ((page_map (sv_st s) o')(i \<mapsto> sv_page s))"
    using inv_book[of cf "{o'}" "commit o' i s" o'] assms by (simp add: serving_def)
  have "bk_begin (sv_book s) \<le> i" "i < bk_end (sv_book s)" using assms by (auto simp: serving_def)
  from book_okD[OF b this] show "page_ok cf (sv_page s)" "in_turn cf (sv_page s)" by auto
qed

text \<open>Reading the book and the page back after the processor has run.\<close>

lemma serving_reload:
  assumes s: "serving cf o' i s" and inv: "mq_inv cf {o'} st'" and g: "grown cf o' (commit o' i s) st'"
  obtains page more where "pages st' (o', i) = Some page"
    "serving cf o' i (s\<lparr>sv_st := st', sv_book := get_book st' o', sv_weight := w, sv_page := page\<rparr>)"
    "ready_items (item_codec_of cf) page = ready_items (item_codec_of cf) (sv_page s) @ more"
proof -
  obtain page more where page: "page_map st' o' i = Some page"
    "ready_items (item_codec_of cf) page = ready_items (item_codec_of cf) (sv_page s) @ more"
  proof -
    have "page_map (commit o' i s) o' i = Some (sv_page s)" by simp
    with g have "\<exists>pg' more. page_map st' o' i = Some pg' \<and>
        ready_items (item_codec_of cf) pg' = ready_items (item_codec_of cf) (sv_page s) @ more"
      unfolding grown_def by blast
    with that show thesis by blast
  qed
  let ?s = "s\<lparr>sv_st := st', sv_book := get_book st' o', sv_weight := w, sv_page := page\<rparr>"
  have "mq_inv cf {o'} (commit o' i ?s)"
    by (rule inv_update[OF inv, where P = "page_map st' o'"])
      (use inv_book[OF inv, of o'] page(1) in \<open>auto simp: fun_upd_idem\<close>)
  moreover have "bk_begin (get_book st' o') = i" "i < bk_end (get_book st' o')"
    using g s by (auto simp: grown_def serving_def)
  ultimately have "serving cf o' i ?s" by (simp add: serving_def)
  with page that show ?thesis by (simp add: page_map_def)
qed

text \<open>What is left of a round once the processor has run.\<close>

definition after_skip :: "('o, 'x) mq_config \<Rightarrow> bool \<Rightarrow> bytes \<Rightarrow> ('o, 'x) service \<Rightarrow> ('o, 'x) service" where
  "after_skip cf p m s = s\<lparr>sv_book := (if p then (sv_book s)\<lparr>message_count := saturating_dec (message_count (sv_book s)),
      bk_size := saturating_sub (bk_size (sv_book s)) (of_nat (length m))\<rparr> else sv_book s),
    sv_page := skip_first (item_codec_of cf) p (sv_page s)\<rparr>"

lemma item_outcome:
  assumes "\<not> is_complete (sv_page s)" "try_consume (sv_weight s) (w_service_page_item cf) = Inr w"
    "peek_first (item_codec_of cf) (sv_page s) = Some m"
    "process_message_payload cf o' i (first_index (sv_page s)) m w ol (commit o' i s) = (res, w', st')"
    "pages st' (o', i) = Some page"
    "s1 = s\<lparr>sv_st := st', sv_book := get_book st' o', sv_weight := w', sv_page := page\<rparr>"
    "service_page_item cf o' i ol s = (status, s')"
  shows "(status = ItemBailed \<or> status = ItemNoProgress) \<and> s' = s1 \<or>
    (\<exists>p. status = ItemExecuted p \<and> s' = after_skip cf p m s1)"
  using assms by (auto simp: service_page_item_def commit_def after_skip_def Let_def
      split: MessageExecutionStatus.splits if_splits)

lemma item_executed:
  assumes "service_page_item cf o' i ol s = (ItemExecuted p, s')"
  obtains w m res w' st' page where "try_consume (sv_weight s) (w_service_page_item cf) = Inr w"
    "peek_first (item_codec_of cf) (sv_page s) = Some m"
    "process_message_payload cf o' i (first_index (sv_page s)) m w ol (commit o' i s) = (res, w', st')"
    "pages st' (o', i) = Some page"
    "s' = after_skip cf p m (s\<lparr>sv_st := st', sv_book := get_book st' o', sv_weight := w', sv_page := page\<rparr>)"
    "p \<longleftrightarrow> res \<noteq> Overweight" "res \<noteq> InsufficientWeight" "\<not> is_complete (sv_page s)"
proof -
  obtain w m where c: "\<not> is_complete (sv_page s)" "try_consume (sv_weight s) (w_service_page_item cf) = Inr w"
    "peek_first (item_codec_of cf) (sv_page s) = Some m"
    using assms by (auto simp: service_page_item_def split: sum.splits if_splits option.splits)
  obtain res w' st' where p: "process_message_payload cf o' i (first_index (sv_page s)) m w ol (commit o' i s) =
      (res, w', st')" using prod_cases3 by blast
  obtain page where page: "pages st' (o', i) = Some page"
    using assms c p by (auto simp: service_page_item_def commit_def Let_def split: option.splits)
  have "s' = after_skip cf p m (s\<lparr>sv_st := st', sv_book := get_book st' o', sv_weight := w', sv_page := page\<rparr>)"
    using item_outcome[OF c p page refl assms] by auto
  moreover have "(p \<longleftrightarrow> res \<noteq> Overweight) \<and> res \<noteq> InsufficientWeight"
    using assms c p page by (auto simp: service_page_item_def commit_def Let_def
        split: MessageExecutionStatus.splits if_splits)
  ultimately show thesis using that c p page by blast
qed

lemma payload_result:
  assumes "process_message_payload cf o' i mi m w ol st = (res, w', st')"
  shows "w' = po_meter (process_message cf st m o' w (blake2_256 cf m))"
    "res \<noteq> InsufficientWeight \<Longrightarrow> res = Overweight \<longleftrightarrow>
       (\<exists>r. po_result (process_message cf st m o' w (blake2_256 cf m)) = Inl (Overweight_error r))"
  using assms by (auto simp: process_message_payload_def Let_def split: sum.splits ProcessMessageError.splits if_splits)

lemma item_reload_ends:
  assumes "\<not> is_complete (sv_page s)" "try_consume (sv_weight s) (w_service_page_item cf) = Inr w"
    "peek_first (item_codec_of cf) (sv_page s) = Some m"
    "process_message_payload cf o' i (first_index (sv_page s)) m w ol (commit o' i s) = (res, w', st')"
    "service_page_item cf o' i ol s = (status, s')"
  shows "bk_end (get_book (commit o' i s') a) = bk_end (get_book st' a)"
  using assms by (auto simp: service_page_item_def commit_def Let_def
      split: option.splits MessageExecutionStatus.splits if_splits)

lemma item_ends:
  assumes item: "service_page_item cf o' i ol s = (status, s')"
  shows "ends_mono (commit o' i s) (commit o' i s')"
proof (cases "is_complete (sv_page s) \<or> (\<exists>u. try_consume (sv_weight s) (w_service_page_item cf) = Inl u) \<or>
    peek_first (item_codec_of cf) (sv_page s) = None")
  case True
  then have "sv_st s' = sv_st s \<and> sv_book s' = sv_book s"
    using item by (auto simp: service_page_item_def split: sum.splits if_splits)
  then show ?thesis by (simp add: ends_mono_def)
next
  case False
  then obtain w m where c: "\<not> is_complete (sv_page s)" "try_consume (sv_weight s) (w_service_page_item cf) = Inr w"
    "peek_first (item_codec_of cf) (sv_page s) = Some m"
    by (cases "try_consume (sv_weight s) (w_service_page_item cf)") auto
  obtain res w' st' where p: "process_message_payload cf o' i (first_index (sv_page s)) m w ol (commit o' i s) =
      (res, w', st')" using prod_cases3 by blast
  have "ends_mono (commit o' i s) st'" by (rule payload_ends[OF p])
  then show ?thesis using item_reload_ends[OF c p item] by (simp add: ends_mono_def)
qed

context mq_codec
begin

lemma serving_skip:
  assumes s: "serving cf o' i s" and ready: "ready_items (item_codec_of cf) (sv_page s) = (False, m) # xs"
    and s'_eq: "s' = after_skip cf p m s"
  shows "serving cf o' i s'" "queue_of cf (commit o' i s) o' = m # queue_of cf (commit o' i s') o'"
proof -
  note s' = s'_eq[unfolded after_skip_def]
  let ?P = "(page_map (sv_st s) o')(i \<mapsto> sv_page s)"
  have i: "bk_begin (sv_book s) = i" "i < bk_end (sv_book s)" and inv: "mq_inv cf {o'} (commit o' i s)"
    using s by (auto simp: serving_def)
  have b: "book_ok cf (sv_book s') (?P(i \<mapsto> sv_page s'))"
    using book_skip[OF servingD(1)[OF s], of "sv_page s" m xs "sv_book s'" p] i ready by (simp add: s')
  have f: "bk_begin (sv_book s') = i" "bk_end (sv_book s') = bk_end (sv_book s)"
    "ready_neighbours (sv_book s') = ready_neighbours (sv_book s)" "sv_st s' = sv_st s" using i(1) by (simp_all add: s')
  have "mq_inv cf {o'} (commit o' i s')"
    by (rule inv_update[OF inv, where P = "?P(i \<mapsto> sv_page s')"]) (use b f i in auto)
  then show "serving cf o' i s'" using f i by (simp add: serving_def)
  have ri: "ready_items (item_codec_of cf) (sv_page s') = xs"
    using ok_skip(2)[OF servingD(2)[OF s] ready] by (simp add: s')
  show "queue_of cf (commit o' i s) o' = m # queue_of cf (commit o' i s') o'"
    using waiting_skip[of "sv_book s" "sv_book s'" ?P "sv_page s" False m xs "sv_page s'"] i f ready ri
    by (simp add: queue_of_def)
qed

lemma ready_not_complete: "page_ok cf pg \<Longrightarrow> in_turn cf pg \<Longrightarrow> ready_items (item_codec_of cf) pg \<noteq> [] \<Longrightarrow> \<not> is_complete pg"
  using ok_complete by blast

text \<open>What one round of the loop of \<open>service_page\<close> does.\<close>

lemma item_keeps:
  assumes tame: "tame_processor cf" and s: "serving cf o' i s"
    and item: "service_page_item cf o' i ol s = (status, s')" and ne: "\<not> exhausted (commit o' i s')"
  shows "serving cf o' i s'"
    and "status = ItemNoItem \<Longrightarrow> ready_items (item_codec_of cf) (sv_page s') = []"
    and "status = ItemBailed \<or> status = ItemNoProgress \<Longrightarrow> \<not> is_complete (sv_page s')"
proof -
  note sd = servingD[OF s]
  have "serving cf o' i s' \<and> (status = ItemNoItem \<longrightarrow> ready_items (item_codec_of cf) (sv_page s') = []) \<and>
    (status = ItemBailed \<or> status = ItemNoProgress \<longrightarrow> \<not> is_complete (sv_page s'))"
  proof (cases "is_complete (sv_page s)")
    case True
    with item s ok_complete[OF sd(2,3)] show ?thesis by (auto simp: service_page_item_def)
  next
    case incomplete: False
    show ?thesis
    proof (cases "try_consume (sv_weight s) (w_service_page_item cf)")
      case (Inl u)
      with item s incomplete show ?thesis by (auto simp: service_page_item_def)
    next
      case (Inr w)
      show ?thesis
      proof (cases "ready_items (item_codec_of cf) (sv_page s)")
        case Nil
        with item s incomplete Inr ok_peek[OF sd(2)] show ?thesis
          by (auto simp: service_page_item_def serving_def commit_def)
      next
        case (Cons x xs)
        then obtain m where ready: "ready_items (item_codec_of cf) (sv_page s) = (False, m) # xs"
          and peek: "peek_first (item_codec_of cf) (sv_page s) = Some m"
          using sd(3) ok_peek[OF sd(2)] by (cases x) (auto simp: in_turn_def)
        obtain res w' st' where p: "process_message_payload cf o' i (first_index (sv_page s)) m w ol (commit o' i s) =
            (res, w', st')" using prod_cases3 by blast
        have "\<not> exhausted st'"
          using ne item_reload_ends[OF incomplete Inr peek p item] by (simp add: exhausted_def)
        then have k: "mq_inv cf {o'} st'" "grown cf o' (commit o' i s) st'"
          using payload_keeps[OF tame _ _ p] s by (auto simp: serving_def)
        obtain page more where page: "pages st' (o', i) = Some page"
          "serving cf o' i (s\<lparr>sv_st := st', sv_book := get_book st' o', sv_weight := w', sv_page := page\<rparr>)"
          "ready_items (item_codec_of cf) page = (False, m) # (xs @ more)"
          by (rule serving_reload[OF s k, of w']) (simp add: ready)
        define s1 where "s1 = s\<lparr>sv_st := st', sv_book := get_book st' o', sv_weight := w', sv_page := page\<rparr>"
        have live: "\<not> is_complete page"
          using ready_not_complete servingD(2,3)[OF page(2)] page(3) by simp
        have skip: "serving cf o' i (after_skip cf p m s1)" for p
          using serving_skip(1)[OF page(2)[folded s1_def], of m _ "after_skip cf p m s1" p] page(3) by (simp add: s1_def)
        from item_outcome[OF incomplete Inr peek p page(1) s1_def item] show ?thesis
          using page(2)[folded s1_def] live skip by (auto simp: s1_def)
      qed
    qed
  qed
  then show "serving cf o' i s'"
    "status = ItemNoItem \<Longrightarrow> ready_items (item_codec_of cf) (sv_page s') = []"
    "status = ItemBailed \<or> status = ItemNoProgress \<Longrightarrow> \<not> is_complete (sv_page s')" by blast+
qed

text \<open>The message of a round that executes one, and what the queues hold after it.\<close>

lemma item_first:
  assumes tame: "tame_processor cf" and s: "serving cf o' i s"
    and item: "service_page_item cf o' i ol s = (ItemExecuted p, s')" and ne: "\<not> exhausted (commit o' i s')"
  shows "\<exists>w m q. try_consume (sv_weight s) (w_service_page_item cf) = Inr w \<and>
    queue_of cf (commit o' i s) o' = m # q \<and>
    (let out = process_message cf (commit o' i s) m o' w (blake2_256 cf m)
     in queue_of cf (commit o' i s') = fold call_effect (po_calls out) ((queue_of cf (commit o' i s))(o' := q)) \<and>
        sv_weight s' = po_meter out \<and> (p \<longleftrightarrow> (\<nexists>r. po_result out = Inl (Overweight_error r))))"
proof -
  obtain w m res w' st' page where w: "try_consume (sv_weight s) (w_service_page_item cf) = Inr w"
    and peek: "peek_first (item_codec_of cf) (sv_page s) = Some m"
    and pr: "process_message_payload cf o' i (first_index (sv_page s)) m w ol (commit o' i s) = (res, w', st')"
    and page: "pages st' (o', i) = Some page"
    and s': "s' = after_skip cf p m (s\<lparr>sv_st := st', sv_book := get_book st' o', sv_weight := w', sv_page := page\<rparr>)"
    and res: "p \<longleftrightarrow> res \<noteq> Overweight" "res \<noteq> InsufficientWeight" and inc: "\<not> is_complete (sv_page s)"
    by (rule item_executed[OF item])
  let ?out = "process_message cf (commit o' i s) m o' w (blake2_256 cf m)" and ?q = "queue_of cf (commit o' i s)"
  define s1 where "s1 = s\<lparr>sv_st := st', sv_book := get_book st' o', sv_weight := w', sv_page := page\<rparr>"
  obtain xs where ready: "ready_items (item_codec_of cf) (sv_page s) = (False, m) # xs"
    using peek servingD(3)[OF s] ok_peek[OF servingD(2)[OF s]]
    by (cases "ready_items (item_codec_of cf) (sv_page s)") (auto simp: in_turn_def)
  have "\<not> exhausted st'" using ne item_reload_ends[OF inc w peek pr item] by (simp add: exhausted_def)
  then have k: "mq_inv cf {o'} st'" "grown cf o' (commit o' i s) st'" "queue_of cf st' = fold call_effect (po_calls ?out) ?q"
    using payload_keeps[OF tame _ _ pr] s by (auto simp: serving_def)
  obtain page' more where "pages st' (o', i) = Some page'"
    "serving cf o' i (s\<lparr>sv_st := st', sv_book := get_book st' o', sv_weight := w', sv_page := page'\<rparr>)"
    "ready_items (item_codec_of cf) page' = (False, m) # (xs @ more)"
    by (rule serving_reload[OF s k(1,2), of w']) (simp add: ready)
  with page have s1: "serving cf o' i s1" "ready_items (item_codec_of cf) (sv_page s1) = (False, m) # (xs @ more)"
    by (simp_all add: s1_def)
  have st': "queue_of cf (commit o' i s1) = queue_of cf st'"
    using page by (auto simp: queue_of_def s1_def page_map_def fun_upd_idem fun_eq_iff)
  have first: "queue_of cf st' o' = m # queue_of cf (commit o' i s') o'"
    using serving_skip(2)[OF s1 s'[folded s1_def]] by (simp add: st')
  have others: "queue_of cf (commit o' i s') a = queue_of cf st' a" if "a \<noteq> o'" for a
    using that by (simp add: queue_of_def s' after_skip_def)
  obtain q where q: "?q o' = m # q" using serving_skip(2)[OF s ready refl] by blast
  have "\<forall>call\<in>set (po_calls ?out). tame_call cf o' call" using tame unfolding tame_processor_def by blast
  from fold_call_effect_first[of "po_calls ?out" cf o' ?q m q, OF this q] have
    "queue_of cf (commit o' i s') = fold call_effect (po_calls ?out) (?q(o' := q))"
    using first others by (auto simp: k(3) Let_def fun_eq_iff) (metis list.inject)
  moreover have "sv_weight s' = po_meter ?out" using payload_result(1)[OF pr] by (simp add: s' after_skip_def)
  moreover have "p \<longleftrightarrow> (\<nexists>r. po_result ?out = Inl (Overweight_error r))"
    using payload_result(2)[OF pr res(2)] res(1) by simp
  ultimately show ?thesis using w q by (auto simp: Let_def)
qed

end

definition items_kept :: "('o, 'x) mq_config \<Rightarrow> 'o \<Rightarrow> u32 \<Rightarrow> ('o, 'x) service \<Rightarrow> PageExecutionStatus \<Rightarrow>
    ('o, 'x) service \<Rightarrow> bool" where
  "items_kept cf o' i s status s' \<longleftrightarrow> ends_mono (commit o' i s) (commit o' i s') \<and>
     (mq_codec cf \<longrightarrow> tame_processor cf \<longrightarrow> serving cf o' i s \<longrightarrow> \<not> exhausted (commit o' i s') \<longrightarrow>
        serving cf o' i s' \<and> (if status = PageNoMore then ready_items (item_codec_of cf) (sv_page s') = []
          else \<not> is_complete (sv_page s')))"

lemma items_keep:
  "service_items cf o' i ol k s = Some y \<Longrightarrow> items_kept cf o' i s (fst (snd y)) (snd (snd y))"
proof (induction cf o' i ol k s y rule: service_items.raw_induct[rotated, consumes 1, case_names step])
  case (step f cf o' i ol k s y)
  obtain st1 s1 where item: "service_page_item cf o' i ol s = (st1, s1)" by fastforce
  note mono = item_ends[OF item]
  show ?case
  proof (cases "\<exists>b. st1 = ItemExecuted b")
    case False
    then have "snd (snd y) = s1" "fst (snd y) = PageNoMore \<longleftrightarrow> st1 = ItemNoItem"
      using step.hyps item by (auto split: ItemExecutionStatus.splits)
    then show ?thesis
      using mq_codec.item_keeps(1-3)[OF _ _ _ item] False mono unfolding items_kept_def by (cases st1) auto
  next
    case True
    then obtain b where "f cf o' i ol (if b then saturating_inc k else k) s1 = Some y"
      using step(2) item by auto
    then have rest: "items_kept cf o' i s1 (fst (snd y)) (snd (snd y))" by (rule step(1))
    have "serving cf o' i s1" if "mq_codec cf" "tame_processor cf" "serving cf o' i s"
      "\<not> exhausted (commit o' i (snd (snd y)))"
      using that rest ends_mono_exhausted mq_codec.item_keeps(1)[OF _ _ _ item] unfolding items_kept_def by blast
    then show ?thesis using rest ends_mono_trans[OF mono] unfolding items_kept_def by blast
  qed
qed

section \<open>One page\<close>

lemma inc_begin:
  assumes "bk_begin b < (bk_end b :: u32)"
  shows "unat (saturating_inc (bk_begin b)) = Suc (unat (bk_begin b))" "saturating_inc (bk_begin b) \<le> bk_end b"
    "saturating_inc (bk_begin b) \<le> i \<longleftrightarrow> bk_begin b < i"
proof -
  have "bk_begin b \<noteq> umax" using assms by (metis not_umax_less)
  note u = saturating_inc_word[OF this]
  then show "unat (saturating_inc (bk_begin b)) = Suc (unat (bk_begin b))" by simp
  show "saturating_inc (bk_begin b) \<le> bk_end b" "saturating_inc (bk_begin b) \<le> i \<longleftrightarrow> bk_begin b < i"
    using assms u by (auto simp: word_le_nat_alt word_less_nat_alt)
qed

lemma book_advance:
  assumes b: "book_ok cf b P" "bk_begin b < bk_end b"
  shows "book_ok cf (b\<lparr>bk_begin := saturating_inc (bk_begin b)\<rparr>) P"
  using b inc_begin[OF b(2)] unfolding book_ok_def by (auto dest: order_less_imp_le)

lemma book_remove:
  assumes b: "book_ok cf b P" "P i = Some pg" "i < bk_begin b" "remaining pg = 0" "pg_remaining_size pg = 0"
  shows "book_ok cf (b\<lparr>bk_count := saturating_dec (bk_count b)\<rparr>) (P(i := None))"
proof -
  have z: "unat (remaining pg) = 0" "unat (pg_remaining_size pg) = 0" using b(4,5) by simp_all
  have "page_sum g (P(i := None)) + g pg = page_sum g P" for g
    using page_sum_upd[of g P i None] b(2) by simp
  from this[of "\<lambda>_. 1"] this[of "\<lambda>pg. unat (remaining pg)"] this[of "\<lambda>pg. unat (pg_remaining_size pg)"]
  have "unat (saturating_dec (bk_count b)) = page_sum (\<lambda>_. 1) (P(i := None))"
    "unat (message_count b) = page_sum (\<lambda>pg. unat (remaining pg)) (P(i := None))"
    "unat (bk_size b) = page_sum (\<lambda>pg. unat (pg_remaining_size pg)) (P(i := None))"
    using b(1) z by (auto simp: book_ok_def unat_saturating_dec)
  then show ?thesis using b(1,3) unfolding book_ok_def by auto
qed

text \<open>The state once the queue of \<open>o'\<close> has moved on to its next page, if it has one.\<close>

definition moved_on :: "('o, 'x) mq_config \<Rightarrow> 'o \<Rightarrow> ('o, 'x) mq \<Rightarrow> bool" where
  "moved_on cf o' st \<longleftrightarrow> (if bk_begin (get_book st o') < bk_end (get_book st o') then mq_inv cf {} st else mq_done cf o' st)"

lemma move_on:
  assumes cd: "mq_codec cf" and inv: "mq_inv cf {o'} st" and gb: "\<And>a. a \<noteq> o' \<Longrightarrow> get_book st' a = get_book st a"
    and pm: "page_map st' = (page_map st)(o' := P)" and head: "service_head st' = service_head st"
    and nb: "ready_neighbours (get_book st' o') = ready_neighbours (get_book st o')"
    and lt: "bk_begin (get_book st o') < bk_end (get_book st o')"
    and b': "bk_begin (get_book st' o') = saturating_inc (bk_begin (get_book st o'))"
      "bk_end (get_book st' o') = bk_end (get_book st o')" "book_ok cf (get_book st' o') P"
    and same: "\<And>i. i \<noteq> bk_begin (get_book st o') \<Longrightarrow> P i = page_map st o' i"
  shows "moved_on cf o' st'"
proof (cases "bk_begin (get_book st' o') < bk_end (get_book st' o')")
  case True
  let ?i = "bk_begin (get_book st' o')"
  have "?i \<noteq> bk_begin (get_book st o')" "bk_begin (get_book st o') \<le> ?i" "?i < bk_end (get_book st o')"
    using True b' inc_begin(1)[OF lt] by (auto simp: word_le_nat_alt)
  from book_okD[OF inv_book[OF inv, of o'] this(2,3)] this(1) same
  obtain pg where pg: "P ?i = Some pg" "page_ok cf pg" "in_turn cf pg" "ready_items (item_codec_of cf) pg \<noteq> []"
    by metis
  then have "front_ok (get_book st' o') P"
    using mq_codec.ready_not_complete[OF cd pg(2-4)] by (simp add: front_ok_def)
  then have "mq_inv cf {} st'"
    by (intro inv_update[OF inv gb pm head nb]) (use True lt b' in auto)
  with True show ?thesis by (simp add: moved_on_def)
next
  case False
  obtain r where r: "ring st r" "\<And>a. (a \<in> set r \<longleftrightarrow> bk_begin (get_book st a) < bk_end (get_book st a)) \<and>
      book_ok cf (get_book st a) (page_map st a) \<and> (a \<notin> {o'} \<longrightarrow> front_ok (get_book st a) (page_map st a))"
    using inv unfolding mq_inv_def by blast
  have "neighbours_of st' = neighbours_of st"
    using gb nb by (intro ext, rename_tac a, case_tac "a = o'") (simp_all add: neighbours_of_def)
  then have "ring st' r" using r(1) head by (simp add: ring_def)
  moreover have "bk_begin (get_book st' o') = bk_end (get_book st' o')"
    using False b' inc_begin(2)[OF lt] by auto
  moreover have "o' \<in> set r" using r(2)[of o'] lt by simp
  moreover have "\<forall>a. a \<noteq> o' \<longrightarrow> (a \<in> set r \<longleftrightarrow> bk_begin (get_book st' a) < bk_end (get_book st' a)) \<and>
      book_ok cf (get_book st' a) (page_map st' a) \<and> front_ok (get_book st' a) (page_map st' a)"
    using r(2) gb pm by auto
  ultimately show ?thesis using False b'(3) pm unfolding moved_on_def mq_done_def by auto
qed

lemma complete_size: "mq_codec cf \<Longrightarrow> page_ok cf pg \<Longrightarrow> is_complete pg \<Longrightarrow> pg_remaining_size pg = 0"
  using mq_codec.ok_counts[of cf pg]
  by (simp add: is_complete_def left_size_def word_unat_eq_iff)

definition page_kept :: "('o, 'x) mq_config \<Rightarrow> 'o \<Rightarrow> ('o, 'x) mq \<Rightarrow> PageExecutionStatus \<Rightarrow> 'o BookState \<Rightarrow>
    ('o, 'x) mq \<Rightarrow> bool" where
  "page_kept cf o' st status b' st' \<longleftrightarrow>
     (if status = PageNoMore
      then moved_on cf o' (put_book o' (b'\<lparr>bk_begin := saturating_inc (bk_begin b')\<rparr>) st')
      else mq_inv cf {} (put_book o' b' st'))"

lemma serving_start:
  assumes inv: "mq_inv cf {} (put_book o' b st)" and page: "pages st (o', bk_begin b) = Some page"
    and lt: "bk_begin b < bk_end b"
  shows "serving cf o' (bk_begin b) \<lparr>sv_st = st, sv_book = b, sv_page = page, sv_weight = w\<rparr>"
proof -
  have "mq_inv cf {o'} (commit o' (bk_begin b) \<lparr>sv_st = st, sv_book = b, sv_page = page, sv_weight = w\<rparr>)"
    by (rule inv_update[OF inv, where P = "page_map st o'"])
      (use inv_book[OF inv, of o'] page in \<open>auto simp: page_map_def fun_eq_iff\<close>)
  with lt show ?thesis by (simp add: serving_def)
qed

lemma serving_stop:
  assumes cd: "mq_codec cf" and s: "serving cf o' i s"
    and status: "if status = PageNoMore then ready_items (item_codec_of cf) (sv_page s) = []
      else \<not> is_complete (sv_page s)"
  shows "page_kept cf o' st status
    (if is_complete (sv_page s) then (sv_book s)\<lparr>bk_count := saturating_dec (bk_count (sv_book s))\<rparr> else sv_book s)
    (if is_complete (sv_page s) then remove_page o' i (sv_st s) else put_page o' i (sv_page s) (sv_st s))"
proof -
  have inv: "mq_inv cf {o'} (commit o' i s)" and i: "bk_begin (sv_book s) = i" "i < bk_end (sv_book s)"
    using s by (auto simp: serving_def)
  note sd = servingD[OF s]
  let ?P = "(page_map (sv_st s) o')(i \<mapsto> sv_page s)"
  show ?thesis
  proof (cases "is_complete (sv_page s)")
    case complete: True
    let ?b = "(sv_book s)\<lparr>bk_begin := saturating_inc i\<rparr>"
    have lt: "i < saturating_inc i" using inc_begin(3)[of "sv_book s" "saturating_inc i"] i by simp
    have "book_ok cf (?b\<lparr>bk_count := saturating_dec (bk_count ?b)\<rparr>) (?P(i := None))"
      using book_advance[OF sd(1)] i lt complete complete_size[OF cd sd(2) complete]
      by (intro book_remove[of cf ?b ?P i "sv_page s"]) (auto simp: is_complete_def)
    then have ok: "book_ok cf ((sv_book s)\<lparr>bk_count := saturating_dec (bk_count (sv_book s)),
        bk_begin := saturating_inc i\<rparr>) ((page_map (sv_st s) o')(i := None))"
      by (cases "sv_book s") simp
    have "moved_on cf o' (put_book o' ((sv_book s)\<lparr>bk_count := saturating_dec (bk_count (sv_book s)),
        bk_begin := saturating_inc i\<rparr>) (remove_page o' i (sv_st s)))"
      by (rule move_on[OF cd inv, where P = "(page_map (sv_st s) o')(i := None)"]) (use ok i in auto)
    with complete status i show ?thesis by (cases "status = PageNoMore") (simp_all add: page_kept_def)
  next
    case open_page: False
    show ?thesis
    proof (cases "status = PageNoMore")
      case True
      have "book_ok cf ((sv_book s)\<lparr>bk_begin := saturating_inc i\<rparr>) ?P"
        using book_advance[OF sd(1)] i by simp
      then have "moved_on cf o' (put_book o' ((sv_book s)\<lparr>bk_begin := saturating_inc i\<rparr>)
          (put_page o' i (sv_page s) (sv_st s)))"
        by (intro move_on[OF cd inv, where P = ?P]) (use i in auto)
      with open_page True i show ?thesis by (simp add: page_kept_def)
    next
      case False
      have "mq_inv cf {} (put_book o' (sv_book s) (put_page o' i (sv_page s) (sv_st s)))"
        by (rule inv_update[OF inv, where P = ?P]) (use sd(1) i open_page in \<open>auto simp: front_ok_def\<close>)
      with False open_page show ?thesis by (simp add: page_kept_def)
    qed
  qed
qed

lemma page_keeps:
  assumes page: "service_page cf o' ol b w st = Some (n, status, b', w', st')" and lt: "bk_begin b < bk_end b"
  shows "ends_mono (put_book o' b st) (put_book o' b' st') \<and>
    (mq_codec cf \<longrightarrow> tame_processor cf \<longrightarrow> mq_inv cf {} (put_book o' b st) \<longrightarrow> \<not> exhausted (put_book o' b' st') \<longrightarrow>
      page_kept cf o' st status b' st')"
proof (cases "try_consume w (page_base cf)")
  case (Inl u)
  with page show ?thesis by (auto simp: service_page_def page_kept_def)
next
  case (Inr w1)
  show ?thesis
  proof (cases "pages st (o', bk_begin b)")
    case None
    have "\<not> mq_inv cf {} (put_book o' b st)"
    proof
      assume "mq_inv cf {} (put_book o' b st)"
      then have "book_ok cf b (page_map st o')" using inv_book[of cf "{}" "put_book o' b st" o'] by simp
      then show False using None book_okD[OF _ order_refl lt] by (metis page_map_def option.distinct(1))
    qed
    with page Inr None show ?thesis by (auto simp: service_page_def)
  next
    case (Some pg)
    let ?s = "\<lparr>sv_st = st, sv_book = b, sv_page = pg, sv_weight = w1\<rparr>"
    obtain s' where items: "service_items cf o' (bk_begin b) ol 0 ?s = Some (n, status, s')"
      and b': "b' = (if is_complete (sv_page s') then (sv_book s')\<lparr>bk_count := saturating_dec (bk_count (sv_book s'))\<rparr>
        else sv_book s')"
      and st': "st' = (if is_complete (sv_page s') then remove_page o' (bk_begin b) (sv_st s')
        else put_page o' (bk_begin b) (sv_page s') (sv_st s'))"
      using page Inr Some by (auto simp: service_page_def Let_def bind_eq_Some_conv split: if_splits)
    have ends: "bk_end (get_book (put_book o' b' st') a) = bk_end (get_book (commit o' (bk_begin b) s') a)" for a
      by (simp add: b' st')
    have k: "items_kept cf o' (bk_begin b) ?s status s'" using items_keep[OF items] by simp
    show ?thesis
    proof (intro conjI impI)
      show "ends_mono (put_book o' b st) (put_book o' b' st')"
        using k unfolding items_kept_def ends_mono_def ends by (auto split: if_splits)
      assume a: "mq_codec cf" "tame_processor cf" "mq_inv cf {} (put_book o' b st)" "\<not> exhausted (put_book o' b' st')"
      have "\<not> exhausted (commit o' (bk_begin b) s')" using a(4) unfolding exhausted_def ends .
      with k a(1,2) serving_start[OF a(3) Some lt, of w1] show "page_kept cf o' st status b' st'"
        unfolding b' st' items_kept_def by (intro serving_stop) auto
    qed
  qed
qed

section \<open>One queue\<close>

definition pages_kept :: "('o, 'x) mq_config \<Rightarrow> 'o \<Rightarrow> 'o BookState \<Rightarrow> ('o, 'x) mq \<Rightarrow> 'o BookState \<Rightarrow> ('o, 'x) mq \<Rightarrow> bool" where
  "pages_kept cf o' b st b' st' \<longleftrightarrow> ends_mono (put_book o' b st) (put_book o' b' st') \<and>
     (mq_codec cf \<longrightarrow> tame_processor cf \<longrightarrow> moved_on cf o' (put_book o' b st) \<or> mq_inv cf {} (put_book o' b st) \<longrightarrow>
        \<not> exhausted (put_book o' b' st') \<longrightarrow>
        moved_on cf o' (put_book o' b' st') \<or> mq_inv cf {} (put_book o' b' st'))"

lemma pages_keep:
  "service_pages cf o' ol k b w st = Some y \<Longrightarrow> pages_kept cf o' b st (fst (snd y)) (snd (snd (snd y)))"
proof (induction cf o' ol k b w st y rule: service_pages.raw_induct[rotated, consumes 1, case_names step])
  case (step f cf o' ol k b w st y)
  show ?case
  proof (cases "bk_begin b < bk_end b")
    case False
    with step(2) show ?thesis by (auto simp: pages_kept_def)
  next
    case lt: True
    obtain n status b1 w1 st1 where page: "service_page cf o' ol b w st = Some (n, status, b1, w1, st1)"
      and rest: "(if status = PageNoMore then f cf o' ol (saturating_add k n)
          (b1\<lparr>bk_begin := saturating_inc (bk_begin b1)\<rparr>) w1 st1 else Some (saturating_add k n, b1, w1, st1)) = Some y"
      using step(2) lt by (auto simp: bind_eq_Some_conv)
    note p = page_keeps[OF page lt]
    have pre: "moved_on cf o' (put_book o' b st) \<Longrightarrow> mq_inv cf {} (put_book o' b st)" using lt by (simp add: moved_on_def)
    show ?thesis
    proof (cases "status = PageNoMore")
      case False
      with rest p pre show ?thesis by (auto simp: pages_kept_def page_kept_def)
    next
      case True
      let ?b = "b1\<lparr>bk_begin := saturating_inc (bk_begin b1)\<rparr>"
      have r: "pages_kept cf o' ?b st1 (fst (snd y)) (snd (snd (snd y)))"
        using rest True by (intro step(1)) simp
      have m: "ends_mono (put_book o' b st) (put_book o' ?b st1)" "exhausted (put_book o' ?b st1) = exhausted (put_book o' b1 st1)"
        using p by (auto simp: ends_mono_def exhausted_def split: if_splits)
      show ?thesis
        unfolding pages_kept_def
      proof (intro conjI impI)
        show "ends_mono (put_book o' b st) (put_book o' (fst (snd y)) (snd (snd (snd y))))"
          using r ends_mono_trans[OF m(1)] by (simp add: pages_kept_def)
        assume a: "mq_codec cf" "tame_processor cf" "moved_on cf o' (put_book o' b st) \<or> mq_inv cf {} (put_book o' b st)"
          "\<not> exhausted (put_book o' (fst (snd y)) (snd (snd (snd y))))"
        have "\<not> exhausted (put_book o' b1 st1)"
          using a(4) r ends_mono_exhausted m(2) unfolding pages_kept_def by blast
        then have "moved_on cf o' (put_book o' ?b st1)"
          using p a(1-3) pre True by (auto simp: page_kept_def)
        then show "moved_on cf o' (put_book o' (fst (snd y)) (snd (snd (snd y)))) \<or>
            mq_inv cf {} (put_book o' (fst (snd y)) (snd (snd (snd y))))"
          using r a unfolding pages_kept_def by blast
      qed
    qed
  qed
qed

lemma mq_inv_cong:
  assumes "mq_inv cf S st" "get_book st' = get_book st" "page_map st' = page_map st" "service_head st' = service_head st"
  shows "mq_inv cf S st'"
proof -
  have "neighbours_of st' = neighbours_of st" using assms(2) by (intro ext) (simp add: neighbours_of_def)
  then show ?thesis using assms by (simp add: mq_inv_def ring_def)
qed

lemma inv_neighbours:
  assumes "mq_inv cf S st"
  shows "ready_neighbours (get_book st a) = None \<longleftrightarrow> \<not> bk_begin (get_book st a) < bk_end (get_book st a)"
proof -
  obtain r where r: "ring st r" using assms by (auto simp: mq_inv_def)
  then show ?thesis
    using ring_members[OF assms r, of a] linked_inside[of r "neighbours_of st" a] by (simp add: ring_def neighbours_of_def)
qed

lemma done_unknit:
  assumes d: "mq_done cf o' st" and nb: "ready_neighbours (get_book st o') = Some nb"
  shows "mq_inv cf {} (put_book o' ((get_book st o')\<lparr>ready_neighbours := None\<rparr>) (ready_ring_unknit o' nb st))"
proof -
  obtain r where r: "ring st r" "o' \<in> set r" "\<And>a. a \<noteq> o' \<Longrightarrow>
      (a \<in> set r \<longleftrightarrow> bk_begin (get_book st a) < bk_end (get_book st a)) \<and>
      book_ok cf (get_book st a) (page_map st a) \<and> front_ok (get_book st a) (page_map st a)"
    using d unfolding mq_done_def by blast
  then obtain xs ys where xs: "r = xs @ o' # ys" by (auto simp: in_set_conv_decomp)
  have nb': "neighbours_of st o' = Some nb" using nb by (simp add: neighbours_of_def)
  note U = ring_unknit[OF r(1)[unfolded xs] nb']
  note sb = same_but_ring_books[OF U(1)]
  have "distinct r" using r(1) by (simp add: ring_def linked_def)
  then have "set (xs @ ys) = set r - {o'}" by (auto simp: xs)
  moreover have "book_ok cf ((get_book st o')\<lparr>ready_neighbours := None\<rparr>) (page_map st o')"
    "front_ok ((get_book st o')\<lparr>ready_neighbours := None\<rparr>) (page_map st o')"
    using d by (auto simp: mq_done_def book_ok_def front_ok_def)
  ultimately show ?thesis
    unfolding mq_inv_def using U(3)[of "get_book st o'"] r(3) d
    by (intro exI[of _ "xs @ ys"]) (auto simp: sb mq_done_def)
qed

text \<open>The local book is written after the ring has been repaired: the order does not matter.\<close>

lemma unknit_put_book:
  assumes "ring (put_book o' b st) r" "ready_neighbours b = Some nb"
  shows "get_book (put_book o' x (ready_ring_unknit o' nb (put_book o' b st))) =
      get_book (put_book o' x (ready_ring_unknit o' nb st))"
    "page_map (put_book o' x (ready_ring_unknit o' nb (put_book o' b st))) =
      page_map (put_book o' x (ready_ring_unknit o' nb st))"
    "service_head (put_book o' x (ready_ring_unknit o' nb (put_book o' b st))) =
      service_head (put_book o' x (ready_ring_unknit o' nb st))"
proof -
  let ?st = "put_book o' b st"
  have l: "linked r (neighbours_of ?st)" using assms(1) by (simp add: ring_def)
  have nb: "neighbours_of ?st o' = Some nb" using assms(2) by (simp add: neighbours_of_def)
  then obtain xs ys where r: "r = xs @ o' # ys" using linked_inside[OF l, of o'] by (auto simp: in_set_conv_decomp)
  have nb_eq: "nb = \<lparr>nb_prev = last (o' # ys @ xs), nb_next = hd (ys @ xs @ [o'])\<rparr>"
    using linkedD[OF l[unfolded r]] nb by simp
  have dist: "o' \<notin> set (ys @ xs)" using linked_distinct[OF l] r by auto
  have ne: "nb_next nb = o' \<or> (nb_next nb \<noteq> o' \<and> nb_prev nb \<noteq> o')"
    using dist by (cases "ys @ xs") (auto simp: nb_eq hd_append split: if_splits)
  then show "get_book (put_book o' x (ready_ring_unknit o' nb ?st)) = get_book (put_book o' x (ready_ring_unknit o' nb st))"
    "page_map (put_book o' x (ready_ring_unknit o' nb ?st)) = page_map (put_book o' x (ready_ring_unknit o' nb st))"
    "service_head (put_book o' x (ready_ring_unknit o' nb ?st)) = service_head (put_book o' x (ready_ring_unknit o' nb st))"
    by (auto simp: ready_ring_unknit_def mutate_neighbours_def Let_def fun_eq_iff split: option.splits)
qed

lemma unknit_ends: "bk_end (get_book (ready_ring_unknit o' nb st) a) = bk_end (get_book st a)"
  by (simp add: ready_ring_unknit_def mutate_neighbours_def Let_def split: option.split)

text \<open>The end of \<open>service_queue\<close>: a queue without ready pages leaves the ring.\<close>

definition settle :: "'o \<Rightarrow> 'o BookState \<Rightarrow> ('o, 'x) mq \<Rightarrow> 'o BookState \<times> ('o, 'x) mq" where
  "settle o' b st = (if bk_begin b \<ge> bk_end b
     then (case ready_neighbours b of
             Some neighbours \<Rightarrow> (b\<lparr>ready_neighbours := None\<rparr>, ready_ring_unknit o' neighbours st)
           | None \<Rightarrow> (b, st)) else (b, st))"

lemma settle_keeps:
  assumes "moved_on cf o' (put_book o' b st) \<or> mq_inv cf {} (put_book o' b st)" "settle o' b st = (b', st')"
  shows "mq_inv cf {} (put_book o' b' st')"
proof (cases "mq_inv cf {} (put_book o' b st)")
  case True
  have "settle o' b st = (b, st)"
    using inv_neighbours[OF True, of o'] by (auto simp: settle_def split: option.split)
  with assms(2) True show ?thesis by simp
next
  case False
  then have d: "mq_done cf o' (put_book o' b st)" and le: "\<not> bk_begin b < bk_end b"
    using assms(1) by (auto simp: moved_on_def split: if_splits)
  obtain r where r: "ring (put_book o' b st) r" "o' \<in> set r" using d by (auto simp: mq_done_def)
  then obtain nb where nb: "ready_neighbours b = Some nb"
    using linked_inside[of r "neighbours_of (put_book o' b st)" o'] by (auto simp: ring_def neighbours_of_def)
  have "mq_inv cf {} (put_book o' (b\<lparr>ready_neighbours := None\<rparr>) (ready_ring_unknit o' nb (put_book o' b st)))"
    using done_unknit[OF d, of nb] nb by simp
  then have "mq_inv cf {} (put_book o' (b\<lparr>ready_neighbours := None\<rparr>) (ready_ring_unknit o' nb st))"
    by (rule mq_inv_cong) (simp_all only: unknit_put_book[OF r(1) nb])
  then show ?thesis using assms(2) le nb by (auto simp: settle_def split: if_splits)
qed

lemma settle_ends: "settle o' b st = (b', st') \<Longrightarrow>
    bk_end (get_book (put_book o' b' st') a) = bk_end (get_book (put_book o' b st) a)"
  by (auto simp: settle_def unknit_ends split: if_splits option.splits)

lemma queue_keeps:
  assumes q: "service_queue cf o' ol w st = Some (progressed, n, w', st')"
  shows "ends_mono st st' \<and> (mq_codec cf \<longrightarrow> tame_processor cf \<longrightarrow> mq_inv cf {} st \<longrightarrow> \<not> exhausted st' \<longrightarrow> mq_inv cf {} st')"
proof (cases "st' = st")
  case True
  then show ?thesis by simp
next
  case False
  then obtain w1 total b1 w2 st1 where p: "service_pages cf o' ol 0 (get_book st o') w1 st = Some (total, b1, w2, st1)"
    and st': "st' = (let (b2, st2) = settle o' b1 st1; st3 = put_book o' b2 st2
       in if total > 0 then notify_changed cf o' b2 st3 else st3)"
    using q by (auto simp: service_queue_def Let_def settle_def bind_eq_Some_conv split: sum.splits if_splits prod.splits
        option.splits)
  obtain b2 st2 where se: "settle o' b1 st1 = (b2, st2)" by fastforce
  have core: "mq_inv cf {} st' = mq_inv cf {} (put_book o' b2 st2)" "get_book st' = get_book (put_book o' b2 st2)"
    unfolding st' se by (auto simp: notify_changed_def Let_def fun_eq_iff)
  have k: "pages_kept cf o' (get_book st o') st b1 st1" using pages_keep[OF p] by simp
  have ends: "bk_end (get_book st' a) = bk_end (get_book (put_book o' b1 st1) a)" for a
    using settle_ends[OF se] by (simp only: core)
  have start: "mq_inv cf {} (put_book o' (get_book st o') st)" if "mq_inv cf {} st"
    by (rule mq_inv_cong[OF that]) (auto simp: fun_eq_iff)
  show ?thesis
  proof (intro conjI impI)
    show "ends_mono st st'" using k by (auto simp: pages_kept_def ends_mono_def ends split: if_splits)
    assume a: "mq_codec cf" "tame_processor cf" "mq_inv cf {} st" "\<not> exhausted st'"
    have "\<not> exhausted (put_book o' b1 st1)" using a(4) unfolding exhausted_def ends .
    then have "moved_on cf o' (put_book o' b1 st1) \<or> mq_inv cf {} (put_book o' b1 st1)"
      using k a(1,2) start[OF a(3)] unfolding pages_kept_def by blast
    then show "mq_inv cf {} st'" using settle_keeps[OF _ se] core(1) by simp
  qed
qed

section \<open>The ring\<close>

lemma ring_keeps:
  "service_ring cf ol next_o np w st = Some y \<Longrightarrow> ends_mono st (snd y) \<and> (mq_codec cf \<longrightarrow> tame_processor cf \<longrightarrow>
    mq_inv cf {} st \<longrightarrow> \<not> exhausted (snd y) \<longrightarrow> mq_inv cf {} (snd y))"
proof (induction cf ol next_o np w st y rule: service_ring.raw_induct[rotated, consumes 1, case_names step])
  case (step f cf ol next_o np w st y)
  obtain progressed n w1 st1 where q: "service_queue cf next_o ol w st = Some (progressed, n, w1, st1)"
    and rest: "(case n of Some n \<Rightarrow> if \<not> progressed then if np = Some n then Some (w1, st1)
        else f cf ol n (if np = None then Some next_o else np) w1 st1 else f cf ol n None w1 st1
      | None \<Rightarrow> Some (w1, st1)) = Some y"
    using step(2) by (auto simp: bind_eq_Some_conv)
  have "snd y = st1 \<or> (ends_mono st1 (snd y) \<and> (mq_codec cf \<longrightarrow> tame_processor cf \<longrightarrow>
    mq_inv cf {} st1 \<longrightarrow> \<not> exhausted (snd y) \<longrightarrow> mq_inv cf {} (snd y)))"
    using rest step(1) by (auto split: option.splits if_splits)
  with queue_keeps[OF q] show ?case
    using ends_mono_trans[of st st1] ends_mono_exhausted[of st1 "snd y"] by blast
qed

lemma service_queues_inv:
  assumes "item_codec (item_codec_of cf)" "tame_processor cf" "mq_inv cf {} st"
    and "service_queues cf weight_limit st = Some (w, st')" "\<not> exhausted st'"
  shows "mq_inv cf {} st'"
proof (cases "mutex_held st")
  case True
  with assms show ?thesis by (auto simp: service_queues_def with_service_mutex_def Let_def)
next
  case False
  let ?st = "st\<lparr>mutex_held := True\<rparr>"
  obtain n weight st1 where bump: "bump_service_head (w_bump_service_head cf) (meter_with_limit weight_limit) ?st =
    (n, weight, st1)" using prod_cases3 by blast
  obtain r where r: "ring ?st r" using assms(3) by (auto simp: mq_inv_def ring_frame)
  note B = ring_bump[OF r bump]
  have inv1: "mq_inv cf {} st1"
  proof (cases n)
    case None
    with B assms(3) show ?thesis by simp
  next
    case (Some a)
    then obtain xs where "r = a # xs" "ring st1 (xs @ [a])" using B by auto
    moreover have "same_but_ring ?st st1" using B by simp
    note sb = same_but_ring_books[OF this, simplified]
    ultimately show ?thesis
      unfolding mq_inv_def using inv_book[OF assms(3)] inv_front[OF assms(3)] ring_members[OF _ r, of cf "{}"] assms(3)
      by (intro exI[of _ "xs @ [a]"]) (auto simp: sb)
  qed
  show ?thesis
  proof (cases n)
    case None
    then have "st' = st1\<lparr>mutex_held := False\<rparr>"
      using assms(4) False bump by (auto simp: service_queues_def with_service_mutex_def Let_def)
    with inv1 show ?thesis by simp
  next
    case (Some a)
    then obtain weight' st2 where "service_ring cf (case max_message_weight cf weight_limit of Some w \<Rightarrow> w |
        None \<Rightarrow> weight_zero) a None weight st1 = Some (weight', st2)" and st': "st' = st2\<lparr>mutex_held := False\<rparr>"
      using assms(4) False bump by (auto simp: service_queues_def with_service_mutex_def Let_def bind_eq_Some_conv)
    with ring_keeps[OF this(1)] inv1 mq_codec.intro[OF assms(1)] assms(2,5) show ?thesis
      by (auto simp: exhausted_def)
  qed
qed

section \<open>Properties\<close>

text \<open>C3: Servicing the queues keeps the invariant of the pallet: afterwards the ready ring lists exactly the queues
  with ready pages, every book covers its pages, and the counters of pages, messages and bytes are the sums
  over the pages. The processor is arbitrary but for its calls back: messages it enqueues fit a page, and it
  does not sweep the queue it serves. Page indices must not have run out.\<close>

theorem service_queues_keeps_invariant:
  assumes "item_codec (item_codec_of cf)" "tame_processor cf" "mq_inv cf {} st"
    and "service_queues cf weight_limit st = Some (w, st')" "\<not> exhausted st'"
  shows "mq_inv cf {} st'"
  by (rule service_queues_inv[OF assms])

lemma counting_tame: "tame_processor counting_config"
  by (auto simp: tame_processor_def counting_config_def counting_processor_def Let_def split: sum.split)

lemma counting_enqueued:
  assumes "mq_inv counting_config {} st" "length m \<le> 19" "bk_end (get_book st o') \<noteq> umax"
  shows "mq_inv counting_config {} (enqueue_message counting_config m o' st)"
proof -
  have "written counting_config st o' m (do_enqueue_message counting_config o' m st)"
    using assms by (intro counting.enqueue_written) (simp_all add: fits_page_def counting_config_def fixed_codec_def)
  then show ?thesis
    using written_queue(1)[OF assms(1)] by (simp add: enqueue_message_def notify_changed_def Let_def)
qed

definition two_queues :: "(bool, unit) mq" where
  "two_queues = enqueue_message counting_config [3] True (enqueue_message counting_config [99] False empty_mq)"

lemma two_queues_inv: "mq_inv counting_config {} two_queues"
  unfolding two_queues_def
  by (intro counting_enqueued empty_mq_inv) (simp_all, code_simp+)

theorem service_queues_keeps_invariant_witness:
  "item_codec (item_codec_of (counting_config :: (bool, unit) mq_config)) \<and>
   tame_processor (counting_config :: (bool, unit) mq_config) \<and> mq_inv counting_config {} two_queues \<and>
   (\<exists>st'. service_queues counting_config (from_parts 40 40) two_queues = Some (from_parts 15 12, st') \<and>
     \<not> exhausted st' \<and> mq_inv counting_config {} st')"
proof -
  have "map_option (\<lambda>(w, st'). (w, \<exists>a. bk_end (get_book st' a) = umax))
      (service_queues counting_config (from_parts 40 40) two_queues) = Some (from_parts 15 12, False)"
    by code_simp
  then obtain st' where run: "service_queues counting_config (from_parts 40 40) two_queues = Some (from_parts 15 12, st')"
    "\<not> exhausted st'" by (auto simp: exhausted_def)
  show ?thesis
    using run counting_tame two_queues_inv counting.codec
      service_queues_keeps_invariant[OF counting.codec counting_tame two_queues_inv run] by blast
qed

text \<open>C30: A service that executes a message hands to the processor the first message \<open>m\<close> that waits in its queue, with
  its hash, its origin and the meter after the fee of the round. Afterwards every queue is what the processor's
  calls make of it, in their order, without \<open>m\<close>: no other message is lost, doubled or moved, and what the processor
  enqueued is behind the messages that waited. The meter is the one the processor returns, and the message counts
  as processed unless the processor found it overweight. The processor enqueues messages that fit a page and
  does not sweep the queue that is served.\<close>

theorem service_takes_first:
  assumes "item_codec (item_codec_of cf)" "tame_processor cf" "serving cf origin i s"
    and "service_page_item cf origin i overweight_limit s = (ItemExecuted p, s')" "\<not> exhausted (commit origin i s')"
  shows "\<exists>w m q. try_consume (sv_weight s) (w_service_page_item cf) = Inr w \<and>
    queue_of cf (commit origin i s) origin = m # q \<and>
    (let out = process_message cf (commit origin i s) m origin w (blake2_256 cf m)
     in queue_of cf (commit origin i s') =
          fold call_effect (po_calls out) ((queue_of cf (commit origin i s))(origin := q)) \<and>
        sv_weight s' = po_meter out \<and> (p \<longleftrightarrow> (\<nexists>r. po_result out = Inl (Overweight_error r))))"
  by (rule mq_codec.item_first[OF mq_codec.intro[OF assms(1)] assms(2-5)])

definition first_service :: "(bool, unit) service" where
  "first_service = \<lparr>sv_st = two_queues, sv_book = get_book two_queues True, sv_page = the (pages two_queues (True, 0)),
     sv_weight = meter_with_limit (from_parts 40 40)\<rparr>"

lemma first_service_serving: "serving counting_config True 0 first_service"
proof -
  have b: "bk_begin (get_book two_queues True) = 0" "bk_begin (get_book two_queues True) < bk_end (get_book two_queues True)"
    "pages two_queues (True, 0) \<noteq> None" by code_simp+
  have "mq_inv counting_config {} (put_book True (get_book two_queues True) two_queues)"
    by (rule mq_inv_cong[OF two_queues_inv]) (auto simp: fun_eq_iff)
  from serving_start[OF this _ b(2)] b(1,3) show ?thesis by (auto simp: first_service_def)
qed

theorem service_takes_first_witness:
  "serving counting_config True 0 first_service \<and>
   (\<exists>s'. service_page_item counting_config True 0 (from_parts 34 34) first_service = (ItemExecuted True, s') \<and>
     (\<exists>m q. queue_of counting_config (commit True 0 first_service) True = m # q \<and>
       queue_of counting_config (commit True 0 s') = (queue_of counting_config (commit True 0 first_service))(True := q)))"
proof -
  have "(case service_page_item counting_config True 0 (from_parts 34 34) first_service of (r, s') \<Rightarrow>
      (r, \<exists>a. bk_end (get_book (commit True 0 s') a) = umax)) = (ItemExecuted True, False)"
    by code_simp
  then obtain s' where run: "service_page_item counting_config True 0 (from_parts 34 34) first_service = (ItemExecuted True, s')"
    "\<not> exhausted (commit True 0 s')" by (auto simp: exhausted_def split: prod.splits)
  have "po_calls (process_message counting_config st m o' w h) = []" for st :: "(bool, unit) mq" and m o' w h
    by (auto simp: counting_config_def counting_processor_def Let_def split: sum.split)
  with service_takes_first[OF counting.codec counting_tame first_service_serving run] show ?thesis
    using run first_service_serving by (auto simp: Let_def)
qed

end
