(* ===== verification/MQ_Overweight.thy ===== *)
theory MQ_Overweight
  imports MQ_Serving
begin

text \<open>
  The operations on pages behind the cursor of a queue: executing an overweight message and reaping a page.
  Both keep the invariant and leave the waiting messages alone, and both are refused while the service mutex
  is held. Executing a message marks it, so that it is not executed again. Two properties are about executions that
  make the pallet lose messages: of the last message of the only ready page, whose removal the book does not
  follow, and with a processor that enqueues to the queue it is executing a message of, where the book that is
  written back afterwards is the one from before.
\<close>

section \<open>Pages behind the cursor\<close>

lemma book_take:
  assumes b: "book_ok cf b P" "P i = Some pg" "i < bk_begin b"
    and b': "b' = b\<lparr>bk_count := saturating_dec (bk_count b),
      message_count := saturating_sub (message_count b) (ucast (remaining pg)),
      bk_size := saturating_sub (bk_size b) (ucast (pg_remaining_size pg))\<rparr>"
  shows "book_ok cf b' (P(i := None))"
proof -
  have u: "message_count b' = saturating_sub (message_count b) (of_nat (unat (remaining pg)))"
    "bk_size b' = saturating_sub (bk_size b) (of_nat (unat (pg_remaining_size pg)))"
    by (simp_all add: b' of_nat_unat)
  have "page_sum (\<lambda>_. 1) (P(i := None)) + 1 = page_sum (\<lambda>_. 1) P"
    using page_sum_upd[of "\<lambda>_. 1" P i None] b(2) by simp
  then have "unat (bk_count b') = page_sum (\<lambda>_. 1) (P(i := None))"
    using b(1) by (auto simp: b' book_ok_def unat_saturating_dec)
  moreover have "unat (message_count b') = page_sum (\<lambda>pg. unat (remaining pg)) (P(i := None))"
    using sum_sub[of "message_count b" "\<lambda>pg. unat (remaining pg)" P i None "unat (remaining pg)"] b(1,2) unat_lt32
    unfolding u by (simp add: book_ok_def)
  moreover have "unat (bk_size b') = page_sum (\<lambda>pg. unat (pg_remaining_size pg)) (P(i := None))"
    using sum_sub[of "bk_size b" "\<lambda>pg. unat (pg_remaining_size pg)" P i None "unat (pg_remaining_size pg)"] b(1,2) unat_lt32
    unfolding u by (simp add: book_ok_def)
  moreover have "bk_begin b' = bk_begin b" "bk_end b' = bk_end b" by (simp_all add: b')
  ultimately show ?thesis using b(1,3) unfolding book_ok_def by auto
qed

lemma waiting_behind:
  assumes "bk_begin b' = bk_begin b" "bk_end b' = bk_end b" "i < bk_begin b"
  shows "waiting c b' (P(i := x)) = waiting c b P"
  using assms by (intro waiting_cong) auto

section \<open>Reaping\<close>

lemma reap_inner:
  assumes inv: "mq_inv cf {} st"
  shows "do_reap_page_inner cf o' i st = (Inl e, st') \<Longrightarrow> st' = st"
    and "do_reap_page_inner cf o' i st = (Inr (), st') \<Longrightarrow> mq_inv cf {} st' \<and> queue_of cf st' = queue_of cf st"
proof -
  show "st' = st" if "do_reap_page_inner cf o' i st = (Inl e, st')"
    using that by (auto simp: do_reap_page_inner_def Let_def split: if_splits option.splits)
  assume ok: "do_reap_page_inner cf o' i st = (Inr (), st')"
  let ?b = "get_book st o'"
  obtain pg where i: "i < bk_begin ?b" and pg: "pages st (o', i) = Some pg"
    using ok by (auto simp: do_reap_page_inner_def Let_def split: if_splits option.splits)
  define b' where "b' = ?b\<lparr>bk_count := saturating_dec (bk_count ?b),
      message_count := saturating_sub (message_count ?b) (ucast (remaining pg)),
      bk_size := saturating_sub (bk_size ?b) (ucast (pg_remaining_size pg))\<rparr>"
  have st': "st' = deposit_event (PageReaped o' i) (notify_changed cf o' b' (put_book o' b' (remove_page o' i st)))"
    using ok i pg by (auto simp: do_reap_page_inner_def Let_def b'_def split: if_splits)
  have gb: "get_book st' a = (if a = o' then b' else get_book st a)" for a
    by (simp add: st' notify_changed_def)
  have pm: "page_map st' = (page_map st)(o' := (page_map st o')(i := None))"
    by (simp add: st' notify_changed_def)
  have "book_ok cf b' ((page_map st o')(i := None))"
    using book_take[OF inv_book[OF inv] _ i b'_def] pg by (simp add: page_map_def)
  moreover have "front_ok b' ((page_map st o')(i := None))"
    using inv_front[OF inv, of o'] i by (auto simp: front_ok_def b'_def)
  ultimately have "mq_inv cf {} st'"
    by (intro inv_update[OF inv _ pm]) (auto simp: gb b'_def st' notify_changed_def)
  moreover have "queue_of cf st' a = queue_of cf st a" for a
    using waiting_behind[of b' ?b i] i by (auto simp: queue_of_def gb pm b'_def)
  ultimately show "mq_inv cf {} st' \<and> queue_of cf st' = queue_of cf st" by blast
qed

text \<open>Under the mutex nothing that serves, executes or reaps changes the state.\<close>

text \<open>While a service holds the mutex, reaping a page and executing an overweight message fail with
  \<open>RecursiveDisallowed\<close>, a nested service reports that it consumed nothing, and none of them changes
  anything.\<close>

theorem service_mutex_excludes:
  assumes "mutex_held st"
  shows "do_reap_page cf origin page st = (Inl RecursiveDisallowed, st) \<and>
    do_execute_overweight cf origin page index weight_limit st = (Inl RecursiveDisallowed, st) \<and>
    service_queues cf weight_limit st = Some (weight_zero, st)"
  using assms by (simp add: do_reap_page_def do_execute_overweight_def service_queues_def with_service_mutex_def
      meter_with_limit_def Let_def)

theorem service_mutex_excludes_witness:
  "mutex_held (two_queues\<lparr>mutex_held := True\<rparr>) \<and>
   do_reap_page counting_config True 0 (two_queues\<lparr>mutex_held := True\<rparr>) =
     (Inl RecursiveDisallowed, two_queues\<lparr>mutex_held := True\<rparr>)"
  using service_mutex_excludes[of "two_queues\<lparr>mutex_held := True\<rparr>"] by simp

text \<open>C34: Reaping keeps the invariant of the pallet and the waiting messages of every queue, whether it succeeds
  or fails; a reap that fails changes nothing, and one that succeeds was of a page in front of the first ready
  one that has no message left or that the limit on stale pages makes cullable.\<close>

theorem reap_page_safe:
  assumes "mq_inv cf {} st" "do_reap_page cf origin page_index st = (res, st')"
  shows "mq_inv cf {} st' \<and> queue_of cf st' = queue_of cf st \<and>
    (case res of Inl e \<Rightarrow> st' = st
     | Inr _ \<Rightarrow> (\<exists>pg. pages st (origin, page_index) = Some pg \<and> page_index < bk_begin (get_book st origin) \<and>
         (remaining pg = 0 \<or> cullable cf (get_book st origin) page_index) \<and>
         pages st' = (pages st)((origin, page_index) := None)))"
proof (cases "mutex_held st")
  case True
  with assms show ?thesis by (auto simp: do_reap_page_def with_service_mutex_def)
next
  case False
  let ?st = "st\<lparr>mutex_held := True\<rparr>"
  obtain st1 where inner: "do_reap_page_inner cf origin page_index ?st = (res, st1)" "st' = st1\<lparr>mutex_held := False\<rparr>"
    using assms(2) False by (auto simp: do_reap_page_def with_service_mutex_def split: prod.splits)
  have inv: "mq_inv cf {} ?st" using assms(1) by simp
  show ?thesis
  proof (cases res)
    case (Inl e)
    then have "st1 = ?st" using reap_inner(1)[OF inv] inner(1) by blast
    then have "st' = st" using inner(2) False by (cases st) simp
    with Inl assms(1) show ?thesis by simp
  next
    case (Inr u)
    then have k: "mq_inv cf {} st1 \<and> queue_of cf st1 = queue_of cf ?st" using reap_inner(2)[OF inv] inner(1) by simp
    have q: "queue_of cf st' = queue_of cf st" using k inner(2) by (simp add: fun_eq_iff)
    have "\<exists>pg. pages st (origin, page_index) = Some pg \<and> page_index < bk_begin (get_book st origin) \<and>
         (remaining pg = 0 \<or> cullable cf (get_book st origin) page_index) \<and>
         pages st' = (pages st)((origin, page_index) := None)"
      using inner Inr by (auto simp: do_reap_page_inner_def notify_changed_def Let_def split: if_splits option.splits)
    with k q inner(2) Inr show ?thesis by simp
  qed
qed

theorem reap_page_safe_witness:
  "mq_inv counting_config {} two_queues \<and>
   fst (do_reap_page counting_config True 0 two_queues) = Inl NotReapable \<and>
   queue_of counting_config (snd (do_reap_page counting_config True 0 two_queues)) = queue_of counting_config two_queues \<and>
   snd (do_reap_page counting_config True 0 two_queues) = two_queues"
proof -
  have r: "fst (do_reap_page counting_config True 0 two_queues) = Inl NotReapable" by code_simp
  obtain st' where st': "do_reap_page counting_config True 0 two_queues = (Inl NotReapable, st')"
    using r by (cases "do_reap_page counting_config True 0 two_queues") auto
  from reap_page_safe[OF two_queues_inv st'] show ?thesis using st' two_queues_inv by simp
qed

section \<open>Executing overweight messages\<close>

definition quiet_processor :: "('o, 'x) mq_config \<Rightarrow> bool" where
  "quiet_processor cf \<longleftrightarrow> (\<forall>st message origin weight msg_id.
     po_calls (process_message cf st message origin weight msg_id) = [])"

lemma quiet_payload:
  assumes "quiet_processor cf" "process_message_payload cf o' i mi m w ol st = (res, w', st')"
  shows "get_book st' = get_book st" "page_map st' = page_map st" "service_head st' = service_head st" "pages st' = pages st"
  using payload_state[OF assms(2) refl] assms(1) by (auto simp: quiet_processor_def fun_eq_iff)

text \<open>A successful execution: the message was there, unprocessed and behind the cursor; its page is written back
  with the message marked, or removed.\<close>

lemma execute_inner_ok:
  assumes "do_execute_overweight_inner cf o' i idx wl st = (Inr w, st')"
  obtains pg pos m res wc st1 where "pages st (o', i) = Some pg"
    "peek_index (item_codec_of cf) (unat idx) pg = Some (pos, False, m)"
    "i < bk_begin (get_book st o') \<or> i = bk_begin (get_book st o') \<and> pos < unat (pg_first pg)"
    "process_message_payload cf o' i idx m (meter_with_limit wl) weight_MAX st = (res, wc, st1)"
    "let pg' = note_processed_at_pos (item_codec_of cf) pos pg;
         b = (get_book st o')\<lparr>message_count := saturating_dec (message_count (get_book st o')),
           bk_size := saturating_sub (bk_size (get_book st o')) (of_nat (length m))\<rparr>;
         b' = (if remaining pg' = 0 then b\<lparr>bk_count := saturating_dec (bk_count b)\<rparr> else b);
         st2 = (if remaining pg' = 0 then remove_page o' i st1 else put_page o' i pg' st1)
     in st' = notify_changed cf o' b' (put_book o' b' st2)"
proof -
  obtain pg where pg: "pages st (o', i) = Some pg"
    using assms by (auto simp: do_execute_overweight_inner_def Let_def split: if_splits option.splits)
  obtain pos m where pk: "peek_index (item_codec_of cf) (unat idx) pg = Some (pos, False, m)"
    and front: "i < bk_begin (get_book st o') \<or> i = bk_begin (get_book st o') \<and> pos < unat (pg_first pg)"
    using assms pg by (auto simp: do_execute_overweight_inner_def Let_def split: if_splits option.splits)
  obtain res wc st1 where p: "process_message_payload cf o' i idx m (meter_with_limit wl) weight_MAX st = (res, wc, st1)"
    using prod_cases3 by blast
  show ?thesis
    by (rule that[OF pg pk front p])
      (use assms pg pk p in \<open>auto simp: do_execute_overweight_inner_def Let_def
        split: if_splits MessageExecutionStatus.splits\<close>)
qed

text \<open>A message that is marked.\<close>

lemma page_note:
  assumes cd: "mq_codec cf" and ok: "page_ok cf pg"
    and pk: "peek_index (item_codec_of cf) k pg = Some (pos, False, m)"
    and pg': "pg' = note_processed_at_pos (item_codec_of cf) pos pg"
  shows "page_ok cf pg'" "peek_index (item_codec_of cf) k pg' = Some (pos, True, m)" "pg_first pg' = pg_first pg"
    "unat (remaining pg) = Suc (unat (remaining pg'))" "unat (pg_remaining_size pg) = unat (pg_remaining_size pg') + length m"
proof -
  have ic: "item_codec (item_codec_of cf)" using cd by (rule mq_codec.codec)
  note r = ok[unfolded page_ok_def] and pks = item_codec.peek_index_Some[OF ic ok[unfolded page_ok_def] pk]
  note n = mq_codec.ok_note[OF cd ok pk pks(1), folded pg']
  show "page_ok cf pg'" "unat (remaining pg) = Suc (unat (remaining pg'))"
    "unat (pg_remaining_size pg) = unat (pg_remaining_size pg') + length m" by (rule n)+
  have r': "page_repr (item_codec_of cf) (HeapSize cf) ((items_of (item_codec_of cf) pg)[k := (True, m)])
      (unat (first_index pg)) pg'"
    using item_codec.note_processed_repr[OF ic r pks(1)] pks by (simp add: pg')
  show "peek_index (item_codec_of cf) k pg' = Some (pos, True, m)"
    using item_codec.peek_index_repr[OF ic r', of k] pks item_codec.offset_upd[OF ic, of "items_of (item_codec_of cf) pg" k True k]
    by simp
  show "pg_first pg' = pg_first pg" by (simp add: pg' note_processed_at_pos_def split: option.split)
qed

text \<open>The book and the page of a successful execution, whatever the processor did: both were read before it ran and
  are written after it.\<close>

lemma execute_inner_writes:
  assumes cd: "mq_codec cf" and inv: "mq_inv cf {} st"
    and ex: "do_execute_overweight_inner cf o' i idx wl st = (Inr w, st')"
  obtains pg pos m res wc st1 where "pages st (o', i) = Some pg"
    "peek_index (item_codec_of cf) (unat idx) pg = Some (pos, False, m)"
    "process_message_payload cf o' i idx m (meter_with_limit wl) weight_MAX st = (res, wc, st1)"
    "bk_begin (get_book st' o') = bk_begin (get_book st o')" "bk_end (get_book st' o') = bk_end (get_book st o')"
    "ready_neighbours (get_book st' o') = ready_neighbours (get_book st o')"
    "message_count (get_book st' o') = saturating_dec (message_count (get_book st o'))"
    "\<And>j. j \<noteq> i \<Longrightarrow> pages st' (o', j) = pages st1 (o', j)"
    "case pages st' (o', i) of None \<Rightarrow> remaining pg = 1
     | Some pg' \<Rightarrow> remaining pg \<noteq> 1 \<and> peek_index (item_codec_of cf) (unat idx) pg' = Some (pos, True, m) \<and>
         (i < bk_begin (get_book st o') \<or> i = bk_begin (get_book st o') \<and> pos < unat (pg_first pg'))"
proof -
  let ?b = "get_book st o'"
  obtain pg pos m res wc st1 where pg: "pages st (o', i) = Some pg"
    and pk: "peek_index (item_codec_of cf) (unat idx) pg = Some (pos, False, m)"
    and front: "i < bk_begin ?b \<or> i = bk_begin ?b \<and> pos < unat (pg_first pg)"
    and p: "process_message_payload cf o' i idx m (meter_with_limit wl) weight_MAX st = (res, wc, st1)"
    and fin: "let pg' = note_processed_at_pos (item_codec_of cf) pos pg;
         b = ?b\<lparr>message_count := saturating_dec (message_count ?b),
           bk_size := saturating_sub (bk_size ?b) (of_nat (length m))\<rparr>;
         b' = (if remaining pg' = 0 then b\<lparr>bk_count := saturating_dec (bk_count b)\<rparr> else b);
         st2 = (if remaining pg' = 0 then remove_page o' i st1 else put_page o' i pg' st1)
     in st' = notify_changed cf o' b' (put_book o' b' st2)"
    by (rule execute_inner_ok[OF ex])
  define pg' where "pg' = note_processed_at_pos (item_codec_of cf) pos pg"
  have ok: "page_ok cf pg" using inv_book[OF inv, of o'] pg by (auto simp: book_ok_def page_map_def)
  note N = page_note[OF cd ok pk pg'_def]
  have one: "remaining pg = 1 \<longleftrightarrow> remaining pg' = 0" using N(4) by (simp add: word_unat_eq_iff)
  note F = fin[folded pg'_def]
  show thesis
  proof (rule that[OF pg pk p])
    show "case pages st' (o', i) of None \<Rightarrow> remaining pg = 1
     | Some pg' \<Rightarrow> remaining pg \<noteq> 1 \<and> peek_index (item_codec_of cf) (unat idx) pg' = Some (pos, True, m) \<and>
         (i < bk_begin ?b \<or> i = bk_begin ?b \<and> pos < unat (pg_first pg'))"
      using F N(2,3) front one by (auto simp: Let_def notify_changed_def)
  qed (use F in \<open>auto simp: Let_def notify_changed_def\<close>)
qed

lemma book_note:
  assumes cd: "mq_codec cf" and b: "book_ok cf b P" "P i = Some pg" "i < bk_begin b"
    and pk: "peek_index (item_codec_of cf) k pg = Some (pos, False, m)"
    and pg': "pg' = note_processed_at_pos (item_codec_of cf) pos pg"
    and b': "b' = b\<lparr>message_count := saturating_dec (message_count b),
      bk_size := saturating_sub (bk_size b) (of_nat (length m))\<rparr>"
  shows "book_ok cf b' (P(i \<mapsto> pg'))"
proof -
  have ok: "page_ok cf pg" using b(1,2) by (auto simp: book_ok_def)
  note n = page_note(1,4,5)[OF cd ok pk pg']
  have "unat (message_count b') = page_sum (\<lambda>pg. unat (remaining pg)) (P(i \<mapsto> pg'))"
    using sum_sub[of "message_count b" "\<lambda>pg. unat (remaining pg)" P i "Some pg'" 1] b(1,2) unat_lt32 n(2)
    by (simp add: b' saturating_dec_def book_ok_def)
  moreover have "unat (bk_size b') = page_sum (\<lambda>pg. unat (pg_remaining_size pg)) (P(i \<mapsto> pg'))"
    using sum_sub[of "bk_size b" "\<lambda>pg. unat (pg_remaining_size pg)" P i "Some pg'" "length m"] b(1,2) unat_lt32 n(3)
    by (simp add: b' book_ok_def)
  moreover have "unat (bk_count b') = page_sum (\<lambda>_. 1) (P(i \<mapsto> pg'))"
    using page_sum_upd[of "\<lambda>_. 1" P i "Some pg'"] b(1,2) by (simp add: b' book_ok_def)
  moreover have "bk_begin b' = bk_begin b" "bk_end b' = bk_end b" by (simp_all add: b')
  ultimately show "book_ok cf b' (P(i \<mapsto> pg'))" using b n(1) unfolding book_ok_def by auto
qed

lemma execute_inner_keeps:
  assumes cd: "mq_codec cf" and quiet: "quiet_processor cf" and inv: "mq_inv cf {} st"
    and ex: "do_execute_overweight_inner cf o' i idx wl st = (Inr w, st')" and i: "i < bk_begin (get_book st o')"
  shows "mq_inv cf {} st'" "queue_of cf st' = queue_of cf st"
proof -
  let ?b = "get_book st o'"
  obtain pg pos m res wc st1 where pg: "pages st (o', i) = Some pg"
    and pk: "peek_index (item_codec_of cf) (unat idx) pg = Some (pos, False, m)"
    and p: "process_message_payload cf o' i idx m (meter_with_limit wl) weight_MAX st = (res, wc, st1)"
    and fin: "let pg' = note_processed_at_pos (item_codec_of cf) pos pg;
         b = ?b\<lparr>message_count := saturating_dec (message_count ?b),
           bk_size := saturating_sub (bk_size ?b) (of_nat (length m))\<rparr>;
         b' = (if remaining pg' = 0 then b\<lparr>bk_count := saturating_dec (bk_count b)\<rparr> else b);
         st2 = (if remaining pg' = 0 then remove_page o' i st1 else put_page o' i pg' st1)
     in st' = notify_changed cf o' b' (put_book o' b' st2)"
    by (rule execute_inner_ok[OF ex])
  define pg' where "pg' = note_processed_at_pos (item_codec_of cf) pos pg"
  define b1 where "b1 = ?b\<lparr>message_count := saturating_dec (message_count ?b),
    bk_size := saturating_sub (bk_size ?b) (of_nat (length m))\<rparr>"
  define b' where "b' = (if remaining pg' = 0 then b1\<lparr>bk_count := saturating_dec (bk_count b1)\<rparr> else b1)"
  define x where "x = (if remaining pg' = 0 then None else Some pg')"
  note q = quiet_payload[OF quiet p]
  have ok: "page_ok cf pg" using inv_book[OF inv, of o'] pg by (auto simp: book_ok_def page_map_def)
  have N: "book_ok cf b1 ((page_map st o')(i \<mapsto> pg'))" "page_ok cf pg'"
    using book_note[OF cd inv_book[OF inv, of o'] _ i pk pg'_def b1_def] page_note(1)[OF cd ok pk pg'_def] pg
    by (auto simp: page_map_def)
  have gb: "get_book st' a = (if a = o' then b' else get_book st a)" for a
    using fin q(1) by (auto simp: Let_def pg'_def b'_def b1_def notify_changed_def)
  have pm: "page_map st' = (page_map st)(o' := (page_map st o')(i := x))"
    using fin q(2) by (auto simp: Let_def pg'_def[symmetric] x_def notify_changed_def)
  have head: "service_head st' = service_head st"
    using fin q(3) by (auto simp: Let_def notify_changed_def)
  have fields: "bk_begin b' = bk_begin ?b" "bk_end b' = bk_end ?b" "ready_neighbours b' = ready_neighbours ?b"
    by (simp_all add: b'_def b1_def)
  have "book_ok cf b' ((page_map st o')(i := x))"
  proof (cases "remaining pg' = 0")
    case True
    then have "pg_remaining_size pg' = 0" using complete_size[OF cd N(2)] by (simp add: is_complete_def)
    with book_remove[OF N(1), of i pg'] True i show ?thesis by (simp add: b'_def x_def b1_def)
  next
    case False
    with N(1) show ?thesis by (simp add: b'_def x_def)
  qed
  moreover have "front_ok b' ((page_map st o')(i := x))"
    using inv_front[OF inv, of o'] i by (auto simp: front_ok_def fields)
  ultimately show "mq_inv cf {} st'"
    by (intro inv_update[OF inv _ pm head]) (auto simp: gb fields)
  show "queue_of cf st' = queue_of cf st"
    using waiting_behind[OF fields(1,2) i] by (auto simp: queue_of_def gb pm fun_eq_iff)
qed

lemma execute_unwrap:
  assumes "\<not> mutex_held st"
  shows "do_execute_overweight cf o' i idx wl st =
    (case do_execute_overweight_inner cf o' i idx wl (st\<lparr>mutex_held := True\<rparr>) of (r, st1) \<Rightarrow> (r, st1\<lparr>mutex_held := False\<rparr>))"
  using assms by (simp add: do_execute_overweight_def with_service_mutex_def split: prod.split)

text \<open>A processor that only enqueues to the queue of its message.\<close>

lemma enqueue_frame:
  "fold (do_enqueue_message cf o') ms (st\<lparr>mutex_held := b, env := x\<rparr>) =
     (fold (do_enqueue_message cf o') ms st)\<lparr>mutex_held := b, env := x\<rparr>"
proof (induction ms arbitrary: st)
  case (Cons m ms)
  have "do_enqueue_message cf o' m (st\<lparr>mutex_held := b, env := x\<rparr>) = (do_enqueue_message cf o' m st)\<lparr>mutex_held := b, env := x\<rparr>"
    by (simp add: do_enqueue_message_def ready_ring_knit_def mutate_neighbours_def put_book_def put_page_def get_book_def Let_def
        split: option.split sum.split)
  with Cons show ?case by simp
qed simp

lemma payload_pages:
  assumes "process_message_payload cf o' i mi m w ol (st\<lparr>mutex_held := True\<rparr>) = (res, w', st')"
    and "po_calls (process_message cf (st\<lparr>mutex_held := True\<rparr>) m o' w (blake2_256 cf m)) = [EnqueueMessages ms o']"
  shows "pages st' = pages (enqueue_messages cf ms o' st)"
proof -
  have "pages (fold (do_enqueue_message cf o') ms (st\<lparr>mutex_held := b, env := x\<rparr>)) =
      pages (fold (do_enqueue_message cf o') ms st)" for x b
    by (simp add: enqueue_frame)
  with payload_state[OF assms(1) refl] assms(2) show ?thesis
    by (auto simp: enqueue_messages_def notify_changed_def Let_def)
qed

context mq_codec
begin

lemma own_call:
  assumes "mq_inv cf {} st" "list_all (fits_page cf) ms" "\<not> exhausted (enqueue_messages cf ms o' st)"
  shows "queue_of cf (enqueue_messages cf ms o' st) o' = queue_of cf st o' @ ms"
    "bk_begin (get_book st o') = bk_end (get_book st o') \<Longrightarrow> ms \<noteq> [] \<Longrightarrow>
      pages (enqueue_messages cf ms o' st) (o', bk_end (get_book st o')) \<noteq> None"
proof -
  let ?st = "enqueue_messages cf ms o' st" and ?call = "EnqueueMessages ms o'"
  have tame: "tame_call cf o' ?call" using assms(2) by (simp add: list_all_iff)
  have ne: "\<not> exhausted (api_call cf ?call st)" using assms(3) by simp
  have K: "mq_inv cf {} ?st" "grown cf o' st ?st" using api_call_keeps[OF assms(1) tame ne] by simp_all
  show q: "queue_of cf ?st o' = queue_of cf st o' @ ms" using api_call_queues[OF assms(1) tame ne] by simp
  assume e: "bk_begin (get_book st o') = bk_end (get_book st o')" "ms \<noteq> []"
  have g: "bk_begin (get_book ?st o') = bk_end (get_book st o')" "bk_end (get_book st o') \<le> bk_end (get_book ?st o')"
    using K(2) e(1) by (auto simp: grown_def)
  have "bk_end (get_book ?st o') \<noteq> bk_begin (get_book ?st o')"
    using q e(2) by (auto simp: queue_of_def waiting_def msgs_range_def)
  with g have "bk_begin (get_book ?st o') < bk_end (get_book ?st o')" by simp
  from book_okD[OF inv_book[OF K(1), of o'] order_refl this] show
    "pages ?st (o', bk_end (get_book st o')) \<noteq> None" by (auto simp: g page_map_def)
qed

end

section \<open>Properties of execution\<close>

text \<open>C31: An overweight message is executed at most once. After a successful execution, executing the same address again
  is refused without running the processor: the message is marked as processed, or its page is gone. This holds for
  any processor, as long as the queue is not paused. If moreover the processor does not call back and the page of the
  message is in front of the first ready one, the execution keeps the invariant of the pallet and the waiting
  messages of every queue.\<close>

theorem execute_overweight_once:
  assumes "item_codec (item_codec_of cf)" "mq_inv cf {} st" "\<not> mutex_held st"
    and "do_execute_overweight cf origin page index weight_limit st = (Inr w, st')" "\<not> is_paused cf (env st') origin"
  shows "(\<exists>e\<in>{NoPage, AlreadyProcessed}. do_execute_overweight cf origin page index weight_limit' st' = (Inl e, st')) \<and>
    (quiet_processor cf \<longrightarrow> page < bk_begin (get_book st origin) \<longrightarrow>
       mq_inv cf {} st' \<and> queue_of cf st' = queue_of cf st)"
proof -
  let ?st = "st\<lparr>mutex_held := True\<rparr>"
  obtain st1 where ex: "do_execute_overweight_inner cf origin page index weight_limit ?st = (Inr w, st1)"
    and st': "st' = st1\<lparr>mutex_held := False\<rparr>"
    using assms(4) by (auto simp: execute_unwrap[OF assms(3)] split: prod.splits)
  have inv: "mq_inv cf {} ?st" and cd: "mq_codec cf" using assms(1,2) by (simp_all add: mq_codec.intro)
  have "\<exists>e\<in>{NoPage, AlreadyProcessed}. do_execute_overweight cf origin page index weight_limit' st' = (Inl e, st')"
    by (rule execute_inner_writes[OF cd inv ex])
      (use assms(5) in \<open>auto simp: execute_unwrap st' do_execute_overweight_inner_def Let_def split: option.splits\<close>)
  moreover have "mq_inv cf {} st' \<and> queue_of cf st' = queue_of cf st"
    if "quiet_processor cf" "page < bk_begin (get_book st origin)"
    using execute_inner_keeps[OF cd that(1) inv ex] that(2) by (simp add: st' fun_eq_iff)
  ultimately show ?thesis by blast
qed

text \<open>The processor of the examples, which also enqueues a message to the queue it serves when it succeeds.\<close>

definition replying_config :: "(bool, unit) mq_config" where
  "replying_config = counting_config\<lparr>process_message := (\<lambda>st m o' w msg_id.
     let out = counting_processor st m o' w msg_id
     in case po_result out of Inr _ \<Rightarrow> out\<lparr>po_calls := [EnqueueMessages [[1]] o']\<rparr> | Inl _ \<Rightarrow> out)\<rparr>"

text \<open>The queue of \<open>False\<close> after a service that found its only message too heavy.\<close>

definition overweight_left :: "(bool, unit) mq" where
  "overweight_left = (case service_queues counting_config (from_parts 40 40) two_queues of
     Some (_, st) \<Rightarrow> st | None \<Rightarrow> two_queues)"

lemma counting_quiet: "quiet_processor counting_config"
  by (auto simp: quiet_processor_def counting_config_def counting_processor_def Let_def split: sum.split)

lemma overweight_left_run:
  "\<exists>w. service_queues counting_config (from_parts 40 40) two_queues = Some (w, overweight_left)"
  "\<not> (\<exists>a. bk_end (get_book overweight_left a) = umax)" "\<not> mutex_held overweight_left"
  "bk_begin (get_book overweight_left False) = 1" "bk_end (get_book overweight_left False) = 1"
  "Option.bind (pages overweight_left (False, 0)) (peek_index fixed_codec (unat (0 :: u32))) = Some (0, False, [99])"
  "fst (do_execute_overweight counting_config False 0 0 (from_parts 100 100) overweight_left) = Inr (from_parts 100 1)"
  "fst (do_execute_overweight replying_config False 0 0 (from_parts 100 100) overweight_left) = Inr (from_parts 100 1)"
  "\<not> (\<exists>a. bk_end (get_book (enqueue_messages replying_config [[1]] False overweight_left) a) = umax)"
proof -
  have "map_option (\<lambda>(_, st). \<not> (\<exists>a. bk_end (get_book st a) = umax) \<and> \<not> mutex_held st \<and>
      bk_begin (get_book st False) = 1 \<and> bk_end (get_book st False) = 1 \<and>
      Option.bind (pages st (False, 0)) (peek_index fixed_codec (unat (0 :: u32))) = Some (0, False, [99]) \<and>
      fst (do_execute_overweight counting_config False 0 0 (from_parts 100 100) st) = Inr (from_parts 100 1) \<and>
      fst (do_execute_overweight replying_config False 0 0 (from_parts 100 100) st) = Inr (from_parts 100 1) \<and>
      \<not> (\<exists>a. bk_end (get_book (enqueue_messages replying_config [[1]] False st) a) = umax))
    (service_queues counting_config (from_parts 40 40) two_queues) = Some True"
    by code_simp
  then show "\<exists>w. service_queues counting_config (from_parts 40 40) two_queues = Some (w, overweight_left)"
    "\<not> (\<exists>a. bk_end (get_book overweight_left a) = umax)" "\<not> mutex_held overweight_left"
    "bk_begin (get_book overweight_left False) = 1" "bk_end (get_book overweight_left False) = 1"
    "Option.bind (pages overweight_left (False, 0)) (peek_index fixed_codec (unat (0 :: u32))) = Some (0, False, [99])"
    "fst (do_execute_overweight counting_config False 0 0 (from_parts 100 100) overweight_left) = Inr (from_parts 100 1)"
    "fst (do_execute_overweight replying_config False 0 0 (from_parts 100 100) overweight_left) = Inr (from_parts 100 1)"
    "\<not> (\<exists>a. bk_end (get_book (enqueue_messages replying_config [[1]] False overweight_left) a) = umax)"
    unfolding overweight_left_def by (auto simp only: map_option_eq_Some prod.case option.case simp_thms)
qed

lemma overweight_left_inv: "mq_inv counting_config {} overweight_left"
  using service_queues_inv[OF counting.codec counting_tame two_queues_inv] overweight_left_run(1,2)
  by (auto simp: exhausted_def)

theorem execute_overweight_once_witness:
  "mq_inv counting_config {} overweight_left \<and> quiet_processor (counting_config :: (bool, unit) mq_config) \<and>
   (\<exists>st'. do_execute_overweight counting_config False 0 0 (from_parts 100 100) overweight_left =
       (Inr (from_parts 100 1), st') \<and> mq_inv counting_config {} st' \<and>
     (\<exists>e\<in>{NoPage, AlreadyProcessed}. do_execute_overweight counting_config False 0 0 (from_parts 100 100) st' = (Inl e, st')))"
proof -
  obtain st' where ex: "do_execute_overweight counting_config False 0 0 (from_parts 100 100) overweight_left =
      (Inr (from_parts 100 1), st')" using overweight_left_run(7) by (metis prod.collapse)
  have b: "\<not> mutex_held overweight_left" "0 < bk_begin (get_book overweight_left False)"
    by (simp_all add: overweight_left_run(3,4))
  have p: "\<not> is_paused counting_config (env st') False" by (simp add: counting_config_def)
  show ?thesis
    using execute_overweight_once[OF counting.codec overweight_left_inv b(1) ex p, of "from_parts 100 100"] ex b(2)
      overweight_left_inv counting_quiet by blast
qed

text \<open>C32: Executing a message of the first ready page can lose every later message of the queue. A service that runs out
  of weight after it has skipped the last message of a page leaves that page as the first ready one, with nothing to
  serve. If the message is the last unprocessed one of the page, its execution removes the page while the book still
  begins at it. Where that was the only ready page, enqueueing any message then finds no page to append to and
  changes nothing, so that the message is dropped. The witness gets there from an empty pallet.\<close>

theorem enqueue_dropped_after_execution:
  assumes "item_codec (item_codec_of cf)" "mq_inv cf {} st" "\<not> mutex_held st"
    and "do_execute_overweight cf origin page index weight_limit st = (Inr w, st')"
    and "page = bk_begin (get_book st origin)" "bk_end (get_book st origin) = page + 1"
    and "pages st (origin, page) = Some pg" "remaining pg = 1"
  shows "bk_begin (get_book st' origin) < bk_end (get_book st' origin) \<and> queue_of cf st' origin = [] \<and>
    (\<forall>m. do_enqueue_message cf origin m st' = st')"
proof -
  let ?st = "st\<lparr>mutex_held := True\<rparr>"
  obtain st1 where ex: "do_execute_overweight_inner cf origin page index weight_limit ?st = (Inr w, st1)"
    and st': "st' = st1\<lparr>mutex_held := False\<rparr>"
    using assms(4) by (auto simp: execute_unwrap[OF assms(3)] split: prod.splits)
  have inv: "mq_inv cf {} ?st" and cd: "mq_codec cf" using assms(1,2) by (simp_all add: mq_codec.intro)
  have b: "bk_begin (get_book st' origin) = page" "bk_end (get_book st' origin) = page + 1" and gone: "pages st' (origin, page) = None"
    by (rule execute_inner_writes[OF cd inv ex], use assms(5-8) in \<open>auto simp: st' split: option.splits\<close>)+
  have "bk_begin (get_book st origin) \<le> bk_end (get_book st origin)"
    using inv_book[OF assms(2), of origin] by (simp add: book_ok_def)
  then have lt: "page < page + 1" using assms(5,6) by (simp add: order.strict_iff_order)
  then have "1 + page \<noteq> 0" by (metis add.commute word_not_simps(1))
  then have "unat (page + 1) = Suc (unat page)" by (simp add: unatSuc add.commute)
  then have "queue_of cf st' origin = []"
    by (simp add: queue_of_def waiting_def msgs_range_def b page_msgs_def page_map_def gone)
  moreover have "do_enqueue_message cf origin m st' = st'" for m
    using lt gone by (simp add: do_enqueue_message_def Let_def b)
  ultimately show ?thesis using lt by (simp add: b)
qed

text \<open>An overweight message is enqueued and skipped by a service that has weight for nothing else.\<close>

definition skipped_left :: "(bool, unit) mq" where
  "skipped_left = (case service_queues counting_config (from_parts 5 5) (enqueue_message counting_config [99] True empty_mq) of
     Some (_, st) \<Rightarrow> st | None \<Rightarrow> empty_mq)"

lemma skipped_left_run:
  "\<exists>w. service_queues counting_config (from_parts 5 5) (enqueue_message counting_config [99] True empty_mq) = Some (w, skipped_left)"
  "\<not> (\<exists>a. bk_end (get_book skipped_left a) = umax)" "\<not> mutex_held skipped_left"
  "bk_begin (get_book skipped_left True) = 0" "bk_end (get_book skipped_left True) = 1"
  "map_option remaining (pages skipped_left (True, 0)) = Some 1"
  "fst (do_execute_overweight counting_config True 0 0 (from_parts 100 100) skipped_left) = Inr (from_parts 100 1)"
proof -
  have "map_option (\<lambda>(_, st). \<not> (\<exists>a. bk_end (get_book st a) = umax) \<and> \<not> mutex_held st \<and>
      bk_begin (get_book st True) = 0 \<and> bk_end (get_book st True) = 1 \<and> map_option remaining (pages st (True, 0)) = Some 1 \<and>
      fst (do_execute_overweight counting_config True 0 0 (from_parts 100 100) st) = Inr (from_parts 100 1))
    (service_queues counting_config (from_parts 5 5) (enqueue_message counting_config [99] True empty_mq)) = Some True"
    by code_simp
  then show
    "\<exists>w. service_queues counting_config (from_parts 5 5) (enqueue_message counting_config [99] True empty_mq) = Some (w, skipped_left)"
    "\<not> (\<exists>a. bk_end (get_book skipped_left a) = umax)" "\<not> mutex_held skipped_left"
    "bk_begin (get_book skipped_left True) = 0" "bk_end (get_book skipped_left True) = 1"
    "map_option remaining (pages skipped_left (True, 0)) = Some 1"
    "fst (do_execute_overweight counting_config True 0 0 (from_parts 100 100) skipped_left) = Inr (from_parts 100 1)"
    unfolding skipped_left_def by (auto simp only: map_option_eq_Some prod.case option.case simp_thms)
qed

lemma skipped_left_inv: "mq_inv counting_config {} skipped_left"
proof -
  have inv: "mq_inv counting_config {} (enqueue_message counting_config [99] True empty_mq :: (bool, unit) mq)"
    by (intro counting_enqueued empty_mq_inv) (simp_all, code_simp+)
  with service_queues_inv[OF counting.codec counting_tame] skipped_left_run(1,2) show ?thesis by (auto simp: exhausted_def)
qed

theorem enqueue_dropped_after_execution_witness:
  "\<exists>st'. do_execute_overweight counting_config True 0 0 (from_parts 100 100) skipped_left = (Inr (from_parts 100 1), st') \<and>
     queue_of counting_config st' True = [] \<and> do_enqueue_message counting_config True [3] st' = st'"
proof -
  obtain st' where ex: "do_execute_overweight counting_config True 0 0 (from_parts 100 100) skipped_left =
      (Inr (from_parts 100 1), st')" using skipped_left_run(7) by (metis prod.collapse)
  have b: "0 = bk_begin (get_book skipped_left True)" "bk_end (get_book skipped_left True) = 0 + 1"
    by (simp_all add: skipped_left_run(4,5))
  obtain pg where pg: "pages skipped_left (True, 0) = Some pg" "remaining pg = 1" using skipped_left_run(6) by auto
  show ?thesis
    using enqueue_dropped_after_execution[OF counting.codec skipped_left_inv skipped_left_run(3) ex b pg] ex by blast
qed

text \<open>C33: What a processor enqueues to the queue whose overweight message it executes is lost. The book of that queue is
  read before the processor runs and written back after it. If nothing waits in the queue and the processor enqueues
  messages \<open>ms\<close> to it, then no message waits in it afterwards, although the same call at any other time makes \<open>ms\<close>
  wait; the messages are in a stored page that the book does not cover, and the invariant of the pallet is broken.\<close>

theorem execution_overwrites_book:
  assumes "item_codec (item_codec_of cf)" "mq_inv cf {} st" "\<not> mutex_held st"
    and "do_execute_overweight cf origin page index weight_limit st = (Inr w, st')"
    and "bk_begin (get_book st origin) = bk_end (get_book st origin)"
    and "pages st (origin, page) = Some pg" "peek_index (item_codec_of cf) (unat index) pg = Some (pos, f, m)"
    and "po_calls (process_message cf (st\<lparr>mutex_held := True\<rparr>) m origin (meter_with_limit weight_limit) (blake2_256 cf m)) =
      [EnqueueMessages ms origin]"
    and "ms \<noteq> []" "list_all (fits_page cf) ms" "\<not> exhausted (enqueue_messages cf ms origin st)"
  shows "queue_of cf (enqueue_messages cf ms origin st) origin = ms \<and> queue_of cf st' origin = [] \<and>
    pages st' (origin, bk_end (get_book st' origin)) \<noteq> None \<and> \<not> mq_inv cf {} st'"
proof -
  let ?st = "st\<lparr>mutex_held := True\<rparr>" and ?e = "bk_end (get_book st origin)"
  obtain st1 where ex: "do_execute_overweight_inner cf origin page index weight_limit ?st = (Inr w, st1)"
    and st': "st' = st1\<lparr>mutex_held := False\<rparr>"
    using assms(4) by (auto simp: execute_unwrap[OF assms(3)] split: prod.splits)
  have inv: "mq_inv cf {} ?st" and cd: "mq_codec cf" using assms(1,2) by (simp_all add: mq_codec.intro)
  obtain res wc stp where p: "process_message_payload cf origin page index m (meter_with_limit weight_limit) weight_MAX ?st = (res, wc, stp)"
    and k: "bk_begin (get_book st1 origin) = ?e" "bk_end (get_book st1 origin) = ?e"
      "\<And>j. j \<noteq> page \<Longrightarrow> pages st1 (origin, j) = pages stp (origin, j)"
    by (rule execute_inner_writes[OF cd inv ex]) (use assms(5-7) in auto)
  note Q = mq_codec.own_call[OF cd assms(2) assms(10,11)]
  have "pages stp (origin, j) = pages (enqueue_messages cf ms origin st) (origin, j)" for j
    using payload_pages[OF p] assms(8) by simp
  moreover have "page < ?e" using inv_book[OF assms(2), of origin] assms(6) by (auto simp: book_ok_def page_map_def)
  ultimately have lost: "pages st' (origin, ?e) \<noteq> None" using k(3)[of ?e] Q(2) assms(5,9) by (auto simp: st')
  have "queue_of cf st' origin = []" by (simp add: queue_of_def waiting_def msgs_range_def st' k)
  moreover have "\<not> mq_inv cf {} st'"
    using inv_book[of cf "{}" st' origin] lost k(2) by (fastforce simp: book_ok_def page_map_def st')
  moreover have "queue_of cf st origin = []" using assms(5) by (simp add: queue_of_def waiting_def msgs_range_def)
  ultimately show ?thesis using Q(1) lost k(2) by (simp add: st')
qed

theorem execution_overwrites_book_witness:
  "\<exists>st'. do_execute_overweight replying_config False 0 0 (from_parts 100 100) overweight_left = (Inr (from_parts 100 1), st') \<and>
     queue_of replying_config (enqueue_messages replying_config [[1]] False overweight_left) False = [[1]] \<and>
     queue_of replying_config st' False = [] \<and> \<not> mq_inv replying_config {} st'"
proof -
  obtain st' where ex: "do_execute_overweight replying_config False 0 0 (from_parts 100 100) overweight_left =
      (Inr (from_parts 100 1), st')" using overweight_left_run(8) by (metis prod.collapse)
  have same: "item_codec_of replying_config = item_codec_of (counting_config :: (bool, unit) mq_config)"
    "HeapSize replying_config = HeapSize (counting_config :: (bool, unit) mq_config)" by (simp_all add: replying_config_def)
  have inv: "mq_inv replying_config {} overweight_left"
    using overweight_left_inv by (simp add: mq_inv_def book_ok_def page_ok_def in_turn_def same)
  have c: "item_codec (item_codec_of replying_config)" unfolding same by (rule counting.codec)
  have b: "bk_begin (get_book overweight_left False) = bk_end (get_book overweight_left False)"
    by (simp add: overweight_left_run(4,5))
  have fits: "list_all (fits_page replying_config) [[1]]" by code_simp
  have calls: "po_calls (process_message replying_config (overweight_left\<lparr>mutex_held := True\<rparr>) [99] False
      (meter_with_limit (from_parts 100 100)) (blake2_256 replying_config [99])) = [EnqueueMessages [[1]] False]" by code_simp
  have codec: "item_codec_of replying_config = fixed_codec" by (simp add: replying_config_def counting_config_def)
  obtain pg where pg: "pages overweight_left (False, 0) = Some pg"
    "peek_index (item_codec_of replying_config) (unat (0 :: u32)) pg = Some (0, False, [99])"
    using overweight_left_run(6) unfolding codec by (auto simp: bind_eq_Some_conv)
  have ne: "\<not> exhausted (enqueue_messages replying_config [[1]] False overweight_left)"
    using overweight_left_run(9) by (simp add: exhausted_def)
  show ?thesis
    using execution_overwrites_book[OF c inv overweight_left_run(3) ex b pg calls _ fits ne] ex by blast
qed

end
