(* ===== verification/Bridge_Lane_Laws.thy ===== *)
theory Bridge_Lane_Laws
  imports Bridge_Lanes
begin

text \<open>
  What the lane data means. The entries of unrewarded relayers are a run-length encoding of the queue of
  relayers that delivered the unconfirmed messages, one per message: a delivery appends to this queue, a
  confirmation drops its front, and the rewards count the occurrences of a relayer in the confirmed part.
\<close>

section \<open>Lengths of ranges\<close>

lemma unat_saturating_len:
  "unat (saturating_len a b) = (if a \<le> b then min (Suc (unat b - unat a)) (2 ^ 64 - 1) else 0)"
  by (auto simp: saturating_len_def checked_iffs u_arith split: option.splits)

lemma checked_len_Some_iff:
  "checked_len a b = Some l \<longleftrightarrow> a \<le> b \<and> unat l = Suc (unat b - unat a)"
  by (auto simp: checked_len_def checked_iffs u_order split: option.splits)

lemma saturating_len_eq_0: "saturating_len a b = 0 \<longleftrightarrow> b < a"
  using unat_saturating_len[of a b] by (auto simp: word_unat_eq_iff not_less min_def split: if_splits)

section \<open>The queue of deliveries\<close>

fun consecutive :: "MessageNonce \<Rightarrow> 'r UnrewardedRelayer list \<Rightarrow> bool" where
  "consecutive c [] \<longleftrightarrow> True"
| "consecutive c (e # rest) \<longleftrightarrow> unat (dm_begin (ur_messages e)) = Suc (unat c) \<and>
     dm_begin (ur_messages e) \<le> dm_end (ur_messages e) \<and> consecutive (dm_end (ur_messages e)) rest"

definition end_of :: "MessageNonce \<Rightarrow> 'r UnrewardedRelayer list \<Rightarrow> MessageNonce" where
  "end_of c rs = (if rs = [] then c else dm_end (ur_messages (last rs)))"

definition entry_len :: "'r UnrewardedRelayer \<Rightarrow> nat" where
  "entry_len e = Suc (unat (dm_end (ur_messages e))) - unat (dm_begin (ur_messages e))"

definition deliverers :: "'r UnrewardedRelayer list \<Rightarrow> 'r list" where
  "deliverers rs = concat (map (\<lambda>e. replicate (entry_len e) (ur_relayer e)) rs)"

lemma end_of_simps [simp]:
  "end_of c [] = c" "end_of c (e # rest) = end_of (dm_end (ur_messages e)) rest"
  by (auto simp: end_of_def)

lemma deliverers_simps [simp]:
  "deliverers [] = []" "deliverers (e # rest) = replicate (entry_len e) (ur_relayer e) @ deliverers rest"
  "deliverers (rs @ ss) = deliverers rs @ deliverers ss"
  by (auto simp: deliverers_def)

lemma last_delivered_end_of: "last_delivered_nonce d = end_of (last_confirmed_nonce d) (relayers d)"
  by (simp add: last_delivered_nonce_def end_of_def)

lemma end_of_append [simp]: "end_of c (rs @ ss) = end_of (end_of c rs) ss"
  by (simp add: end_of_def)

lemma consecutive_append: "consecutive c (rs @ ss) \<longleftrightarrow> consecutive c rs \<and> consecutive (end_of c rs) ss"
  by (induction rs arbitrary: c) auto

lemma consecutive_end: "consecutive c rs \<Longrightarrow> unat c + length rs \<le> unat (end_of c rs)"
proof (induction rs arbitrary: c)
  case (Cons e rs)
  from Cons.IH[of "dm_end (ur_messages e)"] Cons.prems show ?case by (simp add: u_order)
qed simp

lemma consecutive_le: "consecutive c rs \<Longrightarrow> c \<le> end_of c rs"
  using consecutive_end[of c rs] by (simp add: u_order)

lemma length_deliverers: "consecutive c rs \<Longrightarrow> length (deliverers rs) = unat (end_of c rs) - unat c"
proof (induction rs arbitrary: c)
  case (Cons e rs)
  with consecutive_end[of "dm_end (ur_messages e)" rs] show ?case
    by (auto simp: entry_len_def u_order)
qed simp

lemma unat_Suc_exact: "unat n < unat m \<Longrightarrow> unat (n + 1) = Suc (unat n)"
  for n m :: "'a::len word"
proof -
  assume "unat n < unat m"
  with unat_bound[of m] have "unat n + unat (1 :: 'a word) < 2 ^ LENGTH('a)"
    by (simp del: unsigned_less)
  then show ?thesis by (simp add: unat_plus_exact)
qed

text \<open>Confirming up to \<open>n\<close>.\<close>

lemma trim_pop_confirmed:
  assumes "consecutive c rs" "c \<le> n" "n \<le> end_of c rs"
  shows "consecutive n (trim_front n (pop_confirmed n rs))"
    and "end_of n (trim_front n (pop_confirmed n rs)) = end_of c rs"
    and "deliverers (trim_front n (pop_confirmed n rs)) = drop (unat n - unat c) (deliverers rs)"
    and "length (trim_front n (pop_confirmed n rs)) \<le> length rs"
  using assms
proof (induction rs arbitrary: c)
  case (Cons e rs)
  let ?b = "dm_begin (ur_messages e)" and ?f = "dm_end (ur_messages e)"
  {
    case 1 show ?case
      using Cons.IH(1)[of ?f] 1 by (auto simp: trim_front_def u_order unat_Suc_exact[of n ?f])
  next
    case 2 show ?case
      using Cons.IH(2)[of ?f] 2 by (auto simp: trim_front_def u_order)
  next
    case 3 show ?case
    proof (cases "?f \<le> n")
      case True
      with 3 Cons.IH(3)[of ?f] show ?thesis
        by (simp add: entry_len_def u_order)
    next
      case False
      with 3 show ?thesis
        by (auto simp: trim_front_def entry_len_def u_order unat_Suc_exact[of n ?f] drop_append)
    qed
  next
    case 4 show ?case
      using Cons.IH(4)[of ?f] 4 by (auto simp: trim_front_def u_order split: if_splits)
  }
qed (auto simp: trim_front_def)

text \<open>Delivering the next message.\<close>

lemma note_delivery_appends:
  assumes "consecutive c rs" "unat n = Suc (unat (end_of c rs))"
  shows "consecutive c (note_delivery r n rs)"
    and "end_of c (note_delivery r n rs) = n"
    and "deliverers (note_delivery r n rs) = deliverers rs @ [r]"
    and "length (note_delivery r n rs) \<le> Suc (length rs)"
proof -
  have *: "consecutive c (note_delivery r n rs) \<and> end_of c (note_delivery r n rs) = n \<and>
      deliverers (note_delivery r n rs) = deliverers rs @ [r] \<and> length (note_delivery r n rs) \<le> Suc (length rs)"
  proof (cases rs rule: rev_cases)
    case (snoc es e)
    let ?f = "dm_end (ur_messages e)"
    from assms snoc have f: "unat (?f + 1) = Suc (unat ?f)" "?f + 1 = n"
      using unat_Suc_exact[of ?f n] by (auto simp: word_unat_eq_iff)
    from assms snoc have "unat (dm_begin (ur_messages e)) \<le> unat ?f"
      by (simp add: consecutive_append u_order)
    with f assms snoc show ?thesis
      by (auto simp: note_delivery_def consecutive_append note_dispatched_message_def entry_len_def delivered_new_def
          u_order Suc_diff_le replicate_append_same)
  qed (use assms in \<open>simp_all add: note_delivery_def delivered_new_def entry_len_def\<close>)
  then show "consecutive c (note_delivery r n rs)" "end_of c (note_delivery r n rs) = n"
    "deliverers (note_delivery r n rs) = deliverers rs @ [r]" "length (note_delivery r n rs) \<le> Suc (length rs)"
    by blast+
qed

section \<open>Rewards\<close>

text \<open>The part of the queue behind \<open>c\<close> that holds the nonces from \<open>s\<close> to \<open>f\<close>.\<close>

definition window :: "nat \<Rightarrow> nat \<Rightarrow> nat \<Rightarrow> 'a list \<Rightarrow> 'a list" where
  "window s f c xs = drop (s - Suc c) (take (f - c) xs)"

lemma window_replicate_append:
  "window s f c (replicate k r @ xs) = replicate (Suc (min (c + k) f) - max (Suc c) s) r @ window s f (c + k) xs"
proof (cases "f \<le> c + k")
  case True
  then show ?thesis by (auto simp: window_def min_def max_def)
next
  case False
  then show ?thesis by (auto simp: window_def min_def max_def)
qed

lemma length_window: "length (window s f c xs) \<le> Suc f - s"
  by (auto simp: window_def)

lemma count_list_replicate: "count_list (replicate k r) x = (if x = r then k else 0)"
  by (induction k) auto

lemma count_list_le_length: "count_list xs x \<le> length xs"
  by (induction xs) auto

definition reward_of :: "('r::linorder, MessageNonce) btree \<Rightarrow> 'r \<Rightarrow> nat" where
  "reward_of m r = (case bt_get m r of Some n \<Rightarrow> unat n | None \<Rightarrow> 0)"

lemma reward_entry_counts:
  fixes e :: "'r::linorder UnrewardedRelayer" and s f :: MessageNonce
  defines "k \<equiv> Suc (min (unat (dm_end (ur_messages e))) (unat f)) - max (unat (dm_begin (ur_messages e))) (unat s)"
  assumes "reward_of m (ur_relayer e) + k < 2 ^ 64"
  shows "reward_of (reward_entry s f e m) r = reward_of m r + (if r = ur_relayer e then k else 0)"
    and "dom (bt_get (reward_entry s f e m)) = dom (bt_get m) \<union> (if k = 0 then {} else {ur_relayer e})"
proof -
  define b where "b = max (dm_begin (ur_messages e)) s"
  define l where "l = min (dm_end (ur_messages e)) f"
  have "unat b = max (unat (dm_begin (ur_messages e))) (unat s)" "unat l = min (unat (dm_end (ur_messages e))) (unat f)"
    by (auto simp: b_def l_def max_def min_def u_order)
  then have k: "k = Suc (unat l) - unat b" by (simp add: k_def)
  have eq: "reward_entry s f e m = (if b \<le> l then bt_insert (ur_relayer e)
      ((case bt_get m (ur_relayer e) of Some n \<Rightarrow> n | None \<Rightarrow> 0) + (l - b + 1)) m else m)"
    by (simp add: reward_entry_def Let_def b_def l_def)
  have "reward_of (reward_entry s f e m) r = reward_of m r + (if r = ur_relayer e then k else 0) \<and>
      dom (bt_get (reward_entry s f e m)) = dom (bt_get m) \<union> (if k = 0 then {} else {ur_relayer e})"
  proof (cases "b \<le> l")
    case True
    then have "unat (l - b) = unat l - unat b" by (simp add: unat_minus_exact u_order)
    with True assms(2) have "unat (l - b + 1) = k"
      by (subst unat_plus_exact) (auto simp: k u_order)
    moreover from True have "k \<noteq> 0" by (simp add: k u_order)
    ultimately show ?thesis using True assms(2)
      by (auto simp: eq reward_of_def map_of_bt_insert unat_plus_exact split: option.splits)
  qed (simp add: eq k u_order)
  then show "reward_of (reward_entry s f e m) r = reward_of m r + (if r = ur_relayer e then k else 0)"
    and "dom (bt_get (reward_entry s f e m)) = dom (bt_get m) \<union> (if k = 0 then {} else {ur_relayer e})"
    by blast+
qed

lemma fold_reward_entry:
  fixes rs :: "'r::linorder UnrewardedRelayer list" and s f :: MessageNonce
  assumes "consecutive c rs"
    and "\<And>r. reward_of m r + count_list (window (unat s) (unat f) (unat c) (deliverers rs)) r < 2 ^ 64"
  shows "reward_of (fold (reward_entry s f) rs m) r =
      reward_of m r + count_list (window (unat s) (unat f) (unat c) (deliverers rs)) r \<and>
    dom (bt_get (fold (reward_entry s f) rs m)) =
      dom (bt_get m) \<union> set (window (unat s) (unat f) (unat c) (deliverers rs))"
  using assms
proof (induction rs arbitrary: c m)
  case (Cons e rs)
  define k where "k = Suc (min (unat (dm_end (ur_messages e))) (unat f)) - max (unat (dm_begin (ur_messages e))) (unat s)"
  define w where "w = window (unat s) (unat f) (unat (dm_end (ur_messages e))) (deliverers rs)"
  from Cons.prems(1) have len: "unat c + entry_len e = unat (dm_end (ur_messages e))"
    "Suc (unat c) = unat (dm_begin (ur_messages e))"
    by (auto simp: entry_len_def u_order)
  have w: "window (unat s) (unat f) (unat c) (deliverers (e # rs)) = replicate k (ur_relayer e) @ w"
    by (simp add: window_replicate_append k_def w_def len)
  have bound: "reward_of m x + ((if x = ur_relayer e then k else 0) + count_list w x) < 2 ^ 64" for x
    using Cons.prems(2)[of x, unfolded w] by (simp add: count_list_replicate)
  then have "reward_of m (ur_relayer e) + k < 2 ^ 64"
    using bound[of "ur_relayer e"] by simp
  note step = reward_entry_counts[OF this[unfolded k_def], folded k_def]
  have next_bound: "reward_of (reward_entry s f e m) x + count_list w x < 2 ^ 64" for x
    using bound[of x] by (simp add: step)
  from Cons.prems(1) have c: "consecutive (dm_end (ur_messages e)) rs" by simp
  note IH = Cons.IH[OF c next_bound[unfolded w_def], folded w_def]
  show ?case unfolding w using IH by (auto simp: step count_list_replicate)
qed (simp add: window_def)

lemma calc_relayers_rewards_counts:
  assumes "consecutive c rs" "0 < s"
  shows "reward_of (calc_relayers_rewards rs s f) r = count_list (window (unat s) (unat f) (unat c) (deliverers rs)) r"
    and "dom (bt_get (calc_relayers_rewards rs s f)) = set (window (unat s) (unat f) (unat c) (deliverers rs))"
proof -
  have "reward_of [] x + count_list (window (unat s) (unat f) (unat c) (deliverers rs)) x < 2 ^ 64" for x
  proof -
    have "count_list (window (unat s) (unat f) (unat c) (deliverers rs)) x \<le> Suc (unat f) - unat s"
      by (rule order_trans[OF count_list_le_length length_window])
    with assms(2) unat_bound[of f] show ?thesis by (simp add: reward_of_def u_order)
  qed
  note step = fold_reward_entry[OF assms(1) this]
  show "reward_of (calc_relayers_rewards rs s f) r = count_list (window (unat s) (unat f) (unat c) (deliverers rs)) r"
    using step by (simp add: calc_relayers_rewards_def reward_of_def)
  show "dom (bt_get (calc_relayers_rewards rs s f)) = set (window (unat s) (unat f) (unat c) (deliverers rs))"
    using step by (simp add: calc_relayers_rewards_def)
qed

section \<open>The inbound lane over its storage\<close>

text \<open>The operations on the lane data alone.\<close>

definition update_data :: "OutboundLaneData \<Rightarrow> 'r InboundLaneData \<Rightarrow> MessageNonce option \<times> 'r InboundLaneData" where
  "update_data ob d =
     (let n = latest_received_nonce ob
      in if last_confirmed_nonce d < n \<and> n \<le> last_delivered_nonce d
         then (Some n, d\<lparr>last_confirmed_nonce := n, relayers := trim_front n (pop_confirmed n (relayers d))\<rparr>)
         else (None, d))"

definition rejection :: "MessageNonce \<Rightarrow> MessageNonce \<Rightarrow> MessageNonce \<Rightarrow> 'r InboundLaneData \<Rightarrow> 'd ReceptionResult option" where
  "rejection entries unconfirmed n d =
     (if Some n \<noteq> checked_add (last_delivered_nonce d) 1 then Some InvalidNonce
      else if entries \<le> of_nat (length (relayers d)) then Some TooManyUnrewardedRelayers
      else if unconfirmed < saturating_sub n (last_confirmed_nonce d) then Some TooManyUnconfirmedMessages
      else None)"

definition deliver_data :: "'r \<Rightarrow> MessageNonce \<Rightarrow> 'r InboundLaneData \<Rightarrow> 'r InboundLaneData" where
  "deliver_data relayer n d = d\<lparr>relayers := note_delivery relayer n (relayers d)\<rparr>"

text \<open>
  What a lane relies on: what is stored is read back, reading changes nothing, and neither touches the rest of the
  state. A storage with a cache promises this while the cache agrees with what is stored (\<open>ok\<close>).
\<close>

locale inbound_storage =
  fixes st :: "('s, 'r) InboundLaneStorage"
    and ok :: "'s \<Rightarrow> bool" and view :: "'s \<Rightarrow> 'r InboundLaneData" and others :: "'s \<Rightarrow> 'x"
    and lane :: LaneId and entries :: MessageNonce and unconfirmed :: MessageNonce
  assumes limits: "in_id st s = lane" "max_unrewarded_relayer_entries st s = entries" "max_unconfirmed_messages st s = unconfirmed"
    and get_data: "ok s \<Longrightarrow> get_or_init_data st s = (d, s') \<Longrightarrow> d = view s \<and> ok s' \<and> view s' = view s \<and> others s' = others s"
    and set_data: "ok s \<Longrightarrow> ok (in_set_data st d s)" "ok s \<Longrightarrow> view (in_set_data st d s) = d" "ok s \<Longrightarrow> others (in_set_data st d s) = others s"
begin

lemma receive_state_update_data:
  assumes "ok s" "receive_state_update st ob s = (res, s')"
  shows "(res, view s') = update_data ob (view s)" "ok s'" "others s' = others s"
proof -
  obtain d s1 where g: "get_or_init_data st s = (d, s1)" by fastforce
  from get_data[OF assms(1) g] assms(2) g
  have "(res, view s') = update_data ob (view s) \<and> ok s' \<and> others s' = others s"
    by (auto simp: receive_state_update_def update_data_def Let_def set_data not_less not_le split: if_splits)
  then show "(res, view s') = update_data ob (view s)" "ok s'" "others s' = others s" by blast+
qed

lemma receive_message_data:
  assumes "ok s"
    and keeps: "\<forall>m s r s'. ok s \<longrightarrow> dispatch m s = (r, s') \<longrightarrow> ok s' \<and> view s' = view s"
    and "receive_message st dispatch relayer n payload s = (res, s')"
  shows "ok s'"
    and "rejection entries unconfirmed n (view s) = Some e \<Longrightarrow> res = e \<and> view s' = view s \<and> others s' = others s"
    and "rejection entries unconfirmed n (view s) = (None :: 'd ReceptionResult option) \<Longrightarrow>
      \<exists>s1 dr s2. others s1 = others s \<and>
        dispatch \<lparr>dsp_key = \<lparr>lane_id = lane, nonce = n\<rparr>, dsp_payload = payload\<rparr> s1 = (dr, s2) \<and>
        res = Dispatched dr \<and> view s' = deliver_data relayer n (view s) \<and> others s' = others s2"
proof -
  obtain d s1 where g: "get_or_init_data st s = (d, s1)" by fastforce
  note get = get_data[OF assms(1) g]
  obtain dr s2 where d: "dispatch \<lparr>dsp_key = \<lparr>lane_id = lane, nonce = n\<rparr>, dsp_payload = payload\<rparr> s1 = (dr, s2)" by fastforce
  have k: "ok s2" "view s2 = view s" using keeps[rule_format, OF _ d] get by auto
  show "ok s'" using get k assms(3)
    by (auto simp: receive_message_def g d limits Let_def set_data split: if_splits)
  show "rejection entries unconfirmed n (view s) = Some e \<Longrightarrow> res = e \<and> view s' = view s \<and> others s' = others s"
    using get assms(3) by (auto simp: receive_message_def rejection_def g limits Let_def split: if_splits)
  show "rejection entries unconfirmed n (view s) = (None :: 'd ReceptionResult option) \<Longrightarrow>
      \<exists>s1 dr s2. others s1 = others s \<and>
        dispatch \<lparr>dsp_key = \<lparr>lane_id = lane, nonce = n\<rparr>, dsp_payload = payload\<rparr> s1 = (dr, s2) \<and>
        res = Dispatched dr \<and> view s' = deliver_data relayer n (view s) \<and> others s' = others s2"
    using get k assms(3) d
    by (auto simp: receive_message_def rejection_def deliver_data_def g limits Let_def set_data split: if_splits)
qed

end

section \<open>Well-formed lane data\<close>

text \<open>The entries are consecutive ranges behind the last confirmed nonce, and the limits are kept.\<close>

definition inbound_wf :: "MessageNonce \<Rightarrow> MessageNonce \<Rightarrow> 'r InboundLaneData \<Rightarrow> bool" where
  "inbound_wf entries unconfirmed d \<longleftrightarrow> consecutive (last_confirmed_nonce d) (relayers d) \<and>
     length (relayers d) \<le> unat entries \<and>
     unat (last_delivered_nonce d) \<le> unat (last_confirmed_nonce d) + unat unconfirmed"

lemma inbound_wf_default: "inbound_wf entries unconfirmed inbound_default"
  by (simp add: inbound_wf_def inbound_default_def last_delivered_nonce_def)

lemma update_data_wf:
  assumes "inbound_wf entries unconfirmed d" "update_data ob d = (res, d')"
  shows "inbound_wf entries unconfirmed d'"
    and "last_delivered_nonce d' = last_delivered_nonce d"
    and "last_confirmed_nonce d \<le> last_confirmed_nonce d'"
    and "deliverers (relayers d') = drop (unat (last_confirmed_nonce d') - unat (last_confirmed_nonce d)) (deliverers (relayers d))"
    and "last_confirmed_nonce d' = (case res of Some n \<Rightarrow> n | None \<Rightarrow> last_confirmed_nonce d)"
proof -
  let ?n = "latest_received_nonce ob"
  have *: "inbound_wf entries unconfirmed d' \<and> last_delivered_nonce d' = last_delivered_nonce d \<and>
    last_confirmed_nonce d \<le> last_confirmed_nonce d' \<and>
    deliverers (relayers d') = drop (unat (last_confirmed_nonce d') - unat (last_confirmed_nonce d)) (deliverers (relayers d)) \<and>
    last_confirmed_nonce d' = (case res of Some n \<Rightarrow> n | None \<Rightarrow> last_confirmed_nonce d)"
  proof (cases "last_confirmed_nonce d < ?n \<and> ?n \<le> last_delivered_nonce d")
    case True
    with assms(1) have c: "consecutive (last_confirmed_nonce d) (relayers d)" "last_confirmed_nonce d \<le> ?n"
      "?n \<le> end_of (last_confirmed_nonce d) (relayers d)"
      by (auto simp: inbound_wf_def last_delivered_end_of)
    from True assms c(2) trim_pop_confirmed[OF c] show ?thesis
      by (auto simp: update_data_def Let_def inbound_wf_def last_delivered_end_of u_order)
  qed (use assms in \<open>auto simp: update_data_def Let_def\<close>)
  then show "inbound_wf entries unconfirmed d'" "last_delivered_nonce d' = last_delivered_nonce d"
    "last_confirmed_nonce d \<le> last_confirmed_nonce d'"
    "deliverers (relayers d') = drop (unat (last_confirmed_nonce d') - unat (last_confirmed_nonce d)) (deliverers (relayers d))"
    "last_confirmed_nonce d' = (case res of Some n \<Rightarrow> n | None \<Rightarrow> last_confirmed_nonce d)"
    by blast+
qed

lemma rejection_None_nonce: "rejection entries unconfirmed n d = None \<Longrightarrow> unat n = Suc (unat (last_delivered_nonce d))"
  by (auto simp: rejection_def checked_iffs dest!: sym[of "Some n"] split: if_splits)

lemma deliver_data_wf:
  assumes "inbound_wf entries unconfirmed d" "rejection entries unconfirmed n d = None"
  shows "inbound_wf entries unconfirmed (deliver_data r n d)"
    and "last_delivered_nonce (deliver_data r n d) = n"
    and "deliverers (relayers (deliver_data r n d)) = deliverers (relayers d) @ [r]"
    and "last_confirmed_nonce (deliver_data r n d) = last_confirmed_nonce d"
proof -
  from assms(1) have c: "consecutive (last_confirmed_nonce d) (relayers d)"
    and len: "length (relayers d) \<le> unat entries" by (auto simp: inbound_wf_def)
  from rejection_None_nonce[OF assms(2)]
  have n: "unat n = Suc (unat (end_of (last_confirmed_nonce d) (relayers d)))" by (simp add: last_delivered_end_of)
  note app = note_delivery_appends[OF c n, of r]
  from len unat_bound[of entries] have "length (relayers d) < 2 ^ 64" by simp
  then have "unat (of_nat (length (relayers d)) :: MessageNonce) = length (relayers d)"
    by (simp add: unat_of_nat)
  moreover from assms(2) have "\<not> entries \<le> of_nat (length (relayers d))" "\<not> unconfirmed < saturating_sub n (last_confirmed_nonce d)"
    by (auto simp: rejection_def split: if_splits)
  ultimately have "Suc (length (relayers d)) \<le> unat entries" "unat n \<le> unat (last_confirmed_nonce d) + unat unconfirmed"
    by (auto simp: u_arith)
  with app show "inbound_wf entries unconfirmed (deliver_data r n d)"
    by (simp add: inbound_wf_def deliver_data_def last_delivered_end_of)
  from app show "last_delivered_nonce (deliver_data r n d) = n"
    "deliverers (relayers (deliver_data r n d)) = deliverers (relayers d) @ [r]"
    "last_confirmed_nonce (deliver_data r n d) = last_confirmed_nonce d"
    by (simp_all add: deliver_data_def last_delivered_end_of)
qed

section \<open>The outbound lane over its storage\<close>

text \<open>The proof of a well-formed inbound lane passes the check of the entries.\<close>

lemma check_entries_consecutive:
  assumes "consecutive c rs" "end_of c rs \<le> latest" "expected = checked_add c 1"
  shows "check_entries latest expected rs = Inr ()"
  using assms
proof (induction rs arbitrary: c expected)
  case (Cons e rs)
  from Cons.prems have "expected = Some (dm_begin (ur_messages e))"
    by (simp add: checked_iffs)
  moreover from Cons.prems consecutive_le[of "dm_end (ur_messages e)" rs]
  have "dm_end (ur_messages e) \<le> latest" by auto
  ultimately show ?case using Cons by auto
qed simp

lemma ensure_unrewarded_relayers_consecutive:
  assumes "consecutive c rs" "end_of c rs \<le> latest"
  shows "ensure_unrewarded_relayers_are_correct latest rs = Inr ()"
proof (cases rs)
  case (Cons e es)
  with assms have "checked_add c 1 = Some (dm_begin (ur_messages e))" by (simp add: checked_iffs)
  with Cons check_entries_consecutive[OF assms refl] show ?thesis
    by (simp add: ensure_unrewarded_relayers_are_correct_def)
qed (simp add: ensure_unrewarded_relayers_are_correct_def)

text \<open>The messages that are stored are those from the oldest unpruned one to the last generated one.\<close>

definition outbound_wf :: "OutboundLaneData \<Rightarrow> (MessageNonce \<Rightarrow> 'm option) \<Rightarrow> bool" where
  "outbound_wf d ms \<longleftrightarrow> 0 < oldest_unpruned_nonce d \<and> latest_received_nonce d \<le> latest_generated_nonce d \<and>
     unat (oldest_unpruned_nonce d) \<le> Suc (unat (latest_received_nonce d)) \<and>
     dom ms = {n. oldest_unpruned_nonce d \<le> n \<and> n \<le> latest_generated_nonce d}"

lemma outbound_wf_default: "outbound_wf outbound_default (\<lambda>n. None)"
  by (auto simp: outbound_wf_def outbound_default_def u_order)

lemma weight_mul_0 [simp]: "weight_add a (weight_mul w 0) = a" "weight_sub a (weight_mul w 0) = a"
  by (simp_all add: weight_add_def weight_sub_def weight_mul_def)

lemma weight_mul_Suc:
  "weight_add (weight_add a w) (weight_mul w (of_nat k)) = weight_add a (weight_mul w (of_nat (Suc k)))"
  "weight_sub (weight_sub a w) (weight_mul w (of_nat k)) = weight_sub a (weight_mul w (of_nat (Suc k)))"
  by (simp_all add: weight_add_def weight_sub_def weight_mul_def algebra_simps)

lemma all_gte_twice:
  assumes "all_gte a (weight_add w w)" "fits w w weight_MAX"
  shows "2 * unat (ref_time w) \<le> unat (ref_time a) \<and> 2 * unat (proof_size w) \<le> unat (proof_size a)"
proof -
  from assms(2) have "unat (ref_time w + ref_time w) = unat (ref_time w) + unat (ref_time w)"
    "unat (proof_size w + proof_size w) = unat (proof_size w) + unat (proof_size w)"
    by (rule_tac[!] unat_plus_exact) (simp_all add: fits_def weight_MAX_def unat_umax)
  with assms(1) show ?thesis by (auto simp only: all_gte_def weight_add_def Weight.simps word_le_nat_alt)
qed

lemma unat_weight_mul:
  assumes "Suc k * unat (ref_time w) \<le> unat (ref_time a)" "Suc k * unat (proof_size w) \<le> unat (proof_size a)"
    and "k < 2 ^ 64"
  shows "unat (ref_time (weight_mul w (of_nat k))) = k * unat (ref_time w)"
    "unat (proof_size (weight_mul w (of_nat k))) = k * unat (proof_size w)"
    "unat (ref_time (weight_add (weight_mul w (of_nat k)) w)) = Suc k * unat (ref_time w)"
    "unat (proof_size (weight_add (weight_mul w (of_nat k)) w)) = Suc k * unat (proof_size w)"
proof -
  have k: "unat (of_nat k :: u64) = k" using assms(3) by (simp add: unat_of_nat)
  note bounds = unat_bound[of "ref_time a"] unat_bound[of "proof_size a"]
  show r: "unat (ref_time (weight_mul w (of_nat k))) = k * unat (ref_time w)"
    using assms(1) bounds by (simp add: weight_mul_def unat_mult_exact k mult.commute)
  show p: "unat (proof_size (weight_mul w (of_nat k))) = k * unat (proof_size w)"
    using assms(2) bounds by (simp add: weight_mul_def unat_mult_exact k mult.commute)
  show "unat (ref_time (weight_add (weight_mul w (of_nat k)) w)) = Suc k * unat (ref_time w)"
    using assms(1) bounds r by (simp add: weight_add_def unat_plus_exact)
  show "unat (proof_size (weight_add (weight_mul w (of_nat k)) w)) = Suc k * unat (proof_size w)"
    using assms(2) bounds p by (simp add: weight_add_def unat_plus_exact)
qed

locale outbound_storage =
  fixes st :: "('s, 'm) OutboundLaneStorage" and messages :: "'s \<Rightarrow> MessageNonce \<Rightarrow> 'm option" and others :: "'s \<Rightarrow> 'x"
  assumes set_data [simp]: "out_data st (out_set_data st d s) = d" "messages (out_set_data st d s) = messages s"
      "others (out_set_data st d s) = others s"
    and save [simp]: "out_data st (save_message st n m s) = out_data st s"
      "messages (save_message st n m s) = (messages s)(n \<mapsto> m)" "others (save_message st n m s) = others s"
    and remove [simp]: "out_data st (remove_message st n s) = out_data st s"
      "messages (remove_message st n s) = (messages s)(n := None)" "others (remove_message st n s) = others s"
begin

lemma send_message_data:
  assumes "lane_send_message st m s = (n, s')"
  shows "n = latest_generated_nonce (out_data st s) + 1"
    and "out_data st s' = (out_data st s)\<lparr>latest_generated_nonce := n\<rparr>"
    and "messages s' = (messages s)(n \<mapsto> m)" and "others s' = others s"
  using assms by (auto simp: lane_send_message_def Let_def)

lemma send_message_wf:
  assumes "lane_send_message st m s = (n, s')" "outbound_wf (out_data st s) (messages s)"
    and "latest_generated_nonce (out_data st s) \<noteq> umax"
  shows "outbound_wf (out_data st s') (messages s')"
proof -
  let ?d = "out_data st s"
  note send = send_message_data[OF assms(1)]
  from assms(3) have "unat (latest_generated_nonce ?d) < unat (umax :: u64)"
    using le_umax[of "latest_generated_nonce ?d"] by (auto simp: u_order less_le simp del: le_umax)
  from unat_Suc_exact[OF this] have n: "unat n = Suc (unat (latest_generated_nonce ?d))" by (simp add: send)
  have "unat (oldest_unpruned_nonce ?d) \<le> unat n"
    using assms(2) n by (auto simp: outbound_wf_def u_order)
  then have "{j. oldest_unpruned_nonce ?d \<le> j \<and> j \<le> n} =
      insert n {j. oldest_unpruned_nonce ?d \<le> j \<and> j \<le> latest_generated_nonce ?d}"
    using n by (auto simp: u_order)
  with assms(2) n show ?thesis by (auto simp: outbound_wf_def send(2,3) u_order)
qed

lemma confirm_delivery_cases:
  assumes "confirm_delivery st allowed latest rs s = (res, s')"
  obtains (none) "latest \<le> latest_received_nonce (out_data st s)" "res = Inr None" "s' = s"
  | (error) e where "res = Inl e" "s' = s"
  | (confirmed) "latest_received_nonce (out_data st s) < latest" "latest \<le> latest_generated_nonce (out_data st s)"
      "res = Inr (Some \<lparr>dm_begin = latest_received_nonce (out_data st s) + 1, dm_end = latest\<rparr>)"
      "s' = out_set_data st ((out_data st s)\<lparr>latest_received_nonce := latest\<rparr>) s"
  | (again) "latest_received_nonce (out_data st s) = umax" "latest = umax"
      "s' = out_set_data st ((out_data st s)\<lparr>latest_received_nonce := umax\<rparr>) s"
proof -
  define r where "r = latest_received_nonce (out_data st s)"
  define l where "l = saturating_len (saturating_add r 1) latest"
  have run: "(res, s') = (if l = 0 then (Inr None, s)
      else if latest_generated_nonce (out_data st s) < latest then (Inl FailedToConfirmFutureMessages, s)
      else if allowed < l then (Inl TryingToConfirmMoreMessagesThanExpected, s)
      else case ensure_unrewarded_relayers_are_correct latest rs of Inl e \<Rightarrow> (Inl e, s)
        | Inr _ \<Rightarrow> (Inr (Some \<lparr>dm_begin = saturating_add r 1, dm_end = latest\<rparr>),
            out_set_data st ((out_data st s)\<lparr>latest_received_nonce := latest\<rparr>) s))"
    unfolding assms[symmetric] by (simp add: confirm_delivery_def Let_def total_messages_def r_def l_def split: sum.split)
  consider "l = 0" "latest \<le> r" | "l \<noteq> 0" "r < latest" "saturating_add r 1 = r + 1" | "l \<noteq> 0" "r = umax" "latest = umax"
  proof (cases "r < latest")
    case True
    with unat_Suc_exact[of r latest] unat_bound[of latest] have "saturating_add r 1 = r + 1"
      by (simp add: saturating_add_def u_order)
    moreover have "\<not> latest < r + 1"
      using True unat_Suc_exact[of r latest] by (simp add: u_order)
    with calculation have "l \<noteq> 0" by (simp add: l_def saturating_len_eq_0)
    ultimately show thesis using True that by blast
  next
    case False
    show thesis
    proof (cases "r = umax")
      case True
      then have "saturating_add r 1 = umax" by (simp add: u_arith)
      with False True that le_umax[of latest] show thesis
        by (cases "latest = umax") (auto simp: l_def saturating_len_eq_0 less_le)
    next
      case nonmax: False
      then have "unat r < 2 ^ 64 - 1" using unat_le_umax[of r] by (auto simp: u_arith less_le)
      with False have "latest < saturating_add r 1" by (simp add: u_arith)
      with False that show thesis by (simp add: l_def saturating_len_eq_0 not_less)
    qed
  qed
  then show thesis
    using run that[unfolded r_def[symmetric]] by cases (auto split: if_splits sum.splits)
qed

lemma confirm_delivery_wf:
  assumes "confirm_delivery st allowed latest rs s = (res, s')" "outbound_wf (out_data st s) (messages s)"
  shows "outbound_wf (out_data st s') (messages s')"
  using assms(1)
  by (cases rule: confirm_delivery_cases) (use assms(2) in \<open>auto simp: outbound_wf_def u_order\<close>)

lemma confirm_delivery_honest:
  fixes d :: "'r InboundLaneData"
  assumes "consecutive (last_confirmed_nonce d) (relayers d)"
    and "last_confirmed_nonce d \<le> latest_received_nonce (out_data st s)"
    and "latest_received_nonce (out_data st s) < last_delivered_nonce d"
    and "last_delivered_nonce d \<le> latest_generated_nonce (out_data st s)"
  shows "confirm_delivery st (total_unrewarded_messages d) (last_delivered_nonce d) (relayers d) s =
    (Inr (Some \<lparr>dm_begin = latest_received_nonce (out_data st s) + 1, dm_end = last_delivered_nonce d\<rparr>),
     out_set_data st ((out_data st s)\<lparr>latest_received_nonce := last_delivered_nonce d\<rparr>) s)"
proof -
  define r where "r = latest_received_nonce (out_data st s)"
  define l where "l = last_delivered_nonce d"
  have rl: "r < l" using assms(3) by (simp add: r_def l_def)
  with unat_Suc_exact[of r l] unat_bound[of l] have r1: "saturating_add r 1 = r + 1" "unat (r + 1) = Suc (unat r)"
    by (simp_all add: saturating_add_def u_order)
  from assms(2) rl have "relayers d \<noteq> []" by (auto simp: l_def r_def last_delivered_nonce_def)
  then obtain e es where rs: "relayers d = e # es" by (cases "relayers d") auto
  with assms(1) have b: "unat (dm_begin (ur_messages e)) = Suc (unat (last_confirmed_nonce d))" by simp
  have "total_unrewarded_messages d = saturating_len (dm_begin (ur_messages e)) l"
    using rs by (simp add: total_unrewarded_messages_def l_def last_delivered_nonce_def)
  moreover have "saturating_len (r + 1) l \<le> saturating_len (dm_begin (ur_messages e)) l"
    using assms(2) b r1(2) rl by (auto simp: word_le_nat_alt word_less_nat_alt unat_saturating_len r_def)
  moreover have "\<not> l < r + 1" using rl r1 by (simp add: u_order)
  moreover have "ensure_unrewarded_relayers_are_correct l (relayers d) = Inr ()"
    by (rule ensure_unrewarded_relayers_consecutive[OF assms(1)]) (simp add: l_def last_delivered_end_of)
  ultimately show ?thesis using assms(4)
    by (auto simp: confirm_delivery_def Let_def total_messages_def saturating_len_eq_0 r1(1) r_def[symmetric] l_def[symmetric])
qed

text \<open>
  Pruning ends after \<open>k\<close> messages, all of them received. It stops early only when the weight that is left does
  not cover two more writes.
\<close>

lemma prune_loop_returns:
  assumes "latest_received_nonce data \<noteq> umax"
  obtains k s' where
    "prune_loop st w rem spent data s = Some (weight_add spent (weight_mul w (of_nat k)),
       data\<lparr>oldest_unpruned_nonce := oldest_unpruned_nonce data + of_nat k\<rparr>, s')"
    "k \<le> Suc (unat (latest_received_nonce data)) - unat (oldest_unpruned_nonce data)"
    "k < Suc (unat (latest_received_nonce data)) - unat (oldest_unpruned_nonce data) \<Longrightarrow>
       \<not> all_gte (weight_sub rem (weight_mul w (of_nat k))) (weight_add w w)"
    "fits w w weight_MAX \<Longrightarrow> k \<noteq> 0 \<Longrightarrow> Suc k * unat (ref_time w) \<le> unat (ref_time rem) \<and>
       Suc k * unat (proof_size w) \<le> unat (proof_size rem)"
    "out_data st s' = out_data st s" "others s' = others s"
    "messages s' = (\<lambda>n. if oldest_unpruned_nonce data \<le> n \<and> unat n < unat (oldest_unpruned_nonce data) + k then None else messages s n)"
  using assms
proof (induction "Suc (unat (latest_received_nonce data)) - unat (oldest_unpruned_nonce data)"
    arbitrary: rem spent data s thesis rule: less_induct)
  case less
  let ?o = "oldest_unpruned_nonce data" and ?r = "latest_received_nonce data"
  show thesis
  proof (cases "all_gte rem (weight_add w w) \<and> ?o \<le> ?r")
    case False
    show thesis
    proof (rule less.prems(1)[of 0 s])
      show "prune_loop st w rem spent data s = Some (weight_add spent (weight_mul w (of_nat 0)),
          data\<lparr>oldest_unpruned_nonce := ?o + of_nat 0\<rparr>, s)"
        using False by (subst prune_loop.simps) auto
      show "0 < Suc (unat ?r) - unat ?o \<Longrightarrow> \<not> all_gte (weight_sub rem (weight_mul w (of_nat 0))) (weight_add w w)"
        using False by (auto simp: u_order)
    qed (auto simp: u_order fun_eq_iff)
  next
    case True
    define d where "d = data\<lparr>oldest_unpruned_nonce := ?o + 1\<rparr>"
    have d: "oldest_unpruned_nonce d = ?o + 1" "latest_received_nonce d = ?r"
      and upd: "\<And>x. d\<lparr>oldest_unpruned_nonce := x\<rparr> = data\<lparr>oldest_unpruned_nonce := x\<rparr>"
      by (simp_all add: d_def)
    have "unat ?r < unat (umax :: u64)"
      using le_umax[of ?r] less.prems(2) by (auto simp: u_order less_le simp del: le_umax)
    with True have o1: "unat (?o + 1) = Suc (unat ?o)"
      by (intro unat_Suc_exact[of ?o umax]) (simp add: u_order)
    with True have "Suc (unat (latest_received_nonce d)) - unat (oldest_unpruned_nonce d) < Suc (unat ?r) - unat ?o"
      by (auto simp: word_le_nat_alt d)
    note IH = less.hyps[OF this, of "weight_sub rem w" "weight_add spent w" "remove_message st ?o s",
        unfolded d remove upd]
    obtain k s' where k:
      "prune_loop st w (weight_sub rem w) (weight_add spent w) d (remove_message st ?o s) =
         Some (weight_add (weight_add spent w) (weight_mul w (of_nat k)), data\<lparr>oldest_unpruned_nonce := ?o + 1 + of_nat k\<rparr>, s')"
      "k \<le> Suc (unat ?r) - unat (?o + 1)"
      "k < Suc (unat ?r) - unat (?o + 1) \<Longrightarrow> \<not> all_gte (weight_sub (weight_sub rem w) (weight_mul w (of_nat k))) (weight_add w w)"
      "fits w w weight_MAX \<Longrightarrow> k \<noteq> 0 \<Longrightarrow> Suc k * unat (ref_time w) \<le> unat (ref_time (weight_sub rem w)) \<and>
         Suc k * unat (proof_size w) \<le> unat (proof_size (weight_sub rem w))"
      "out_data st s' = out_data st s" "others s' = others s"
      "messages s' = (\<lambda>n. if ?o + 1 \<le> n \<and> unat n < unat (?o + 1) + k then None else ((messages s)(?o := None)) n)"
      using IH[OF _ less.prems(2)] by blast
    show thesis
    proof (rule less.prems(1)[of "Suc k" s'])
      show "prune_loop st w rem spent data s = Some (weight_add spent (weight_mul w (of_nat (Suc k))),
          data\<lparr>oldest_unpruned_nonce := ?o + of_nat (Suc k)\<rparr>, s')"
        using True by (subst prune_loop.simps) (simp add: k(1)[unfolded d_def weight_mul_Suc] add.assoc)
      show "Suc k \<le> Suc (unat ?r) - unat ?o" using k(2) o1 True by (auto simp: u_order)
      show "Suc k < Suc (unat ?r) - unat ?o \<Longrightarrow> \<not> all_gte (weight_sub rem (weight_mul w (of_nat (Suc k)))) (weight_add w w)"
        using k(3) o1 unfolding weight_mul_Suc by simp
      show "Suc (Suc k) * unat (ref_time w) \<le> unat (ref_time rem) \<and> Suc (Suc k) * unat (proof_size w) \<le> unat (proof_size rem)"
        if "fits w w weight_MAX" using k(4)[OF that] all_gte_twice[OF _ that, of rem] True
        by (cases "k = 0") (auto simp: weight_sub_def unat_minus_exact)
      show "messages s' = (\<lambda>n. if ?o \<le> n \<and> unat n < unat ?o + Suc k then None else messages s n)"
        unfolding k(7) using o1 by (auto simp: fun_eq_iff u_order)
    qed (use k in auto)
  qed
qed

lemma prune_messages_ok:
  fixes db :: RuntimeDbWeight and rem :: Weight
  defines "w \<equiv> db_writes db 1"
  assumes wf: "outbound_wf (out_data st s) (messages s)" and "latest_received_nonce (out_data st s) \<noteq> umax"
    and "fits w w weight_MAX" and "\<not> weight_is_zero w"
  obtains spent s' where "prune_messages st db rem s = Some (spent, s')" "all_lte spent rem"
    "outbound_wf (out_data st s') (messages s')"
    "latest_received_nonce (out_data st s') = latest_received_nonce (out_data st s)"
    "latest_generated_nonce (out_data st s') = latest_generated_nonce (out_data st s)"
    "others s' = others s" "\<And>n. latest_received_nonce (out_data st s) < n \<Longrightarrow> messages s' n = messages s n"
    "\<And>n m. messages s' n = Some m \<Longrightarrow> messages s n = Some m"
    "all_gte rem (weight_add w w) \<Longrightarrow> oldest_unpruned_nonce (out_data st s) \<le> latest_received_nonce (out_data st s) \<Longrightarrow>
       oldest_unpruned_nonce (out_data st s) < oldest_unpruned_nonce (out_data st s')"
proof -
  let ?d = "out_data st s"
  let ?o = "oldest_unpruned_nonce ?d" and ?r = "latest_received_nonce ?d"
  obtain k s1 where k: "prune_loop st w rem weight_zero ?d s = Some (weight_add weight_zero (weight_mul w (of_nat k)),
       ?d\<lparr>oldest_unpruned_nonce := ?o + of_nat k\<rparr>, s1)"
    "k \<le> Suc (unat ?r) - unat ?o"
    "k < Suc (unat ?r) - unat ?o \<Longrightarrow> \<not> all_gte (weight_sub rem (weight_mul w (of_nat k))) (weight_add w w)"
    "fits w w weight_MAX \<Longrightarrow> k \<noteq> 0 \<Longrightarrow> Suc k * unat (ref_time w) \<le> unat (ref_time rem) \<and>
       Suc k * unat (proof_size w) \<le> unat (proof_size rem)"
    "out_data st s1 = ?d" "others s1 = others s"
    "messages s1 = (\<lambda>n. if ?o \<le> n \<and> unat n < unat ?o + k then None else messages s n)"
    using prune_loop_returns[OF assms(3), of w rem weight_zero s] by blast
  have zero: "weight_add weight_zero x = x" for x by (simp add: weight_add_def weight_zero_def)
  from wf have o: "0 < unat ?o" "unat ?o \<le> Suc (unat ?r)" "unat ?r \<le> unat (latest_generated_nonce ?d)"
    by (auto simp: outbound_wf_def u_order)
  have rmax: "unat ?r < 2 ^ 64 - 1"
    using assms(3) unat_le_umax[of ?r] by (auto simp: u_arith less_le)
  show thesis
  proof (cases "k = 0")
    case True
    have "messages s1 = messages s" unfolding k(7) True by (auto simp: fun_eq_iff u_order)
    moreover have "\<not> all_gte rem (weight_add w w)" if "?o \<le> ?r"
      using k(3) that by (simp add: True word_le_nat_alt)
    moreover have "prune_messages st db rem s = Some (weight_zero, s1)"
      using k(1) by (simp add: prune_messages_def Let_def w_def[symmetric] True weight_is_zero_def)
    ultimately show thesis using k(5,6) wf by (intro that[of weight_zero s1]) auto
  next
    case False
    have k64: "k < 2 ^ 64" using k(2) rmax by linarith
    note um = unat_weight_mul[OF conjunct1[OF k(4)[OF assms(4) False]] conjunct2[OF k(4)[OF assms(4) False]] k64]
    have nz: "\<not> weight_is_zero (weight_mul w (of_nat k))"
      using assms(5) um(1,2) False by (auto simp: weight_is_zero_def weight_zero_def weight_eq_iff word_unat_eq_iff)
    have ok: "unat (?o + of_nat k) = unat ?o + k"
      using k(2) o rmax k64 by (subst unat_plus_exact) (auto simp: unat_of_nat)
    show thesis
    proof (rule that)
      show "prune_messages st db rem s = Some (weight_add (weight_mul w (of_nat k)) w,
          out_set_data st (?d\<lparr>oldest_unpruned_nonce := ?o + of_nat k\<rparr>) s1)"
        using nz by (simp add: prune_messages_def Let_def w_def[symmetric] k(1) zero)
      show "all_lte (weight_add (weight_mul w (of_nat k)) w) rem"
        using k(4)[OF assms(4) False] um(3,4) by (simp only: all_lte_def word_le_nat_alt)
      show "outbound_wf (out_data st (out_set_data st (?d\<lparr>oldest_unpruned_nonce := ?o + of_nat k\<rparr>) s1))
          (messages (out_set_data st (?d\<lparr>oldest_unpruned_nonce := ?o + of_nat k\<rparr>) s1))"
        using wf o k(2) ok unfolding k(7) by (auto simp: outbound_wf_def u_order k(7) dom_def)
    qed (use k ok False o in \<open>auto simp: u_order split: if_splits\<close>)
  qed
qed

end

end
