(* ===== verification/Bridge_Weights.thy ===== *)
theory Bridge_Weights
  imports Bridge_Lanes
begin

text \<open>
  The weight formulae of the bridge messages pallet (\<open>bridges/modules/messages/src/weights_ext.rs\<close>) over the
  benchmarked weights (\<open>weights.rs\<close>), and the assertions a runtime makes about them. A function that only
  asserts is a truth value here: whether every assertion passes.

  The assertions sample the formulae at single points. The lemmas show that the samples decide the formulae
  everywhere, and that the actual weight of a confirmation is at most the declared one.
\<close>

section \<open>Benchmarked weights\<close>

record WeightInfo =
  receive_single_message_proof :: Weight
  receive_two_messages_proof :: Weight
  receive_single_message_proof_with_outbound_lane_state :: Weight
  receive_single_message_proof_1_kb :: Weight
  receive_single_message_proof_16_kb :: Weight
  receive_delivery_proof_for_single_message :: Weight
  receive_delivery_proof_for_two_messages_by_single_relayer :: Weight
  receive_delivery_proof_for_two_messages_by_two_relayers :: Weight
  receive_single_message_proof_with_dispatch :: "u32 \<Rightarrow> Weight"

text \<open>The methods of \<open>WeightInfoExt\<close> that have no default.\<close>

record WeightInfoExt = WeightInfo +
  expected_extra_storage_proof_size :: u32
  receive_messages_proof_overhead_from_runtime :: Weight
  receive_messages_delivery_proof_overhead_from_runtime :: Weight

definition EXPECTED_DEFAULT_MESSAGE_LENGTH :: u32 where
  "EXPECTED_DEFAULT_MESSAGE_LENGTH = 128"

definition SIGNED_EXTENSIONS_SIZE :: u32 where
  "SIGNED_EXTENSIONS_SIZE = 1024"

definition EXTRA_STORAGE_PROOF_SIZE :: u32 where
  "EXTRA_STORAGE_PROOF_SIZE = 1024"

definition measured :: "RuntimeDbWeight \<Rightarrow> u64 \<Rightarrow> u64 \<Rightarrow> u64 \<Rightarrow> u64 \<Rightarrow> Weight" where
  "measured db time proof_len rs ws = weight_saturating_add (weight_saturating_add (from_parts time proof_len) (db_reads db rs)) (db_writes db ws)"

definition bridge_weight :: "RuntimeDbWeight \<Rightarrow> WeightInfoExt" where
  "bridge_weight db = \<lparr>
     receive_single_message_proof = measured db 54478000 57170 3 1,
     receive_two_messages_proof = measured db 69267000 57170 3 1,
     receive_single_message_proof_with_outbound_lane_state = measured db 65905000 57170 3 1,
     receive_single_message_proof_1_kb = measured db 53544000 57170 3 1,
     receive_single_message_proof_16_kb = measured db 81748000 57170 3 1,
     receive_delivery_proof_for_single_message = measured db 47382000 9584 4 2,
     receive_delivery_proof_for_two_messages_by_single_relayer = measured db 45451000 9584 4 2,
     receive_delivery_proof_for_two_messages_by_two_relayers = measured db 48311000 12124 5 3,
     receive_single_message_proof_with_dispatch = (\<lambda>i. weight_saturating_add
       (weight_saturating_add (weight_saturating_add (from_parts 54919468 57170) (weight_saturating_mul (from_parts 3286 0) (ucast i)))
         (db_reads db 3)) (db_writes db 1)),
     expected_extra_storage_proof_size = EXTRA_STORAGE_PROOF_SIZE,
     receive_messages_proof_overhead_from_runtime = weight_zero,
     receive_messages_delivery_proof_overhead_from_runtime = weight_zero\<rparr>"

definition rocks_db_weight :: RuntimeDbWeight where
  "rocks_db_weight = \<lparr>db_read = 25000 * 1000, db_write = 100000 * 1000\<rparr>"

section \<open>The formulae\<close>

definition receive_messages_proof_overhead :: "WeightInfoExt \<Rightarrow> Weight" where
  "receive_messages_proof_overhead W =
     weight_saturating_sub (weight_saturating_mul (receive_single_message_proof W) 2) (receive_two_messages_proof W)"

definition receive_messages_proof_messages_overhead :: "WeightInfoExt \<Rightarrow> MessageNonce \<Rightarrow> Weight" where
  "receive_messages_proof_messages_overhead W messages =
     weight_saturating_mul (weight_saturating_sub (receive_two_messages_proof W) (receive_single_message_proof W)) messages"

definition receive_messages_proof_outbound_lane_state_overhead :: "WeightInfoExt \<Rightarrow> Weight" where
  "receive_messages_proof_outbound_lane_state_overhead W =
     weight_saturating_sub (receive_single_message_proof_with_outbound_lane_state W) (receive_single_message_proof W)"

definition receive_messages_delivery_proof_overhead :: "WeightInfoExt \<Rightarrow> Weight" where
  "receive_messages_delivery_proof_overhead W =
     weight_saturating_sub (weight_saturating_mul (receive_delivery_proof_for_single_message W) 2)
       (receive_delivery_proof_for_two_messages_by_single_relayer W)"

definition receive_messages_delivery_proof_messages_overhead :: "WeightInfoExt \<Rightarrow> MessageNonce \<Rightarrow> Weight" where
  "receive_messages_delivery_proof_messages_overhead W messages =
     weight_saturating_mul (weight_saturating_sub (receive_delivery_proof_for_two_messages_by_single_relayer W)
       (receive_delivery_proof_for_single_message W)) messages"

definition receive_messages_delivery_proof_relayers_overhead :: "WeightInfoExt \<Rightarrow> MessageNonce \<Rightarrow> Weight" where
  "receive_messages_delivery_proof_relayers_overhead W rs =
     weight_saturating_mul (weight_saturating_sub (receive_delivery_proof_for_two_messages_by_two_relayers W)
       (receive_delivery_proof_for_two_messages_by_single_relayer W)) rs"

text \<open>The difference and the product are the plain operators; the divisor is a constant.\<close>

definition storage_proof_size_overhead :: "WeightInfoExt \<Rightarrow> u32 \<Rightarrow> Weight" where
  "storage_proof_size_overhead W proof_len =
     (let d = weight_sub (receive_single_message_proof_16_kb W) (receive_single_message_proof_1_kb W);
          byte_weight = from_parts (ref_time d div (15 * 1024)) (proof_size d div (15 * 1024))
      in weight_mul byte_weight (ucast proof_len))"

definition message_dispatch_weight :: "WeightInfoExt \<Rightarrow> u32 \<Rightarrow> Weight" where
  "message_dispatch_weight W message_size =
     weight_saturating_sub (receive_single_message_proof_with_dispatch W message_size) (receive_single_message_proof W)"

text \<open>A proof enters the formulae with its size.\<close>

definition receive_messages_proof_weight :: "WeightInfoExt \<Rightarrow> u32 \<Rightarrow> u32 \<Rightarrow> Weight \<Rightarrow> Weight" where
  "receive_messages_proof_weight W proof_len messages_count dispatch_weight =
     (let transaction_overhead = receive_messages_proof_overhead W;
          transaction_overhead_from_runtime = receive_messages_proof_overhead_from_runtime W;
          outbound_state_delivery_weight = receive_messages_proof_outbound_lane_state_overhead W;
          messages_delivery_weight = receive_messages_proof_messages_overhead W (ucast messages_count);
          messages_dispatch_weight = dispatch_weight;
          expected_proof_size = saturating_add (saturating_mul EXPECTED_DEFAULT_MESSAGE_LENGTH (saturating_sub messages_count 1))
            (expected_extra_storage_proof_size W);
          proof_size_overhead = storage_proof_size_overhead W (saturating_sub proof_len expected_proof_size)
      in weight_saturating_add (weight_saturating_add (weight_saturating_add (weight_saturating_add (weight_saturating_add
           transaction_overhead transaction_overhead_from_runtime) outbound_state_delivery_weight) messages_delivery_weight)
           messages_dispatch_weight) proof_size_overhead)"

definition receive_messages_delivery_proof_weight :: "WeightInfoExt \<Rightarrow> u32 \<Rightarrow> UnrewardedRelayersState \<Rightarrow> Weight" where
  "receive_messages_delivery_proof_weight W proof_len relayers_state =
     (let transaction_overhead = receive_messages_delivery_proof_overhead W;
          transaction_overhead_from_runtime = receive_messages_delivery_proof_overhead_from_runtime W;
          messages_overhead = receive_messages_delivery_proof_messages_overhead W (urs_total_messages relayers_state);
          relayers_overhead = receive_messages_delivery_proof_relayers_overhead W (unrewarded_relayer_entries relayers_state);
          expected_proof_size = expected_extra_storage_proof_size W;
          proof_size_overhead = storage_proof_size_overhead W (saturating_sub proof_len expected_proof_size)
      in weight_saturating_add (weight_saturating_add (weight_saturating_add (weight_saturating_add
           transaction_overhead transaction_overhead_from_runtime) messages_overhead) relayers_overhead) proof_size_overhead)"

section \<open>The assertions\<close>

definition ensure_weight_components_are_not_zero :: "Weight \<Rightarrow> bool" where
  "ensure_weight_components_are_not_zero w \<longleftrightarrow> ref_time w \<noteq> 0 \<and> proof_size w \<noteq> 0"

definition ensure_proof_size_is_the_same :: "Weight \<Rightarrow> Weight \<Rightarrow> bool" where
  "ensure_proof_size_is_the_same w1 w2 \<longleftrightarrow> proof_size w1 = proof_size w2"

definition same_and_not_zero :: "Weight \<Rightarrow> Weight \<Rightarrow> bool" where
  "same_and_not_zero w1 w2 \<longleftrightarrow> ensure_weight_components_are_not_zero w1 \<and> ensure_weight_components_are_not_zero w2 \<and>
     ensure_proof_size_is_the_same w1 w2"

definition messages_proof_size_does_not_affect_proof_size :: "WeightInfoExt \<Rightarrow> bool" where
  "messages_proof_size_does_not_affect_proof_size W \<longleftrightarrow>
     same_and_not_zero (receive_messages_proof_weight W (8 * 1024) 1 weight_zero) (receive_messages_proof_weight W (16 * 1024) 1 weight_zero)"

definition messages_count_does_not_affect_proof_size :: "WeightInfoExt \<Rightarrow> bool" where
  "messages_count_does_not_affect_proof_size W \<longleftrightarrow>
     same_and_not_zero (receive_messages_proof_weight W (8 * 1024) 1 weight_zero) (receive_messages_proof_weight W (8 * 1024) 2 weight_zero)"

definition messages_delivery_proof_size_does_not_affect_proof_size :: "WeightInfoExt \<Rightarrow> bool" where
  "messages_delivery_proof_size_does_not_affect_proof_size W \<longleftrightarrow>
     (let relayers_state = \<lparr>unrewarded_relayer_entries = 1, messages_in_oldest_entry = 1, urs_total_messages = 1, urs_last_delivered_nonce = 1\<rparr>
      in same_and_not_zero (receive_messages_delivery_proof_weight W (8 * 1024) relayers_state)
           (receive_messages_delivery_proof_weight W (16 * 1024) relayers_state))"

definition total_messages_in_delivery_proof_does_not_affect_proof_size :: "WeightInfoExt \<Rightarrow> bool" where
  "total_messages_in_delivery_proof_does_not_affect_proof_size W \<longleftrightarrow>
     same_and_not_zero
       (receive_messages_delivery_proof_weight W (8 * 1024) \<lparr>unrewarded_relayer_entries = 1, messages_in_oldest_entry = 1,
          urs_total_messages = 1024, urs_last_delivered_nonce = 1\<rparr>)
       (receive_messages_delivery_proof_weight W (8 * 1024) \<lparr>unrewarded_relayer_entries = 1, messages_in_oldest_entry = 1,
          urs_total_messages = 2048, urs_last_delivered_nonce = 1\<rparr>)"

definition ensure_weights_are_correct :: "WeightInfoExt \<Rightarrow> bool" where
  "ensure_weights_are_correct W \<longleftrightarrow>
     ensure_weight_components_are_not_zero (receive_messages_proof_overhead W) \<and>
     proof_size (receive_messages_proof_messages_overhead W 1) = 0 \<and>
     proof_size (receive_messages_proof_outbound_lane_state_overhead W) = 0 \<and>
     ref_time (storage_proof_size_overhead W 1) \<noteq> 0 \<and>
     proof_size (storage_proof_size_overhead W 1) = 0 \<and>
     ensure_weight_components_are_not_zero (receive_messages_delivery_proof_overhead W) \<and>
     proof_size (receive_messages_delivery_proof_messages_overhead W 1) = 0 \<and>
     ensure_weight_components_are_not_zero (receive_messages_proof_weight W 1 10 weight_zero) \<and>
     messages_proof_size_does_not_affect_proof_size W \<and>
     messages_count_does_not_affect_proof_size W \<and>
     ensure_weight_components_are_not_zero (receive_messages_delivery_proof_weight W 1
       \<lparr>unrewarded_relayer_entries = 0, messages_in_oldest_entry = 0, urs_total_messages = 0, urs_last_delivered_nonce = 0\<rparr>) \<and>
     messages_delivery_proof_size_does_not_affect_proof_size W \<and>
     total_messages_in_delivery_proof_does_not_affect_proof_size W"

definition ensure_able_to_receive_message :: "WeightInfoExt \<Rightarrow> u32 \<Rightarrow> Weight \<Rightarrow> u32 \<Rightarrow> Weight \<Rightarrow> bool" where
  "ensure_able_to_receive_message W max_extrinsic_size max_extrinsic_weight max_incoming_message_proof_size
      max_incoming_message_dispatch_weight \<longleftrightarrow>
     saturating_add max_incoming_message_proof_size SIGNED_EXTENSIONS_SIZE \<le> max_extrinsic_size \<and>
     all_lte (receive_messages_proof_weight W (max_incoming_message_proof_size + expected_extra_storage_proof_size W) 1
       max_incoming_message_dispatch_weight) max_extrinsic_weight"

definition ensure_able_to_receive_confirmation :: "WeightInfoExt \<Rightarrow> u32 \<Rightarrow> Weight \<Rightarrow> u32 \<Rightarrow> MessageNonce \<Rightarrow> MessageNonce \<Rightarrow> bool" where
  "ensure_able_to_receive_confirmation W max_extrinsic_size max_extrinsic_weight
      max_inbound_lane_data_proof_size_from_peer_chain max_unrewarded_relayer_entries_at_peer_inbound_lane
      max_unconfirmed_messages_at_inbound_lane \<longleftrightarrow>
     saturating_add max_inbound_lane_data_proof_size_from_peer_chain SIGNED_EXTENSIONS_SIZE \<le> max_extrinsic_size \<and>
     all_lte (receive_messages_delivery_proof_weight W max_inbound_lane_data_proof_size_from_peer_chain
       \<lparr>unrewarded_relayer_entries = max_unrewarded_relayer_entries_at_peer_inbound_lane, messages_in_oldest_entry = 0,
        urs_total_messages = max_unconfirmed_messages_at_inbound_lane, urs_last_delivered_nonce = 0\<rparr>) max_extrinsic_weight"

section \<open>The samples decide the formulae\<close>

lemma saturating_zero [simp]: "saturating_add a 0 = a" "saturating_add 0 a = a" "saturating_sub a 0 = a"
  for a :: "'a::len word"
  using unat_le_umax[of a] by (auto simp: u_arith)

lemma saturating_mul_sample:
  assumes "saturating_mul a 1 = (0 :: 'a::len word)"
  shows "saturating_mul a b = 0"
proof -
  have "unat (saturating_mul a 1) = unat a"
    using unat_bound[of a] by (cases "LENGTH('a)") (auto simp: u_arith min_def)
  with assms have "a = 0" by (simp add: word_unat_eq_iff)
  then show ?thesis by (simp add: saturating_mul_def)
qed

lemma proof_size_ops:
  "proof_size (weight_saturating_add a b) = saturating_add (proof_size a) (proof_size b)"
  "proof_size (weight_saturating_mul a k) = saturating_mul (proof_size a) k"
  by (simp_all add: weight_saturating_add_def weight_saturating_mul_def)

lemma storage_proof_size_overhead_sample:
  "proof_size (storage_proof_size_overhead W 1) = 0 \<Longrightarrow> proof_size (storage_proof_size_overhead W n) = 0"
  by (simp add: storage_proof_size_overhead_def Let_def weight_mul_def from_parts_def)

lemma receive_messages_proof_weight_proof_size:
  assumes "ensure_weights_are_correct W"
  shows "proof_size (receive_messages_proof_weight W n c d) = saturating_add
    (saturating_add (proof_size (receive_messages_proof_overhead W)) (proof_size (receive_messages_proof_overhead_from_runtime W)))
    (proof_size d)"
proof -
  have "proof_size (receive_messages_proof_messages_overhead W m) = 0" for m
    using assms by (auto simp: ensure_weights_are_correct_def receive_messages_proof_messages_overhead_def proof_size_ops
        intro: saturating_mul_sample)
  moreover have "proof_size (storage_proof_size_overhead W m) = 0" for m
    using assms by (auto simp: ensure_weights_are_correct_def intro: storage_proof_size_overhead_sample)
  ultimately show ?thesis using assms
    by (simp add: receive_messages_proof_weight_def Let_def proof_size_ops ensure_weights_are_correct_def)
qed

lemma receive_messages_delivery_proof_weight_proof_size:
  assumes "ensure_weights_are_correct W"
  shows "proof_size (receive_messages_delivery_proof_weight W n st) = saturating_add
    (saturating_add (proof_size (receive_messages_delivery_proof_overhead W)) (proof_size (receive_messages_delivery_proof_overhead_from_runtime W)))
    (proof_size (receive_messages_delivery_proof_relayers_overhead W (unrewarded_relayer_entries st)))"
proof -
  have "proof_size (receive_messages_delivery_proof_messages_overhead W m) = 0" for m
    using assms by (auto simp: ensure_weights_are_correct_def receive_messages_delivery_proof_messages_overhead_def proof_size_ops
        intro: saturating_mul_sample)
  moreover have "proof_size (storage_proof_size_overhead W m) = 0" for m
    using assms by (auto simp: ensure_weights_are_correct_def intro: storage_proof_size_overhead_sample)
  ultimately show ?thesis
    by (simp add: receive_messages_delivery_proof_weight_def Let_def proof_size_ops)
qed

text \<open>The assertions \<open>ensure_weights_are_correct\<close> compare the formulae at single proof sizes and message counts.
  When they pass, the proof size component of the delivery weight does not depend on the size of the proof or on the
  number of messages anywhere, and that of the confirmation weight does not depend on the size of the proof or the
  number of confirmed messages anywhere.\<close>

theorem weight_samples_decide:
  assumes "ensure_weights_are_correct W"
  shows "proof_size (receive_messages_proof_weight W n1 c1 d) = proof_size (receive_messages_proof_weight W n2 c2 d) \<and>
    (unrewarded_relayer_entries st1 = unrewarded_relayer_entries st2 \<longrightarrow>
      proof_size (receive_messages_delivery_proof_weight W n1 st1) = proof_size (receive_messages_delivery_proof_weight W n2 st2))"
  using assms by (simp add: receive_messages_proof_weight_proof_size receive_messages_delivery_proof_weight_proof_size)

theorem weight_samples_decide_witness:
  "ensure_weights_are_correct (bridge_weight rocks_db_weight) \<and>
   proof_size (receive_messages_proof_weight (bridge_weight rocks_db_weight) 5000 7 weight_zero) =
   proof_size (receive_messages_proof_weight (bridge_weight rocks_db_weight) 0 1 weight_zero)"
proof
  show *: "ensure_weights_are_correct (bridge_weight rocks_db_weight)" by code_simp
  from conjunct1[OF weight_samples_decide[OF *]] show "proof_size (receive_messages_proof_weight (bridge_weight rocks_db_weight) 5000 7 weight_zero) =
   proof_size (receive_messages_proof_weight (bridge_weight rocks_db_weight) 0 1 weight_zero)" .
qed

section \<open>The formulae are monotone\<close>

lemma weight_saturating_add_mono:
  "all_lte a a' \<Longrightarrow> all_lte b b' \<Longrightarrow> all_lte (weight_saturating_add a b) (weight_saturating_add a' b')"
  by (auto simp: all_lte_def weight_saturating_add_def u_arith)

lemma weight_saturating_mul_mono: "k \<le> k' \<Longrightarrow> all_lte (weight_saturating_mul a k) (weight_saturating_mul a k')"
  unfolding all_lte_def weight_saturating_mul_def Weight.simps word_le_nat_alt unat_saturating_mul
  by (intro conjI min.mono mult_le_mono order_refl)

lemma receive_messages_delivery_proof_weight_mono:
  assumes "unrewarded_relayer_entries st \<le> unrewarded_relayer_entries st'" "urs_total_messages st \<le> urs_total_messages st'"
  shows "all_lte (receive_messages_delivery_proof_weight W n st) (receive_messages_delivery_proof_weight W n st')"
  unfolding receive_messages_delivery_proof_weight_def Let_def receive_messages_delivery_proof_messages_overhead_def
    receive_messages_delivery_proof_relayers_overhead_def
  by (intro weight_saturating_add_mono weight_saturating_mul_mono assms all_lte_refl)

text \<open>The size overhead is a plain product. It is monotone up to a size for which it does not wrap.\<close>

definition overhead_exact :: "WeightInfoExt \<Rightarrow> u32 \<Rightarrow> bool" where
  "overhead_exact W n \<longleftrightarrow> unat (ref_time (storage_proof_size_overhead W 1)) * unat n < 2 ^ 64 \<and>
     unat (proof_size (storage_proof_size_overhead W 1)) * unat n < 2 ^ 64"

lemma overhead_exact_code [code]:
  "overhead_exact W n \<longleftrightarrow> uint (ref_time (storage_proof_size_overhead W 1)) * uint n < 2 ^ 64 \<and>
     uint (proof_size (storage_proof_size_overhead W 1)) * uint n < 2 ^ 64"
  by (simp only: overhead_exact_def uint_nat of_nat_less_numeral_power_cancel_iff flip: of_nat_mult)

lemma storage_proof_size_overhead_mono:
  assumes "overhead_exact W n'" "n \<le> n'"
  shows "all_lte (storage_proof_size_overhead W n) (storage_proof_size_overhead W n')"
proof -
  define b where "b = storage_proof_size_overhead W 1"
  have eq: "storage_proof_size_overhead W m = weight_mul b (ucast m)" for m
    by (simp add: b_def storage_proof_size_overhead_def Let_def weight_mul_def)
  have u: "unat (ucast m :: u64) = unat m" for m :: u32
    using unat_bound[of m] by (simp add: unsigned_ucast_eq take_bit_nat_eq_self)
  have le: "unat n \<le> unat n'" using assms(2) by (simp add: word_le_nat_alt)
  have "unat (ref_time b) * unat n < 2 ^ 64" "unat (proof_size b) * unat n < 2 ^ 64"
    using assms(1) le_less_trans[OF mult_le_mono2[OF le]] by (auto simp only: overhead_exact_def b_def)
  then show ?thesis
    using assms(1) le by (auto simp: eq all_lte_def weight_mul_def word_le_nat_alt unat_mult_exact u overhead_exact_def b_def[symmetric])
qed

text \<open>\<open>ensure_able_to_receive_message\<close> checks one message, of the largest proof and the largest dispatch weight.
  When it passes, every single message with a proof and a dispatch weight within these limits has a delivery weight
  that fits an extrinsic, as long as the size overhead of the largest proof does not wrap around.\<close>

theorem able_to_receive_smaller_message:
  assumes "ensure_able_to_receive_message W max_size max_weight max_proof max_dispatch"
    and "unat max_proof + unat (expected_extra_storage_proof_size W) < 2 ^ 32" "overhead_exact W max_proof"
    and "n \<le> max_proof" "all_lte d max_dispatch"
  shows "all_lte (receive_messages_proof_weight W n 1 d) max_weight"
proof -
  define e where "e = expected_extra_storage_proof_size W"
  have max_e: "unat (max_proof + e) = unat max_proof + unat e"
    using assms(2) by (simp add: unat_plus_exact e_def)
  have zero: "saturating_mul EXPECTED_DEFAULT_MESSAGE_LENGTH (saturating_sub 1 1) = 0"
    by (simp add: u_arith)
  from max_e have top: "saturating_sub (max_proof + e) e = max_proof" by (simp add: u_arith)
  have "saturating_sub n e \<le> max_proof" using assms(4) by (simp add: u_arith)
  from storage_proof_size_overhead_mono[OF assms(3) this]
  have "all_lte (receive_messages_proof_weight W n 1 d) (receive_messages_proof_weight W (max_proof + e) 1 max_dispatch)"
    unfolding receive_messages_proof_weight_def Let_def e_def[symmetric]
    by (intro weight_saturating_add_mono all_lte_refl assms(5)) (simp add: top zero)
  with assms(1) show ?thesis
    by (auto simp: ensure_able_to_receive_message_def e_def intro: all_lte_trans)
qed

theorem able_to_receive_smaller_message_witness:
  "all_lte (receive_messages_proof_weight (bridge_weight rocks_db_weight) 3000 1 (from_parts 1000 10)) (from_parts 500000000 100000)"
proof (rule able_to_receive_smaller_message)
  show "ensure_able_to_receive_message (bridge_weight rocks_db_weight) 10000 (from_parts 500000000 100000) 4096 (from_parts 200000 500)"
    by code_simp
  show "overhead_exact (bridge_weight rocks_db_weight) 4096" by code_simp
  show "unat (4096 :: u32) + unat (expected_extra_storage_proof_size (bridge_weight rocks_db_weight)) < 2 ^ 32"
    by (simp add: bridge_weight_def EXTRA_STORAGE_PROOF_SIZE_def)
  show "(3000 :: u32) \<le> 4096" "all_lte (from_parts 1000 10) (from_parts 200000 500)" by code_simp+
qed

end
