(* ===== verification/Bridge_Pallet.thy ===== *)
theory Bridge_Pallet
  imports Bridge_Lane_Laws Bridge_Weights
begin

text \<open>
  The bridge messages pallet (\<open>bridges/modules/messages/src/lib.rs\<close>): its storage, its calls, its hook and the
  interface other pallets send messages through.

  What the runtime plugs in is a record of parameters: the verifiers of the header chains, the dispatcher, the
  payments and the delivery callback. These act on the whole storage. A call that fails is \<open>Inl\<close> with its error;
  calls run in a storage layer, so a failed call leaves the storage as it was.
\<close>

section \<open>Operating mode and owner\<close>

datatype BasicOperatingMode = Normal | Halted

datatype MessagesOperatingMode = Basic BasicOperatingMode | RejectingOutboundMessages

definition basic_is_halted :: "BasicOperatingMode \<Rightarrow> bool" where
  "basic_is_halted m \<longleftrightarrow> m = Halted"

fun mode_is_halted :: "MessagesOperatingMode \<Rightarrow> bool" where
  "mode_is_halted (Basic operating_mode) = basic_is_halted operating_mode"
| "mode_is_halted RejectingOutboundMessages = False"

datatype StorageProofError = DuplicateNodesInProof | UnusedNodesInTheProof | StorageRootMismatch
  | StorageValueUnavailable | StorageValueEmpty | StorageValueDecodeFailed

datatype HeaderChainError = UnknownHeader | HeaderStorageProof StorageProofError

datatype VerificationError = EmptyMessageProof | HeaderChain HeaderChainError | InboundLaneStorageErr StorageProofError
  | InvalidMessageWeight | MessagesCountMismatch | MessageStorage StorageProofError | MessageTooLarge
  | OutboundLaneStorageErr StorageProofError | StorageProof StorageProofError | Other string

datatype OwnedBridgeModuleError = ModuleHalted

datatype BridgeError = NotOperatingNormally | InactiveOutboundLane | MessageDispatchInactive
  | MessageRejectedByChainVerifier VerificationError | MessageRejectedByPallet VerificationError
  | FailedToWithdrawMessageFee | TooManyMessagesInTheProof | InvalidMessagesProof | InvalidMessagesDeliveryProof
  | InvalidUnrewardedRelayersState | InsufficientDispatchWeight | MessageIsNotYetSent
  | ReceptionConfirmation ReceptionConfirmationError | BridgeModule OwnedBridgeModuleError

text \<open>What a call may fail with: an error of the pallet or a bad origin.\<close>

datatype CallError = PalletError BridgeError | BadOrigin

datatype 'a RawOrigin = Root | Signed 'a | Unsigned

section \<open>Storage\<close>

record 'd ReceivedMessages =
  rm_lane :: LaneId
  receive_results :: "(MessageNonce \<times> 'd ReceptionResult) list"

definition push_received :: "MessageNonce \<Rightarrow> 'd ReceptionResult \<Rightarrow> 'd ReceivedMessages \<Rightarrow> 'd ReceivedMessages" where
  "push_received message result self = self\<lparr>receive_results := receive_results self @ [(message, result)]\<rparr>"

datatype 'd BridgeEvent = MessageAccepted LaneId MessageNonce | MessagesReceived "'d ReceivedMessages list"
  | MessagesDelivered LaneId DeliveredMessages

text \<open>The storage of the pallet; \<open>bridge_env\<close> is the rest of the storage of the chain.\<close>

record ('a, 'r, 'd, 'e) Messages =
  PalletOwner :: "'a option"
  PalletOperatingMode :: MessagesOperatingMode
  InboundLanes :: "LaneId \<rightharpoonup> 'r InboundLaneData"
  OutboundLanes :: "LaneId \<rightharpoonup> OutboundLaneData"
  OutboundMessages :: "MessageKey \<rightharpoonup> bytes"
  bridge_events :: "'d BridgeEvent list"
  bridge_env :: 'e

definition bridge_deposit_event :: "'d BridgeEvent \<Rightarrow> ('a, 'r, 'd, 'e) Messages \<Rightarrow> ('a, 'r, 'd, 'e) Messages" where
  "bridge_deposit_event e st = st\<lparr>bridge_events := bridge_events st @ [e]\<rparr>"

definition inbound_lane_data :: "LaneId \<Rightarrow> ('a, 'r, 'd, 'e) Messages \<Rightarrow> 'r InboundLaneData" where
  "inbound_lane_data lane st = (case InboundLanes st lane of Some d \<Rightarrow> d | None \<Rightarrow> inbound_default)"

definition outbound_lane_data :: "LaneId \<Rightarrow> ('a, 'r, 'd, 'e) Messages \<Rightarrow> OutboundLaneData" where
  "outbound_lane_data lane st = (case OutboundLanes st lane of Some d \<Rightarrow> d | None \<Rightarrow> outbound_default)"

definition outbound_message_data :: "LaneId \<Rightarrow> MessageNonce \<Rightarrow> ('a, 'r, 'd, 'e) Messages \<Rightarrow> bytes option" where
  "outbound_message_data lane n st = OutboundMessages st \<lparr>lane_id = lane, nonce = n\<rparr>"

record Message =
  msg_key :: MessageKey
  msg_payload :: bytes

record 'm ProvedLaneMessages =
  lane_state :: "OutboundLaneData option"
  lane_messages :: "'m list"

text \<open>A message is dispatched with the result of decoding its payload.\<close>

type_synonym 'p Decoded = "'p option DispatchMessage"

record ('a, 'r, 'p, 'd, 'e, 'mp, 'dp, 'o) BridgeConfig =
  WeightInfo :: WeightInfoExt
  DbWeight :: RuntimeDbWeight
  ActiveOutboundLanes :: "LaneId list"
  MaxUnrewardedRelayerEntriesAtInboundLane :: MessageNonce
  MaxUnconfirmedMessagesAtInboundLane :: MessageNonce
  MaximalOutboundPayloadSize :: u32
  relayer_entry_len :: u32
  nonce_len :: u32
  encode_payload :: "'o \<Rightarrow> bytes"
  decode_payload :: "bytes \<Rightarrow> 'p option"
  messages_proof_size :: "'mp \<Rightarrow> u32"
  delivery_proof_size :: "'dp \<Rightarrow> u32"
  verify_message :: "'o \<Rightarrow> (VerificationError, unit) result"
  verify_messages_proof :: "'mp \<Rightarrow> u32 \<Rightarrow> ('a, 'r, 'd, 'e) Messages \<Rightarrow>
    (VerificationError, (LaneId \<times> Message ProvedLaneMessages) list) result"
  verify_messages_delivery_proof :: "'dp \<Rightarrow> ('a, 'r, 'd, 'e) Messages \<Rightarrow> (VerificationError, LaneId \<times> 'a InboundLaneData) result"
  dispatch_is_active :: "('a, 'r, 'd, 'e) Messages \<Rightarrow> bool"
  dispatch_weight_of :: "'p Decoded \<Rightarrow> Weight \<times> 'p Decoded"
  dispatch_message :: "'p Decoded \<Rightarrow> ('a, 'r, 'd, 'e) Messages \<Rightarrow> 'd MessageDispatchResult \<times> ('a, 'r, 'd, 'e) Messages"
  delivery_pay_reward :: "'a \<Rightarrow> MessageNonce \<Rightarrow> MessageNonce \<Rightarrow> Weight \<Rightarrow> ('a, 'r, 'd, 'e) Messages \<Rightarrow> ('a, 'r, 'd, 'e) Messages"
  confirmation_pay_reward :: "LaneId \<Rightarrow> 'a UnrewardedRelayer list \<Rightarrow> 'a \<Rightarrow> MessageNonce \<times> MessageNonce \<Rightarrow>
    ('a, 'r, 'd, 'e) Messages \<Rightarrow> MessageNonce \<times> ('a, 'r, 'd, 'e) Messages"
  on_messages_delivered :: "LaneId \<Rightarrow> MessageNonce \<Rightarrow> ('a, 'r, 'd, 'e) Messages \<Rightarrow> ('a, 'r, 'd, 'e) Messages"

section \<open>The owner's calls\<close>

definition is_halted :: "('a, 'r, 'd, 'e) Messages \<Rightarrow> bool" where
  "is_halted st = mode_is_halted (PalletOperatingMode st)"

definition ensure_owner_or_root :: "'a RawOrigin \<Rightarrow> ('a, 'r, 'd, 'e) Messages \<Rightarrow> (CallError, unit) result" where
  "ensure_owner_or_root origin st = (case origin of
     Root \<Rightarrow> Inr ()
   | Signed signer \<Rightarrow> (if PalletOwner st = Some signer then Inr () else Inl BadOrigin)
   | Unsigned \<Rightarrow> Inl BadOrigin)"

definition ensure_not_halted :: "('a, 'r, 'd, 'e) Messages \<Rightarrow> (OwnedBridgeModuleError, unit) result" where
  "ensure_not_halted st = (if is_halted st then Inl ModuleHalted else Inr ())"

definition set_owner :: "'a RawOrigin \<Rightarrow> 'a option \<Rightarrow> ('a, 'r, 'd, 'e) Messages \<Rightarrow> (CallError, ('a, 'r, 'd, 'e) Messages) result" where
  "set_owner origin maybe_owner st = (case ensure_owner_or_root origin st of Inl e \<Rightarrow> Inl e
     | Inr _ \<Rightarrow> (case maybe_owner of
         Some owner \<Rightarrow> Inr (st\<lparr>PalletOwner := Some owner\<rparr>)
       | None \<Rightarrow> Inr (st\<lparr>PalletOwner := None\<rparr>)))"

definition set_operating_mode :: "'a RawOrigin \<Rightarrow> MessagesOperatingMode \<Rightarrow> ('a, 'r, 'd, 'e) Messages \<Rightarrow>
    (CallError, ('a, 'r, 'd, 'e) Messages) result" where
  "set_operating_mode origin operating_mode st = (case ensure_owner_or_root origin st of Inl e \<Rightarrow> Inl e
     | Inr _ \<Rightarrow> Inr (st\<lparr>PalletOperatingMode := operating_mode\<rparr>))"

definition ensure_signed :: "'a RawOrigin \<Rightarrow> (CallError, 'a) result" where
  "ensure_signed origin = (case origin of Signed a \<Rightarrow> Inr a | _ \<Rightarrow> Inl BadOrigin)"

definition genesis_build :: "MessagesOperatingMode \<Rightarrow> 'a option \<Rightarrow> ('a, 'r, 'd, 'e) Messages \<Rightarrow> ('a, 'r, 'd, 'e) Messages" where
  "genesis_build operating_mode owner st =
     (let st = st\<lparr>PalletOperatingMode := operating_mode\<rparr>
      in case owner of Some o' \<Rightarrow> st\<lparr>PalletOwner := Some o'\<rparr> | None \<Rightarrow> st)"

section \<open>Lane storages of the runtime\<close>

text \<open>An inbound lane has the cached data and the storage of the chain.\<close>

type_synonym ('a, 'r, 'd, 'e) inbound_state = "'r InboundLaneData option \<times> ('a, 'r, 'd, 'e) Messages"

definition runtime_get_or_init :: "LaneId \<Rightarrow> ('a, 'r, 'd, 'e) inbound_state \<Rightarrow> 'r InboundLaneData \<times> ('a, 'r, 'd, 'e) inbound_state" where
  "runtime_get_or_init lane s = (case fst s of
     Some data \<Rightarrow> (data, s)
   | None \<Rightarrow> (let data = inbound_lane_data lane (snd s) in (data, (Some data, snd s))))"

definition runtime_set_inbound :: "LaneId \<Rightarrow> 'r InboundLaneData \<Rightarrow> ('a, 'r, 'd, 'e) inbound_state \<Rightarrow> ('a, 'r, 'd, 'e) inbound_state" where
  "runtime_set_inbound lane data s = (Some data, (snd s)\<lparr>InboundLanes := (InboundLanes (snd s))(lane \<mapsto> data)\<rparr>)"

definition RuntimeInboundLaneStorage ::
  "('a, 'r, 'p, 'd, 'e, 'mp, 'dp, 'o) BridgeConfig \<Rightarrow> LaneId \<Rightarrow> (('a, 'r, 'd, 'e) inbound_state, 'r) InboundLaneStorage" where
  "RuntimeInboundLaneStorage cfg lane = \<lparr>in_id = (\<lambda>_. lane),
     max_unrewarded_relayer_entries = (\<lambda>_. MaxUnrewardedRelayerEntriesAtInboundLane cfg),
     max_unconfirmed_messages = (\<lambda>_. MaxUnconfirmedMessagesAtInboundLane cfg),
     get_or_init_data = runtime_get_or_init lane,
     in_set_data = runtime_set_inbound lane\<rparr>"

definition max_encoded_len :: "('a, 'r, 'p, 'd, 'e, 'mp, 'dp, 'o) BridgeConfig \<Rightarrow> u32" where
  "max_encoded_len cfg =
     (case encoded_size_hint (relayer_entry_len cfg) (nonce_len cfg) (ucast (MaxUnrewardedRelayerEntriesAtInboundLane cfg)) of
        Some n \<Rightarrow> n | None \<Rightarrow> umax)"

definition extra_proof_size_bytes :: "('a, 'r, 'p, 'd, 'e, 'mp, 'dp, 'o) BridgeConfig \<Rightarrow> LaneId \<Rightarrow>
    ('a, 'r, 'd, 'e) inbound_state \<Rightarrow> u64 \<times> ('a, 'r, 'd, 'e) inbound_state" where
  "extra_proof_size_bytes cfg lane s =
     (let max_len = max_encoded_len cfg;
          (data, s) = get_or_init_data (RuntimeInboundLaneStorage cfg lane) s;
          relayers_count = of_nat (length (relayers data));
          actual_encoded_len = (case encoded_size_hint (relayer_entry_len cfg) (nonce_len cfg) relayers_count of
            Some n \<Rightarrow> n | None \<Rightarrow> umax)
      in (ucast (saturating_sub max_len actual_encoded_len), s))"

definition RuntimeOutboundLaneStorage :: "LaneId \<Rightarrow> (('a, 'r, 'd, 'e) Messages, bytes) OutboundLaneStorage" where
  "RuntimeOutboundLaneStorage lane = \<lparr>out_id = (\<lambda>_. lane),
     out_data = outbound_lane_data lane,
     out_set_data = (\<lambda>data st. st\<lparr>OutboundLanes := (OutboundLanes st)(lane \<mapsto> data)\<rparr>),
     save_message = (\<lambda>n payload st. st\<lparr>OutboundMessages := (OutboundMessages st)(\<lparr>lane_id = lane, nonce = n\<rparr> \<mapsto> payload)\<rparr>),
     remove_message = (\<lambda>n st. st\<lparr>OutboundMessages := (OutboundMessages st)(\<lparr>lane_id = lane, nonce = n\<rparr> := None)\<rparr>)\<rparr>"

section \<open>Receiving messages\<close>

definition decode_message :: "('a, 'r, 'p, 'd, 'e, 'mp, 'dp, 'o) BridgeConfig \<Rightarrow> Message \<Rightarrow> 'p Decoded" where
  "decode_message cfg m = \<lparr>dsp_key = msg_key m, dsp_payload = decode_payload cfg (msg_payload m)\<rparr>"

definition verify_and_decode_messages_proof :: "('a, 'r, 'p, 'd, 'e, 'mp, 'dp, 'o) BridgeConfig \<Rightarrow> 'mp \<Rightarrow> u32 \<Rightarrow>
    ('a, 'r, 'd, 'e) Messages \<Rightarrow> (VerificationError, (LaneId \<times> 'p Decoded ProvedLaneMessages) list) result" where
  "verify_and_decode_messages_proof cfg prf messages_count st =
     (case verify_messages_proof cfg prf messages_count st of Inl e \<Rightarrow> Inl e
      | Inr messages_by_lane \<Rightarrow> Inr (map (\<lambda>(lane, lane_data). (lane,
          \<lparr>lane_state = lane_state lane_data, lane_messages = map (decode_message cfg) (lane_messages lane_data)\<rparr>)) messages_by_lane))"

text \<open>The variables of the loops of \<open>receive_messages_proof\<close>.\<close>

record 'd Delivery =
  dl_total_messages :: MessageNonce
  dl_valid_messages :: MessageNonce
  dispatch_weight_left :: Weight
  dl_actual_weight :: Weight
  dl_status :: "'d ReceivedMessages list"

text \<open>The dispatcher does not see the lane's cache.\<close>

definition lane_dispatch :: "('a, 'r, 'p, 'd, 'e, 'mp, 'dp, 'o) BridgeConfig \<Rightarrow> 'p Decoded \<Rightarrow>
    ('a, 'r, 'd, 'e) inbound_state \<Rightarrow> 'd MessageDispatchResult \<times> ('a, 'r, 'd, 'e) inbound_state" where
  "lane_dispatch cfg m s = (let (r, st) = dispatch_message cfg m (snd s) in (r, (fst s, st)))"

text \<open>One round of the inner loop.\<close>

definition receive_one :: "('a, 'r, 'p, 'd, 'e, 'mp, 'dp, 'o) BridgeConfig \<Rightarrow> 'r \<Rightarrow> LaneId \<Rightarrow> 'p Decoded \<Rightarrow>
    'd Delivery \<times> 'd ReceivedMessages \<times> ('a, 'r, 'd, 'e) inbound_state \<Rightarrow>
    (CallError, 'd Delivery \<times> 'd ReceivedMessages \<times> ('a, 'r, 'd, 'e) inbound_state) result" where
  "receive_one cfg relayer lane message = (\<lambda>(dl, status, s).
     let dl = dl\<lparr>dl_total_messages := dl_total_messages dl + 1\<rparr>;
         (message_dispatch_weight, message) = dispatch_weight_of cfg message
     in if any_gt message_dispatch_weight (dispatch_weight_left dl) then Inl (PalletError InsufficientDispatchWeight)
        else let (receival_result, s) = receive_message (RuntimeInboundLaneStorage cfg lane) (lane_dispatch cfg) relayer
                   (nonce (dsp_key message)) (dsp_payload message) s;
                 (unspent, dl) = (case receival_result of
                   Dispatched dispatch_result \<Rightarrow> (unspent_weight dispatch_result, dl\<lparr>dl_valid_messages := dl_valid_messages dl + 1\<rparr>)
                 | InvalidNonce \<Rightarrow> (message_dispatch_weight, dl)
                 | TooManyUnrewardedRelayers \<Rightarrow> (message_dispatch_weight, dl)
                 | TooManyUnconfirmedMessages \<Rightarrow> (message_dispatch_weight, dl));
                 status = push_received (nonce (dsp_key message)) receival_result status;
                 unspent = weight_min unspent message_dispatch_weight
             in Inr (dl\<lparr>dispatch_weight_left := weight_sub (dispatch_weight_left dl) (weight_sub message_dispatch_weight unspent),
                        dl_actual_weight := weight_saturating_sub (dl_actual_weight dl) unspent\<rparr>, status, s))"

fun receive_lane_messages :: "('a, 'r, 'p, 'd, 'e, 'mp, 'dp, 'o) BridgeConfig \<Rightarrow> 'r \<Rightarrow> LaneId \<Rightarrow> 'p Decoded list \<Rightarrow>
    'd Delivery \<times> 'd ReceivedMessages \<times> ('a, 'r, 'd, 'e) inbound_state \<Rightarrow>
    (CallError, 'd Delivery \<times> 'd ReceivedMessages \<times> ('a, 'r, 'd, 'e) inbound_state) result" where
  "receive_lane_messages cfg relayer lane [] acc = Inr acc"
| "receive_lane_messages cfg relayer lane (message # rest) acc =
     (case receive_one cfg relayer lane message acc of Inl e \<Rightarrow> Inl e
      | Inr acc \<Rightarrow> receive_lane_messages cfg relayer lane rest acc)"

text \<open>One round of the outer loop, which makes a lane with an empty cache.\<close>

definition receive_lane :: "('a, 'r, 'p, 'd, 'e, 'mp, 'dp, 'o) BridgeConfig \<Rightarrow> 'r \<Rightarrow> LaneId \<Rightarrow> 'p Decoded ProvedLaneMessages \<Rightarrow>
    'd Delivery \<times> ('a, 'r, 'd, 'e) Messages \<Rightarrow> (CallError, 'd Delivery \<times> ('a, 'r, 'd, 'e) Messages) result" where
  "receive_lane cfg relayer lane lane_data = (\<lambda>(dl, st).
     let (extra, s) = extra_proof_size_bytes cfg lane (None, st);
         dl = dl\<lparr>dl_actual_weight := set_proof_size (dl_actual_weight dl) (saturating_sub (proof_size (dl_actual_weight dl)) extra)\<rparr>;
         s = (case lane_state lane_data of
               Some ob \<Rightarrow> snd (receive_state_update (RuntimeInboundLaneStorage cfg lane) ob s)
             | None \<Rightarrow> s)
     in case receive_lane_messages cfg relayer lane (lane_messages lane_data)
               (dl, \<lparr>rm_lane = lane, receive_results = []\<rparr>, s) of
          Inl e \<Rightarrow> Inl e
        | Inr (dl, status, s) \<Rightarrow> Inr (dl\<lparr>dl_status := dl_status dl @ [status]\<rparr>, snd s))"

fun receive_lanes :: "('a, 'r, 'p, 'd, 'e, 'mp, 'dp, 'o) BridgeConfig \<Rightarrow> 'r \<Rightarrow> (LaneId \<times> 'p Decoded ProvedLaneMessages) list \<Rightarrow>
    'd Delivery \<times> ('a, 'r, 'd, 'e) Messages \<Rightarrow> (CallError, 'd Delivery \<times> ('a, 'r, 'd, 'e) Messages) result" where
  "receive_lanes cfg relayer [] acc = Inr acc"
| "receive_lanes cfg relayer ((lane, lane_data) # rest) acc =
     (case receive_lane cfg relayer lane lane_data acc of Inl e \<Rightarrow> Inl e
      | Inr acc \<Rightarrow> receive_lanes cfg relayer rest acc)"

text \<open>The result is the actual weight and the new storage.\<close>

definition receive_messages_proof :: "('a, 'r, 'p, 'd, 'e, 'mp, 'dp, 'o) BridgeConfig \<Rightarrow> 'a RawOrigin \<Rightarrow> 'r \<Rightarrow> 'mp \<Rightarrow> u32 \<Rightarrow>
    Weight \<Rightarrow> ('a, 'r, 'd, 'e) Messages \<Rightarrow> (CallError, Weight \<times> ('a, 'r, 'd, 'e) Messages) result" where
  "receive_messages_proof cfg origin relayer_id_at_bridged_chain prf messages_count dispatch_weight st =
     (case ensure_not_halted st of Inl e \<Rightarrow> Inl (PalletError (BridgeModule e))
      | Inr _ \<Rightarrow> (case ensure_signed origin of Inl e \<Rightarrow> Inl e
      | Inr relayer_id_at_this_chain \<Rightarrow>
          if \<not> ucast messages_count \<le> MaxUnconfirmedMessagesAtInboundLane cfg then Inl (PalletError TooManyMessagesInTheProof)
          else if \<not> dispatch_is_active cfg st then Inl (PalletError MessageDispatchInactive)
          else let declared_weight = receive_messages_proof_weight (WeightInfo cfg) (messages_proof_size cfg prf) messages_count dispatch_weight
          in case verify_and_decode_messages_proof cfg prf messages_count st of
               Inl _ \<Rightarrow> Inl (PalletError InvalidMessagesProof)
             | Inr messages \<Rightarrow> (case receive_lanes cfg relayer_id_at_bridged_chain messages
                 (\<lparr>dl_total_messages = 0, dl_valid_messages = 0, dispatch_weight_left = dispatch_weight,
                   dl_actual_weight = declared_weight, dl_status = []\<rparr>, st) of
                 Inl e \<Rightarrow> Inl e
               | Inr (dl, st) \<Rightarrow>
                   let st = delivery_pay_reward cfg relayer_id_at_this_chain (dl_total_messages dl) (dl_valid_messages dl) (dl_actual_weight dl) st;
                       st = bridge_deposit_event (MessagesReceived (dl_status dl)) st
                   in Inr (dl_actual_weight dl, st))))"

section \<open>Receiving confirmations\<close>

definition receive_messages_delivery_proof :: "('a, 'r, 'p, 'd, 'e, 'mp, 'dp, 'o) BridgeConfig \<Rightarrow> 'a RawOrigin \<Rightarrow> 'dp \<Rightarrow>
    UnrewardedRelayersState \<Rightarrow> ('a, 'r, 'd, 'e) Messages \<Rightarrow> (CallError, Weight \<times> ('a, 'r, 'd, 'e) Messages) result" where
  "receive_messages_delivery_proof cfg origin prf relayers_state st =
     (case ensure_not_halted st of Inl e \<Rightarrow> Inl (PalletError (BridgeModule e))
      | Inr _ \<Rightarrow> (case ensure_signed origin of Inl e \<Rightarrow> Inl e
      | Inr confirmation_relayer \<Rightarrow> (case verify_messages_delivery_proof cfg prf st of
          Inl _ \<Rightarrow> Inl (PalletError InvalidMessagesDeliveryProof)
        | Inr (lane, lane_data) \<Rightarrow>
            if \<not> relayers_state_is_valid relayers_state lane_data then Inl (PalletError InvalidUnrewardedRelayersState)
            else (case confirm_delivery (RuntimeOutboundLaneStorage lane) (urs_total_messages relayers_state)
                (last_delivered_nonce lane_data) (relayers lane_data) st of
              (Inl e, _) \<Rightarrow> Inl (PalletError (ReceptionConfirmation e))
            | (Inr confirmed_messages, st) \<Rightarrow>
                let (relayers_state, st) = (case confirmed_messages of
                      None \<Rightarrow> (relayers_state, st)
                    | Some confirmed \<Rightarrow>
                        let st = bridge_deposit_event (MessagesDelivered lane confirmed) st;
                            (rewarded, st) = confirmation_pay_reward cfg lane (relayers lane_data) confirmation_relayer
                              (dm_begin confirmed, dm_end confirmed) st
                        in (relayers_state\<lparr>unrewarded_relayer_entries := min (unrewarded_relayer_entries relayers_state) rewarded,
                              urs_total_messages := min (urs_total_messages relayers_state)
                                (case checked_len (dm_begin confirmed) (dm_end confirmed) of Some l \<Rightarrow> l | None \<Rightarrow> umax)\<rparr>, st));
                    (a, b) = queued_messages (outbound_lane_data lane st);
                    st = on_messages_delivered cfg lane (saturating_len a b) st
                in Inr (receive_messages_delivery_proof_weight (WeightInfo cfg) (delivery_proof_size cfg prf) relayers_state, st)))))"

section \<open>Sending messages and pruning them\<close>

record SendMessageArgs =
  sma_lane_id :: LaneId
  sma_payload :: bytes

record SendMessageArtifacts =
  smt_nonce :: MessageNonce
  enqueued_messages :: MessageNonce

definition ensure_normal_operating_mode :: "('a, 'r, 'd, 'e) Messages \<Rightarrow> (BridgeError, unit) result" where
  "ensure_normal_operating_mode st = (if PalletOperatingMode st = Basic Normal then Inr () else Inl NotOperatingNormally)"

definition validate_message :: "('a, 'r, 'p, 'd, 'e, 'mp, 'dp, 'o) BridgeConfig \<Rightarrow> LaneId \<Rightarrow> 'o \<Rightarrow> ('a, 'r, 'd, 'e) Messages \<Rightarrow>
    (BridgeError, SendMessageArgs) result" where
  "validate_message cfg lane message st = (case ensure_normal_operating_mode st of Inl e \<Rightarrow> Inl e
     | Inr _ \<Rightarrow> if lane \<notin> set (ActiveOutboundLanes cfg) then Inl InactiveOutboundLane
       else (case verify_message cfg message of Inl err \<Rightarrow> Inl (MessageRejectedByChainVerifier err)
       | Inr _ \<Rightarrow> if unat (MaximalOutboundPayloadSize cfg) < length (encode_payload cfg message)
         then Inl (MessageRejectedByPallet MessageTooLarge)
         else Inr \<lparr>sma_lane_id = lane, sma_payload = encode_payload cfg message\<rparr>))"

definition send_message :: "SendMessageArgs \<Rightarrow> ('a, 'r, 'd, 'e) Messages \<Rightarrow> SendMessageArtifacts \<times> ('a, 'r, 'd, 'e) Messages" where
  "send_message args st =
     (let (n, st) = lane_send_message (RuntimeOutboundLaneStorage (sma_lane_id args)) (sma_payload args) st;
          (a, b) = queued_messages (outbound_lane_data (sma_lane_id args) st);
          st = bridge_deposit_event (MessageAccepted (sma_lane_id args) n) st
      in (\<lparr>smt_nonce = n, enqueued_messages = saturating_len a b\<rparr>, st))"

text \<open>The hook prunes the lane whose turn it is. \<open>None\<close> is a panic: the remainder by the number of lanes.\<close>

definition bridge_on_idle :: "('a, 'r, 'p, 'd, 'e, 'mp, 'dp, 'o) BridgeConfig \<Rightarrow> nat \<Rightarrow> Weight \<Rightarrow> ('a, 'r, 'd, 'e) Messages \<Rightarrow>
    (Weight \<times> ('a, 'r, 'd, 'e) Messages) option" where
  "bridge_on_idle cfg block_number remaining_weight st =
     (if \<not> all_gte remaining_weight (db_reads_writes (DbWeight cfg) 1 2) then Some (weight_zero, st)
      else let active_lanes_len = unat (of_nat (length (ActiveOutboundLanes cfg)) :: u32)
      in if active_lanes_len = 0 then None
         else let active_lane_index = block_number mod active_lanes_len;
                  active_lane_id = ActiveOutboundLanes cfg ! active_lane_index;
                  used_weight = db_reads (DbWeight cfg) 1
              in do {
                (w, st) \<leftarrow> prune_messages (RuntimeOutboundLaneStorage active_lane_id) (DbWeight cfg) (weight_sub remaining_weight used_weight) st;
                Some (weight_add used_weight w, st)
              })"

end
