(* ===== verification/Bridge_Delivery.thy ===== *)
theory Bridge_Delivery
  imports Bridge_Pallet
begin

text \<open>
  The lanes of the runtime keep the contracts of the lane storages, and what follows for the calls of the bridge
  messages pallet: the lane data stays well-formed, messages are dispatched once and in order, weights are bounded.
\<close>

section \<open>The storages of the runtime\<close>

definition coherent :: "LaneId \<Rightarrow> ('a, 'r, 'd, 'e) inbound_state \<Rightarrow> bool" where
  "coherent lane s \<longleftrightarrow> (case fst s of None \<Rightarrow> True | Some d \<Rightarrow> d = inbound_lane_data lane (snd s))"

definition lane_view :: "LaneId \<Rightarrow> ('a, 'r, 'd, 'e) inbound_state \<Rightarrow> 'r InboundLaneData" where
  "lane_view lane s = inbound_lane_data lane (snd s)"

definition off_lane :: "LaneId \<Rightarrow> ('a, 'r, 'd, 'e) inbound_state \<Rightarrow> ('a, 'r, 'd, 'e) Messages" where
  "off_lane lane s = (snd s)\<lparr>InboundLanes := (InboundLanes (snd s))(lane := None)\<rparr>"

definition stored_messages :: "LaneId \<Rightarrow> ('a, 'r, 'd, 'e) Messages \<Rightarrow> MessageNonce \<Rightarrow> bytes option" where
  "stored_messages lane st n = outbound_message_data lane n st"

definition off_outbound :: "LaneId \<Rightarrow> ('a, 'r, 'd, 'e) Messages \<Rightarrow> ('a, 'r, 'd, 'e) Messages" where
  "off_outbound lane st = st\<lparr>OutboundLanes := (OutboundLanes st)(lane := None),
     OutboundMessages := (\<lambda>k. if lane_id k = lane then None else OutboundMessages st k)\<rparr>"

interpretation ril: inbound_storage "RuntimeInboundLaneStorage cfg lane" "coherent lane" "lane_view lane" "off_lane lane"
  lane "MaxUnrewardedRelayerEntriesAtInboundLane cfg" "MaxUnconfirmedMessagesAtInboundLane cfg"
  by unfold_locales (auto simp: RuntimeInboundLaneStorage_def coherent_def lane_view_def off_lane_def runtime_get_or_init_def
      runtime_set_inbound_def inbound_lane_data_def Let_def split: option.splits)

interpretation rol: outbound_storage "RuntimeOutboundLaneStorage lane" "stored_messages lane" "off_outbound lane"
  by unfold_locales (auto simp: RuntimeOutboundLaneStorage_def stored_messages_def off_outbound_def outbound_lane_data_def
      outbound_message_data_def fun_eq_iff)

lemma runtime_out_data [simp]: "out_data (RuntimeOutboundLaneStorage lane) = outbound_lane_data lane"
  by (simp add: RuntimeOutboundLaneStorage_def)

lemma off_lane_eqD:
  assumes "off_lane lane s = off_lane lane s'"
  shows "PalletOwner (snd s) = PalletOwner (snd s')" "PalletOperatingMode (snd s) = PalletOperatingMode (snd s')"
    "OutboundLanes (snd s) = OutboundLanes (snd s')" "OutboundMessages (snd s) = OutboundMessages (snd s')"
    "bridge_env (snd s) = bridge_env (snd s')" "l \<noteq> lane \<Longrightarrow> InboundLanes (snd s) l = InboundLanes (snd s') l"
  using arg_cong[OF assms, of PalletOwner] arg_cong[OF assms, of PalletOperatingMode] arg_cong[OF assms, of OutboundLanes]
    arg_cong[OF assms, of OutboundMessages] arg_cong[OF assms, of bridge_env] arg_cong[OF assms, of "\<lambda>st. InboundLanes st l"]
  by (auto simp: off_lane_def)

lemma off_outbound_eqD:
  assumes "off_outbound lane st = off_outbound lane st'"
  shows "PalletOwner st = PalletOwner st'" "PalletOperatingMode st = PalletOperatingMode st'"
    "InboundLanes st = InboundLanes st'" "bridge_env st = bridge_env st'" "bridge_events st = bridge_events st'"
    "l \<noteq> lane \<Longrightarrow> outbound_lane_data l st = outbound_lane_data l st'"
    "l \<noteq> lane \<Longrightarrow> stored_messages l st = stored_messages l st'"
proof -
  show "PalletOwner st = PalletOwner st'" "PalletOperatingMode st = PalletOperatingMode st'"
    "InboundLanes st = InboundLanes st'" "bridge_env st = bridge_env st'" "bridge_events st = bridge_events st'"
    using arg_cong[OF assms, of PalletOwner] arg_cong[OF assms, of PalletOperatingMode] arg_cong[OF assms, of InboundLanes]
      arg_cong[OF assms, of bridge_env] arg_cong[OF assms, of bridge_events]
    by (simp_all add: off_outbound_def)
  assume l: "l \<noteq> lane"
  from l arg_cong[OF assms, of "\<lambda>st. OutboundLanes st l"] show "outbound_lane_data l st = outbound_lane_data l st'"
    by (simp add: off_outbound_def outbound_lane_data_def)
  show "stored_messages l st = stored_messages l st'"
  proof
    fix n
    from l arg_cong[OF assms, of "\<lambda>st. OutboundMessages st \<lparr>lane_id = l, nonce = n\<rparr>"]
    show "stored_messages l st n = stored_messages l st' n"
      by (simp add: off_outbound_def stored_messages_def outbound_message_data_def)
  qed
qed

section \<open>One message\<close>

text \<open>What the pallet relies on: the dispatcher and the payments do not write the inbound lanes.\<close>

definition keeps_inbound :: "('a, 'r, 'p, 'd, 'e, 'mp, 'dp, 'o) BridgeConfig \<Rightarrow> bool" where
  "keeps_inbound cfg \<longleftrightarrow> (\<forall>m st. InboundLanes (snd (dispatch_message cfg m st)) = InboundLanes st) \<and>
     (\<forall>a t v w st. InboundLanes (delivery_pay_reward cfg a t v w st) = InboundLanes st)"

definition lane_wf :: "('a, 'r, 'p, 'd, 'e, 'mp, 'dp, 'o) BridgeConfig \<Rightarrow> 'r InboundLaneData \<Rightarrow> bool" where
  "lane_wf cfg = inbound_wf (MaxUnrewardedRelayerEntriesAtInboundLane cfg) (MaxUnconfirmedMessagesAtInboundLane cfg)"

abbreviation lane_rejects :: "('a, 'r, 'p, 'd, 'e, 'mp, 'dp, 'o) BridgeConfig \<Rightarrow> MessageNonce \<Rightarrow> 'r InboundLaneData \<Rightarrow> 'd ReceptionResult option" where
  "lane_rejects cfg \<equiv> rejection (MaxUnrewardedRelayerEntriesAtInboundLane cfg) (MaxUnconfirmedMessagesAtInboundLane cfg)"

lemma lane_dispatch_keeps:
  assumes "keeps_inbound cfg"
  shows "\<forall>m s r s'. coherent lane s \<longrightarrow> lane_dispatch cfg m s = (r, s') \<longrightarrow> coherent lane s' \<and> lane_view lane s' = lane_view lane s"
proof (intro allI impI)
  fix m s r s'
  assume *: "coherent lane s" "lane_dispatch cfg m s = (r, s')"
  from assms(1) have "InboundLanes (snd (dispatch_message cfg m (snd s))) = InboundLanes (snd s)" by (simp add: keeps_inbound_def)
  moreover obtain r1 st1 where "dispatch_message cfg m (snd s) = (r1, st1)" by fastforce
  ultimately show "coherent lane s' \<and> lane_view lane s' = lane_view lane s" using *
    by (auto simp: lane_dispatch_def coherent_def lane_view_def inbound_lane_data_def split: option.splits)
qed

text \<open>The weight a delivery was left with, and what it spent.\<close>

definition dispatched_nonces :: "'d ReceivedMessages \<Rightarrow> MessageNonce list" where
  "dispatched_nonces status = map fst (filter (\<lambda>(n, r). \<exists>x. r = Dispatched x) (receive_results status))"

lemma receive_one_cases:
  assumes "keeps_inbound cfg" "coherent lane s" "receive_one cfg relayer lane message (dl, status, s) = Inr (dl', status', s')"
    and "dispatch_weight_of cfg message = (w, message')"
  obtains (rejected) e where "lane_rejects cfg (nonce (dsp_key message')) (lane_view lane s) = Some e"
      "lane_view lane s' = lane_view lane s" "off_lane lane s' = off_lane lane s" "coherent lane s'"
      "status' = push_received (nonce (dsp_key message')) e status" "all_lte w (dispatch_weight_left dl)"
      "\<nexists>x. e = Dispatched x" "dispatch_weight_left dl' = dispatch_weight_left dl"
      "dl_actual_weight dl' = weight_saturating_sub (dl_actual_weight dl) w" "dl_status dl' = dl_status dl"
  | (dispatched) s1 r s2 where "lane_rejects cfg (nonce (dsp_key message')) (lane_view lane s) = (None :: 'd ReceptionResult option)"
      "off_lane lane s1 = off_lane lane s" "coherent lane s'"
      "lane_dispatch cfg \<lparr>dsp_key = \<lparr>lane_id = lane, nonce = nonce (dsp_key message')\<rparr>, dsp_payload = dsp_payload message'\<rparr> s1 = (r, s2)"
      "lane_view lane s' = deliver_data relayer (nonce (dsp_key message')) (lane_view lane s)" "off_lane lane s' = off_lane lane s2"
      "status' = push_received (nonce (dsp_key message')) (Dispatched r) status" "all_lte w (dispatch_weight_left dl)"
      "dispatch_weight_left dl' = weight_sub (dispatch_weight_left dl) (weight_sub w (weight_min (unspent_weight r) w))"
      "dl_actual_weight dl' = weight_saturating_sub (dl_actual_weight dl) (weight_min (unspent_weight r) w)" "dl_status dl' = dl_status dl"
proof -
  obtain res s3 where run: "receive_message (RuntimeInboundLaneStorage cfg lane) (lane_dispatch cfg) relayer
      (nonce (dsp_key message')) (dsp_payload message') s = (res, s3)"
    by (rule prod.exhaust)
  note law = ril.receive_message_data[OF assms(2) lane_dispatch_keeps[OF assms(1)] run]
  have left: "all_lte w (dispatch_weight_left dl)"
    using assms(3,4) by (auto simp: receive_one_def Let_def any_gt_iff split: if_splits)
  have same: "weight_sub a (weight_sub w w) = a" "weight_min w w = w" for a
    by (simp_all add: weight_sub_def weight_min_def)
  show thesis
  proof (cases "lane_rejects cfg (nonce (dsp_key message')) (lane_view lane s) :: 'd ReceptionResult option")
    case (Some e)
    then have "\<nexists>x. e = Dispatched x" by (auto simp: rejection_def split: if_splits)
    moreover note law(2)[OF Some]
    ultimately show thesis using assms(3,4) left law(1) Some
      by (intro rejected[of e])
        (auto simp: receive_one_def Let_def run same any_gt_iff split: ReceptionResult.splits if_splits)
  next
    case None
    from law(3)[OF None] obtain s1 r s2 where d: "off_lane lane s1 = off_lane lane s"
      "lane_dispatch cfg \<lparr>dsp_key = \<lparr>lane_id = lane, nonce = nonce (dsp_key message')\<rparr>, dsp_payload = dsp_payload message'\<rparr> s1 = (r, s2)"
      "res = Dispatched r" "lane_view lane s3 = deliver_data relayer (nonce (dsp_key message')) (lane_view lane s)" "off_lane lane s3 = off_lane lane s2"
      by blast
    with assms(3,4) left law(1) None show thesis
      by (intro dispatched[of s1 r s2]) (auto simp: receive_one_def Let_def run any_gt_iff split: if_splits)
  qed
qed

text \<open>What one message does to the lane.\<close>

lemma receive_one_lane:
  assumes "keeps_inbound cfg" "coherent lane s" "lane_wf cfg (lane_view lane s)"
    and "receive_one cfg relayer lane message (dl, status, s) = Inr (dl', status', s')"
  obtains ns where "dispatched_nonces status' = dispatched_nonces status @ ns"
    "map unat ns = [Suc (unat (last_delivered_nonce (lane_view lane s)))..<Suc (unat (last_delivered_nonce (lane_view lane s')))]"
    "deliverers (relayers (lane_view lane s')) = deliverers (relayers (lane_view lane s)) @ replicate (length ns) relayer"
    "last_confirmed_nonce (lane_view lane s') = last_confirmed_nonce (lane_view lane s)"
    "lane_wf cfg (lane_view lane s')" "coherent lane s'" "\<And>l. l \<noteq> lane \<Longrightarrow> InboundLanes (snd s') l = InboundLanes (snd s) l"
    "dl_status dl' = dl_status dl" "rm_lane status' = rm_lane status"
    "all_lte (dl_actual_weight dl') (dl_actual_weight dl)" "all_lte (dispatch_weight_left dl') (dispatch_weight_left dl)"
proof -
  obtain w m where wm: "dispatch_weight_of cfg message = (w, m)" by (rule prod.exhaust)
  from assms(1,2,4) wm show thesis
  proof (cases rule: receive_one_cases)
    case (rejected e)
    then show thesis
      by (intro that[of "[]"])
        (auto simp: dispatched_nonces_def push_received_def assms(3) all_lte_def weight_saturating_sub_def u_arith dest: off_lane_eqD(6))
  next
    case (dispatched s1 r s2)
    let ?n = "nonce (dsp_key m)" and ?d = "lane_view lane s"
    note wf = deliver_data_wf[OF assms(3)[unfolded lane_wf_def] dispatched(1), of relayer, folded lane_wf_def]
    have other: "InboundLanes (snd s') l = InboundLanes (snd s) l" if "l \<noteq> lane" for l
    proof -
      have "InboundLanes (snd s2) = InboundLanes (snd s1)"
        using assms(1) dispatched(4) by (auto simp: lane_dispatch_def keeps_inbound_def split: prod.splits) (metis snd_conv)
      with off_lane_eqD(6)[OF dispatched(2) that] off_lane_eqD(6)[OF dispatched(6) that] show ?thesis by simp
    qed
    have spent: "all_lte (weight_sub w (weight_min (unspent_weight r) w)) (dispatch_weight_left dl)"
      using dispatched(8) by (auto simp: all_lte_def weight_sub_def weight_min_def min_def u_order unat_minus_exact)
    show thesis
    proof (rule that[of "[?n]"])
      show "map unat [?n] = [Suc (unat (last_delivered_nonce ?d))..<Suc (unat (last_delivered_nonce (lane_view lane s')))]"
        using rejection_None_nonce[OF dispatched(1)] by (simp add: dispatched(5) wf(2) upt_conv_Cons)
      show "dispatched_nonces status' = dispatched_nonces status @ [?n]"
        by (simp add: dispatched(7) dispatched_nonces_def push_received_def)
      show "all_lte (dispatch_weight_left dl') (dispatch_weight_left dl)"
        using spent by (auto simp: dispatched(9) all_lte_def weight_sub_def[of "dispatch_weight_left dl"] word_le_nat_alt unat_minus_exact)
      show "all_lte (dl_actual_weight dl') (dl_actual_weight dl)"
        by (simp add: dispatched(10) all_lte_def weight_saturating_sub_def u_arith)
    qed (use wf dispatched(3,5,7,11) other in \<open>simp_all add: push_received_def\<close>)
  qed
qed

section \<open>A delivery\<close>

lemma upt_append: "i \<le> j \<Longrightarrow> j \<le> k \<Longrightarrow> [i..<j] @ [j..<k] = [i..<k]"
  by (metis upt_add_eq_append le_add_diff_inverse)

lemma lane_wf_length:
  assumes "lane_wf cfg d"
  shows "unat (last_delivered_nonce d) = unat (last_confirmed_nonce d) + length (deliverers (relayers d))"
  using assms length_deliverers[of "last_confirmed_nonce d" "relayers d"] consecutive_end[of "last_confirmed_nonce d" "relayers d"]
  by (auto simp: lane_wf_def inbound_wf_def last_delivered_end_of)

lemma receive_lane_messages_lane:
  assumes "keeps_inbound cfg" "coherent lane s" "lane_wf cfg (lane_view lane s)"
    and "receive_lane_messages cfg relayer lane ms (dl, status, s) = Inr (dl', status', s')"
  obtains ns where "dispatched_nonces status' = dispatched_nonces status @ ns"
    "map unat ns = [Suc (unat (last_delivered_nonce (lane_view lane s)))..<Suc (unat (last_delivered_nonce (lane_view lane s')))]"
    "last_delivered_nonce (lane_view lane s) \<le> last_delivered_nonce (lane_view lane s')"
    "deliverers (relayers (lane_view lane s')) = deliverers (relayers (lane_view lane s)) @ replicate (length ns) relayer"
    "last_confirmed_nonce (lane_view lane s') = last_confirmed_nonce (lane_view lane s)"
    "lane_wf cfg (lane_view lane s')" "coherent lane s'" "\<And>l. l \<noteq> lane \<Longrightarrow> InboundLanes (snd s') l = InboundLanes (snd s) l"
    "dl_status dl' = dl_status dl" "rm_lane status' = rm_lane status"
    "all_lte (dl_actual_weight dl') (dl_actual_weight dl)" "all_lte (dispatch_weight_left dl') (dispatch_weight_left dl)"
  using assms(2-)
proof (induction ms arbitrary: dl status s thesis)
  case Nil
  then show ?case by (auto intro: Nil(1)[of "[]"])
next
  case (Cons m ms)
  from Cons.prems(4) obtain dl1 status1 s1 where one: "receive_one cfg relayer lane m (dl, status, s) = Inr (dl1, status1, s1)"
    and rest: "receive_lane_messages cfg relayer lane ms (dl1, status1, s1) = Inr (dl', status', s')"
    by (auto split: sum.splits)
  obtain n1 where n1: "dispatched_nonces status1 = dispatched_nonces status @ n1"
    "map unat n1 = [Suc (unat (last_delivered_nonce (lane_view lane s)))..<Suc (unat (last_delivered_nonce (lane_view lane s1)))]"
    "deliverers (relayers (lane_view lane s1)) = deliverers (relayers (lane_view lane s)) @ replicate (length n1) relayer"
    "last_confirmed_nonce (lane_view lane s1) = last_confirmed_nonce (lane_view lane s)"
    "lane_wf cfg (lane_view lane s1)" "coherent lane s1" "\<And>l. l \<noteq> lane \<Longrightarrow> InboundLanes (snd s1) l = InboundLanes (snd s) l"
    "dl_status dl1 = dl_status dl" "rm_lane status1 = rm_lane status"
    "all_lte (dl_actual_weight dl1) (dl_actual_weight dl)" "all_lte (dispatch_weight_left dl1) (dispatch_weight_left dl)"
    using receive_one_lane[OF assms(1) Cons.prems(2,3) one] by blast
  have len1: "last_delivered_nonce (lane_view lane s) \<le> last_delivered_nonce (lane_view lane s1)"
    using lane_wf_length[OF Cons.prems(3)] lane_wf_length[OF n1(5)] n1(3,4) by (simp add: word_le_nat_alt)
  show ?case
  proof (rule Cons.IH[OF _ n1(6,5) rest])
    fix n2
    assume n2: "dispatched_nonces status' = dispatched_nonces status1 @ n2"
      "map unat n2 = [Suc (unat (last_delivered_nonce (lane_view lane s1)))..<Suc (unat (last_delivered_nonce (lane_view lane s')))]"
      "last_delivered_nonce (lane_view lane s1) \<le> last_delivered_nonce (lane_view lane s')"
      "deliverers (relayers (lane_view lane s')) = deliverers (relayers (lane_view lane s1)) @ replicate (length n2) relayer"
      "last_confirmed_nonce (lane_view lane s') = last_confirmed_nonce (lane_view lane s1)"
      "lane_wf cfg (lane_view lane s')" "coherent lane s'" "\<And>l. l \<noteq> lane \<Longrightarrow> InboundLanes (snd s') l = InboundLanes (snd s1) l"
      "dl_status dl' = dl_status dl1" "rm_lane status' = rm_lane status1"
      "all_lte (dl_actual_weight dl') (dl_actual_weight dl1)" "all_lte (dispatch_weight_left dl') (dispatch_weight_left dl1)"
    show thesis
    proof (rule Cons.prems(1)[of "n1 @ n2"])
      show "map unat (n1 @ n2) = [Suc (unat (last_delivered_nonce (lane_view lane s)))..<Suc (unat (last_delivered_nonce (lane_view lane s')))]"
        using len1 n2(3) by (simp only: map_append n1(2) n2(2) upt_append word_le_nat_alt Suc_le_mono)
    qed (use n1 n2 len1 in \<open>auto simp: replicate_add intro: all_lte_trans\<close>)
  qed
qed

lemma extra_proof_size_bytes_keeps:
  assumes "extra_proof_size_bytes cfg lane (None, st) = (x, s)"
  shows "coherent lane s" "snd s = st"
  using assms by (auto simp: extra_proof_size_bytes_def RuntimeInboundLaneStorage_def runtime_get_or_init_def coherent_def Let_def)

lemma lane_state_update:
  fixes cfg :: "('a, 'r, 'p, 'd, 'e, 'mp, 'dp, 'o) BridgeConfig" and lane :: LaneId
  defines "s' \<equiv> \<lambda>ob s. case ob of Some ob \<Rightarrow> snd (receive_state_update (RuntimeInboundLaneStorage cfg lane) ob s) | None \<Rightarrow> s"
  assumes "coherent lane s"
  shows "coherent lane (s' ob s)" "off_lane lane (s' ob s) = off_lane lane s"
    "lane_view lane (s' ob s) = (case ob of None \<Rightarrow> lane_view lane s | Some ob \<Rightarrow> snd (update_data ob (lane_view lane s)))"
proof -
  have "coherent lane (s' ob s) \<and> off_lane lane (s' ob s) = off_lane lane s \<and>
    lane_view lane (s' ob s) = (case ob of None \<Rightarrow> lane_view lane s | Some ob \<Rightarrow> snd (update_data ob (lane_view lane s)))"
  proof (cases ob)
    case (Some b)
    obtain r s1 where r: "receive_state_update (RuntimeInboundLaneStorage cfg lane) b s = (r, s1)" by (rule prod.exhaust)
    from ril.receive_state_update_data[OF assms(2) r] show ?thesis
      by (auto simp: s'_def Some r dest: arg_cong[where f = snd])
  qed (simp add: s'_def assms)
  then show "coherent lane (s' ob s)" "off_lane lane (s' ob s) = off_lane lane s"
    "lane_view lane (s' ob s) = (case ob of None \<Rightarrow> lane_view lane s | Some ob \<Rightarrow> snd (update_data ob (lane_view lane s)))"
    by blast+
qed

text \<open>What a delivery on one lane does: the state update confirms, the messages extend.\<close>

lemma receive_lane_lane:
  assumes "keeps_inbound cfg" "lane_wf cfg (inbound_lane_data lane st)"
    and "receive_lane cfg relayer lane ld (dl, st) = Inr (dl', st')"
  obtains status c ns where "dl_status dl' = dl_status dl @ [status]" "rm_lane status = lane" "dispatched_nonces status = ns"
    "map unat ns = [Suc (unat (last_delivered_nonce (inbound_lane_data lane st)))..<Suc (unat (last_delivered_nonce (inbound_lane_data lane st')))]"
    "last_delivered_nonce (inbound_lane_data lane st) \<le> last_delivered_nonce (inbound_lane_data lane st')"
    "unat (last_confirmed_nonce (inbound_lane_data lane st')) = unat (last_confirmed_nonce (inbound_lane_data lane st)) + c"
    "deliverers (relayers (inbound_lane_data lane st')) = drop c (deliverers (relayers (inbound_lane_data lane st))) @ replicate (length ns) relayer"
    "last_confirmed_nonce (inbound_lane_data lane st') = (case lane_state ld of None \<Rightarrow> last_confirmed_nonce (inbound_lane_data lane st)
       | Some ob \<Rightarrow> last_confirmed_nonce (snd (update_data ob (inbound_lane_data lane st))))"
    "lane_wf cfg (inbound_lane_data lane st')" "\<And>l. l \<noteq> lane \<Longrightarrow> InboundLanes st' l = InboundLanes st l"
    "all_lte (dl_actual_weight dl') (dl_actual_weight dl)" "all_lte (dispatch_weight_left dl') (dispatch_weight_left dl)"
proof -
  obtain x s0 where x: "extra_proof_size_bytes cfg lane (None, st) = (x, s0)" by (rule prod.exhaust)
  note s0 = extra_proof_size_bytes_keeps[OF x]
  define dl0 where "dl0 = dl\<lparr>dl_actual_weight := set_proof_size (dl_actual_weight dl) (saturating_sub (proof_size (dl_actual_weight dl)) x)\<rparr>"
  define s1 where "s1 = (case lane_state ld of Some ob \<Rightarrow> snd (receive_state_update (RuntimeInboundLaneStorage cfg lane) ob s0) | None \<Rightarrow> s0)"
  define d where "d = inbound_lane_data lane st"
  have v0: "lane_view lane s0 = d" using s0 by (simp add: lane_view_def d_def)
  have upd: "coherent lane s1 \<and> off_lane lane s1 = off_lane lane s0 \<and>
    lane_view lane s1 = (case lane_state ld of None \<Rightarrow> d | Some ob \<Rightarrow> snd (update_data ob d))"
    using lane_state_update[OF s0(1), of cfg "lane_state ld", folded s1_def] unfolding v0 by simp
  obtain c where c: "unat (last_confirmed_nonce (lane_view lane s1)) = unat (last_confirmed_nonce d) + c"
    "deliverers (relayers (lane_view lane s1)) = drop c (deliverers (relayers d))"
    "last_delivered_nonce (lane_view lane s1) = last_delivered_nonce d" "lane_wf cfg (lane_view lane s1)"
  proof (cases "lane_state ld")
    case None
    with upd assms(2) that[of 0] show thesis by (simp add: d_def)
  next
    case (Some ob)
    obtain r d1 where u: "update_data ob d = (r, d1)" by (rule prod.exhaust)
    note wf = update_data_wf[OF assms(2)[unfolded lane_wf_def, folded d_def] u]
    with Some upd u that[of "unat (last_confirmed_nonce d1) - unat (last_confirmed_nonce d)"] show thesis
      by (auto simp: lane_wf_def word_le_nat_alt)
  qed
  from assms(3) obtain status s2 where run: "receive_lane_messages cfg relayer lane (lane_messages ld)
      (dl0, \<lparr>rm_lane = lane, receive_results = []\<rparr>, s1) = Inr (dl'\<lparr>dl_status := dl_status dl0\<rparr>, status, s2)"
    and st': "st' = snd s2" "dl_status dl' = dl_status dl0 @ [status]"
  proof -
    from assms(3) obtain dl2 status s2 where *: "receive_lane_messages cfg relayer lane (lane_messages ld)
        (dl0, \<lparr>rm_lane = lane, receive_results = []\<rparr>, s1) = Inr (dl2, status, s2)"
      "st' = snd s2" "dl' = dl2\<lparr>dl_status := dl_status dl2 @ [status]\<rparr>"
      by (auto simp: receive_lane_def x Let_def dl0_def[symmetric] s1_def[symmetric] split: sum.splits prod.splits)
    have "dl_status dl2 = dl_status dl0"
      by (rule receive_lane_messages_lane[OF assms(1) conjunct1[OF upd] c(4) *(1)])
    with * that show thesis by auto
  qed
  have actual0: "all_lte (dl_actual_weight dl0) (dl_actual_weight dl)" "dispatch_weight_left dl0 = dispatch_weight_left dl" "dl_status dl0 = dl_status dl"
    by (auto simp: dl0_def all_lte_def set_proof_size_def u_arith)
  have other1: "InboundLanes (snd s1) l = InboundLanes st l" if "l \<noteq> lane" for l
    using off_lane_eqD(6)[OF conjunct1[OF conjunct2[OF upd]] that] s0(2) by simp
  show thesis
    by (rule receive_lane_messages_lane[OF assms(1) conjunct1[OF upd] c(4) run])
      (rule that[of status "dispatched_nonces status" c];
       use c upd st' actual0 other1 in \<open>auto simp: lane_view_def d_def[symmetric] dispatched_nonces_def intro: all_lte_trans split: option.split\<close>)
qed

text \<open>
  A delivery by \<open>relayer\<close> between two storages: the nonces \<open>ns\<close> continue the lane without a gap, the front of the
  queue of deliverers is confirmed, and the relayer is appended once for every message.
\<close>

definition delivered_on :: "'r \<Rightarrow> LaneId \<Rightarrow> ('a, 'r, 'd, 'e) Messages \<Rightarrow> ('a, 'r, 'd, 'e) Messages \<Rightarrow> MessageNonce list \<Rightarrow> bool" where
  "delivered_on relayer lane st st' ns \<longleftrightarrow>
     (let d = inbound_lane_data lane st; d' = inbound_lane_data lane st'
      in map unat ns = [Suc (unat (last_delivered_nonce d))..<Suc (unat (last_delivered_nonce d'))] \<and>
         last_confirmed_nonce d \<le> last_confirmed_nonce d' \<and>
         deliverers (relayers d') = drop (unat (last_confirmed_nonce d') - unat (last_confirmed_nonce d)) (deliverers (relayers d)) @
           replicate (length ns) relayer)"

lemma inbound_lane_data_cong: "InboundLanes st l = InboundLanes st' l \<Longrightarrow> inbound_lane_data l st = inbound_lane_data l st'"
  by (simp add: inbound_lane_data_def)

lemma delivered_on_cong:
  "InboundLanes st l = InboundLanes s l \<Longrightarrow> InboundLanes st' l = InboundLanes s' l \<Longrightarrow>
   delivered_on relayer l st st' ns = delivered_on relayer l s s' ns"
  by (simp add: delivered_on_def inbound_lane_data_def)

lemma receive_lane_delivered:
  assumes "keeps_inbound cfg" "\<forall>l. lane_wf cfg (inbound_lane_data l st)"
    and "receive_lane cfg relayer lane ld (dl, st) = Inr (dl', st')"
  obtains status where "dl_status dl' = dl_status dl @ [status]" "rm_lane status = lane"
    "delivered_on relayer lane st st' (dispatched_nonces status)"
    "\<forall>l. lane_wf cfg (inbound_lane_data l st')" "\<And>l. l \<noteq> lane \<Longrightarrow> InboundLanes st' l = InboundLanes st l"
    "all_lte (dl_actual_weight dl') (dl_actual_weight dl)"
proof (rule receive_lane_lane[OF assms(1) assms(2)[rule_format] assms(3)])
  fix status c ns
  assume *: "dl_status dl' = dl_status dl @ [status]" "rm_lane status = lane" "dispatched_nonces status = ns"
    "map unat ns = [Suc (unat (last_delivered_nonce (inbound_lane_data lane st)))..<Suc (unat (last_delivered_nonce (inbound_lane_data lane st')))]"
    "unat (last_confirmed_nonce (inbound_lane_data lane st')) = unat (last_confirmed_nonce (inbound_lane_data lane st)) + c"
    "deliverers (relayers (inbound_lane_data lane st')) = drop c (deliverers (relayers (inbound_lane_data lane st))) @ replicate (length ns) relayer"
    "lane_wf cfg (inbound_lane_data lane st')" "\<And>l. l \<noteq> lane \<Longrightarrow> InboundLanes st' l = InboundLanes st l"
    "all_lte (dl_actual_weight dl') (dl_actual_weight dl)"
  have "lane_wf cfg (inbound_lane_data l st')" for l
    using *(7,8) assms(2) inbound_lane_data_cong[of st' l st] by (cases "l = lane") auto
  moreover have "delivered_on relayer lane st st' (dispatched_nonces status)"
    using *(3-6) by (simp add: delivered_on_def Let_def word_le_nat_alt)
  ultimately show thesis using that * by blast
qed

lemma receive_lanes_delivered:
  assumes "keeps_inbound cfg" "\<forall>l. lane_wf cfg (inbound_lane_data l st)"
    and "receive_lanes cfg relayer ms (dl, st) = Inr (dl', st')"
  obtains ss where "dl_status dl' = dl_status dl @ ss" "map rm_lane ss = map fst ms"
    "\<And>s. distinct (map fst ms) \<Longrightarrow> s \<in> set ss \<Longrightarrow> delivered_on relayer (rm_lane s) st st' (dispatched_nonces s)"
    "\<forall>l. lane_wf cfg (inbound_lane_data l st')" "\<And>l. l \<notin> fst ` set ms \<Longrightarrow> InboundLanes st' l = InboundLanes st l"
    "all_lte (dl_actual_weight dl') (dl_actual_weight dl)"
  using assms(2,3)
proof (induction ms arbitrary: dl st thesis)
  case Nil
  then show ?case by (auto intro: Nil(1)[of "[]"])
next
  case (Cons m ms)
  obtain lane ld where m: "m = (lane, ld)" by (rule prod.exhaust)
  with Cons.prems(3) obtain dl1 st1 where one: "receive_lane cfg relayer lane ld (dl, st) = Inr (dl1, st1)"
    and rest: "receive_lanes cfg relayer ms (dl1, st1) = Inr (dl', st')"
    by (auto split: sum.splits)
  obtain s where s: "dl_status dl1 = dl_status dl @ [s]" "rm_lane s = lane" "delivered_on relayer lane st st1 (dispatched_nonces s)"
    "\<forall>l. lane_wf cfg (inbound_lane_data l st1)" "\<And>l. l \<noteq> lane \<Longrightarrow> InboundLanes st1 l = InboundLanes st l"
    "all_lte (dl_actual_weight dl1) (dl_actual_weight dl)"
    using receive_lane_delivered[OF assms(1) Cons.prems(2) one] by blast
  obtain ss where ss: "dl_status dl' = dl_status dl1 @ ss" "map rm_lane ss = map fst ms"
    "\<And>s. distinct (map fst ms) \<Longrightarrow> s \<in> set ss \<Longrightarrow> delivered_on relayer (rm_lane s) st1 st' (dispatched_nonces s)"
    "\<forall>l. lane_wf cfg (inbound_lane_data l st')" "\<And>l. l \<notin> fst ` set ms \<Longrightarrow> InboundLanes st' l = InboundLanes st1 l"
    "all_lte (dl_actual_weight dl') (dl_actual_weight dl1)"
    using Cons.IH[OF _ s(4) rest] by blast
  have "delivered_on relayer (rm_lane x) st st' (dispatched_nonces x)" if d: "distinct (map fst (m # ms))" and x: "x \<in> set (s # ss)" for x
  proof (cases "x = s")
    case True
    from d m have "lane \<notin> fst ` set ms" by auto
    from ss(5)[OF this] s(2,3) True show ?thesis using delivered_on_cong[of st lane st st' st1] by simp
  next
    case False
    with x have "x \<in> set ss" by simp
    moreover from this ss(2) have "rm_lane x \<in> fst ` set ms" by (metis image_eqI list.set_map)
    with d m have "rm_lane x \<noteq> lane" by auto
    ultimately show ?thesis using ss(3)[of x] d s(5) delivered_on_cong[of st "rm_lane x" st1 st' st'] by simp
  qed
  with s ss m show ?case
    by (intro Cons.prems(1)[of "s # ss"]) (auto intro: all_lte_trans)
qed

text \<open>The lanes and messages a proof is verified to carry.\<close>

lemma receive_messages_proof_run:
  assumes "receive_messages_proof cfg origin relayer prf n w st = Inr (w', st')"
  obtains a ms dl st1 where "\<not> is_halted st" "origin = Signed a" "verify_messages_proof cfg prf n st = Inr ms"
    "ucast n \<le> MaxUnconfirmedMessagesAtInboundLane cfg" "dispatch_is_active cfg st"
    "receive_lanes cfg relayer (map (\<lambda>(lane, ld). (lane, \<lparr>lane_state = lane_state ld, lane_messages = map (decode_message cfg) (lane_messages ld)\<rparr>)) ms)
       (\<lparr>dl_total_messages = 0, dl_valid_messages = 0, dispatch_weight_left = w,
         dl_actual_weight = receive_messages_proof_weight (WeightInfo cfg) (messages_proof_size cfg prf) n w, dl_status = []\<rparr>, st) = Inr (dl, st1)"
    "w' = dl_actual_weight dl"
    "st' = bridge_deposit_event (MessagesReceived (dl_status dl))
       (delivery_pay_reward cfg a (dl_total_messages dl) (dl_valid_messages dl) (dl_actual_weight dl) st1)"
  using assms
  by (auto simp: receive_messages_proof_def ensure_not_halted_def ensure_signed_def verify_and_decode_messages_proof_def
      Let_def not_le split: sum.splits if_splits RawOrigin.splits prod.splits)

lemma receive_messages_proof_delivered:
  assumes "keeps_inbound cfg" "\<forall>l. lane_wf cfg (inbound_lane_data l st)"
    and "receive_messages_proof cfg origin relayer prf n w st = Inr (w', st')"
    and "verify_messages_proof cfg prf n st = Inr ms"
  obtains ss where "last (bridge_events st') = MessagesReceived ss" "map rm_lane ss = map fst ms"
    "\<And>s. distinct (map fst ms) \<Longrightarrow> s \<in> set ss \<Longrightarrow> delivered_on relayer (rm_lane s) st st' (dispatched_nonces s)"
    "\<forall>l. lane_wf cfg (inbound_lane_data l st')" "\<And>l. l \<notin> fst ` set ms \<Longrightarrow> InboundLanes st' l = InboundLanes st l"
    "all_lte w' (receive_messages_proof_weight (WeightInfo cfg) (messages_proof_size cfg prf) n w)"
  using assms(3)
proof (cases rule: receive_messages_proof_run)
  case (1 a ms' dl st1)
  with assms(4) have ms: "ms' = ms" by simp
  have keep: "InboundLanes st' = InboundLanes st1"
    using assms(1) by (simp add: 1(8) bridge_deposit_event_def keeps_inbound_def)
  note eq = delivered_on_cong[OF refl fun_cong[OF keep]] inbound_lane_data_cong[OF fun_cong[OF keep]]
  have ev: "last (bridge_events st') = MessagesReceived (dl_status dl)"
    by (simp add: 1(8) bridge_deposit_event_def)
  show thesis
    by (rule receive_lanes_delivered[OF assms(1,2) 1(6)])
      (rule that[of "dl_status dl"]; simp add: 1(7) ms eq ev keep comp_def case_prod_beta image_image)
qed

text \<open>A property of the storage outside the inbound lanes that the dispatcher keeps is kept by the loops.\<close>

definition outside_lanes :: "(('a, 'r, 'd, 'e) Messages \<Rightarrow> bool) \<Rightarrow> bool" where
  "outside_lanes P \<longleftrightarrow> (\<forall>lane s s'. off_lane lane s = off_lane lane s' \<longrightarrow> P (snd s) = P (snd s'))"

lemma receive_lane_messages_keeps:
  assumes "keeps_inbound cfg" "outside_lanes P" "\<forall>m st. P st \<longrightarrow> P (snd (dispatch_message cfg m st))"
    and "coherent lane s" "P (snd s)" "receive_lane_messages cfg relayer lane ms (dl, status, s) = Inr (dl', status', s')"
  shows "P (snd s')"
  using assms(4-)
proof (induction ms arbitrary: dl status s)
  case (Cons m ms)
  from Cons.prems(3) obtain dl1 status1 s1 where one: "receive_one cfg relayer lane m (dl, status, s) = Inr (dl1, status1, s1)"
    and rest: "receive_lane_messages cfg relayer lane ms (dl1, status1, s1) = Inr (dl', status', s')"
    by (auto split: sum.splits)
  obtain w m' where w: "dispatch_weight_of cfg m = (w, m')" by (rule prod.exhaust)
  have "coherent lane s1 \<and> P (snd s1)"
    using assms(1) Cons.prems(1) one w
  proof (cases rule: receive_one_cases)
    case (rejected e)
    with assms(2) Cons.prems(2) show ?thesis unfolding outside_lanes_def by blast
  next
    case (dispatched s2 r s3)
    with assms(2) Cons.prems(2) have "P (snd s2)" unfolding outside_lanes_def by blast
    moreover obtain r' st' where "dispatch_message cfg \<lparr>dsp_key = \<lparr>lane_id = lane, nonce = nonce (dsp_key m')\<rparr>, dsp_payload = dsp_payload m'\<rparr> (snd s2) = (r', st')"
      by (rule prod.exhaust)
    ultimately have "P (snd s3)"
      using assms(3)[rule_format, of "snd s2" "\<lparr>dsp_key = \<lparr>lane_id = lane, nonce = nonce (dsp_key m')\<rparr>, dsp_payload = dsp_payload m'\<rparr>"] dispatched(4)
      by (auto simp: lane_dispatch_def)
    with assms(2) dispatched(3,6) show ?thesis unfolding outside_lanes_def by blast
  qed
  with Cons.IH rest show ?case by blast
qed simp

lemma receive_lane_keeps:
  assumes "keeps_inbound cfg" "outside_lanes P" "\<forall>m st. P st \<longrightarrow> P (snd (dispatch_message cfg m st))"
    and "P st" "receive_lane cfg relayer lane ld (dl, st) = Inr (dl', st')"
  shows "P st'"
proof -
  obtain x s0 where x: "extra_proof_size_bytes cfg lane (None, st) = (x, s0)" by (rule prod.exhaust)
  note s0 = extra_proof_size_bytes_keeps[OF x]
  define s1 where "s1 = (case lane_state ld of Some ob \<Rightarrow> snd (receive_state_update (RuntimeInboundLaneStorage cfg lane) ob s0) | None \<Rightarrow> s0)"
  have "coherent lane s1 \<and> off_lane lane s1 = off_lane lane s0"
    using lane_state_update[OF s0(1), of cfg "lane_state ld", folded s1_def] by blast
  moreover from this assms(2,4) s0(2) have "P (snd s1)" unfolding outside_lanes_def by blast
  moreover from assms(5) obtain dl0 dl2 status s2 where
    "receive_lane_messages cfg relayer lane (lane_messages ld) (dl0, \<lparr>rm_lane = lane, receive_results = []\<rparr>, s1) = Inr (dl2, status, s2)"
    "st' = snd s2"
    by (auto simp: receive_lane_def x Let_def s1_def[symmetric] split: sum.splits prod.splits)
  ultimately show ?thesis using receive_lane_messages_keeps[OF assms(1-3)] by blast
qed

lemma receive_lanes_keeps:
  assumes "keeps_inbound cfg" "outside_lanes P" "\<forall>m st. P st \<longrightarrow> P (snd (dispatch_message cfg m st))"
    and "P st" "receive_lanes cfg relayer ms (dl, st) = Inr (dl', st')"
  shows "P st'"
  using assms(4-)
proof (induction ms arbitrary: dl st)
  case (Cons m ms)
  then obtain dl1 st1 where "receive_lane cfg relayer (fst m) (snd m) (dl, st) = Inr (dl1, st1)"
    "receive_lanes cfg relayer ms (dl1, st1) = Inr (dl', st')"
    by (cases m) (auto split: sum.splits)
  with Cons receive_lane_keeps[OF assms(1-3)] show ?case by blast
qed simp

section \<open>Outbound lanes\<close>

text \<open>Nonces do not run out: the last one is never generated.\<close>

definition outbound_inv :: "('a, 'r, 'd, 'e) Messages \<Rightarrow> bool" where
  "outbound_inv st \<longleftrightarrow> (\<forall>l. outbound_wf (outbound_lane_data l st) (stored_messages l st) \<and>
     latest_generated_nonce (outbound_lane_data l st) \<noteq> umax)"

lemma outbound_inv_cong:
  "OutboundLanes st = OutboundLanes st' \<Longrightarrow> OutboundMessages st = OutboundMessages st' \<Longrightarrow> outbound_inv st = outbound_inv st'"
  by (simp add: outbound_inv_def outbound_lane_data_def stored_messages_def[abs_def] outbound_message_data_def)

lemma outside_outbound_inv: "outside_lanes outbound_inv"
  unfolding outside_lanes_def by (metis outbound_inv_cong off_lane_eqD(3,4))

lemma outbound_inv_received: "outbound_inv st \<Longrightarrow> latest_received_nonce (outbound_lane_data l st) \<noteq> umax"
  by (auto simp: outbound_inv_def outbound_wf_def dest!: spec[of _ l])

lemma outbound_inv_lane:
  assumes "outbound_inv st" "off_outbound lane st' = off_outbound lane st"
    and "outbound_wf (outbound_lane_data lane st') (stored_messages lane st')"
    and "latest_generated_nonce (outbound_lane_data lane st') \<noteq> umax"
  shows "outbound_inv st'"
  unfolding outbound_inv_def
proof
  fix l
  show "outbound_wf (outbound_lane_data l st') (stored_messages l st') \<and> latest_generated_nonce (outbound_lane_data l st') \<noteq> umax"
    using assms off_outbound_eqD(6,7)[OF assms(2), of l] by (cases "l = lane") (auto simp: outbound_inv_def)
qed

lemma receive_messages_delivery_proof_run:
  assumes "receive_messages_delivery_proof cfg origin prf rs st = Inr (w, st')"
  obtains a lane ld c st1 rs' st2 where "\<not> is_halted st" "origin = Signed a"
    "verify_messages_delivery_proof cfg prf st = Inr (lane, ld)" "rs = relayers_state_of ld"
    "confirm_delivery (RuntimeOutboundLaneStorage lane) (urs_total_messages rs) (last_delivered_nonce ld) (relayers ld) st = (Inr c, st1)"
    "c = None \<Longrightarrow> st2 = st1 \<and> rs' = rs"
    "\<And>d. c = Some d \<Longrightarrow> st2 = snd (confirmation_pay_reward cfg lane (relayers ld) a (dm_begin d, dm_end d)
       (bridge_deposit_event (MessagesDelivered lane d) st1))"
    "unrewarded_relayer_entries rs' \<le> unrewarded_relayer_entries rs" "urs_total_messages rs' \<le> urs_total_messages rs"
    "w = receive_messages_delivery_proof_weight (WeightInfo cfg) (delivery_proof_size cfg prf) rs'"
    "st' = on_messages_delivered cfg lane (saturating_len (latest_received_nonce (outbound_lane_data lane st2) + 1)
       (latest_generated_nonce (outbound_lane_data lane st2))) st2"
proof -
  from assms obtain a lane ld where v: "\<not> is_halted st" "origin = Signed a"
    "verify_messages_delivery_proof cfg prf st = Inr (lane, ld)" "rs = relayers_state_of ld"
    by (auto simp: receive_messages_delivery_proof_def ensure_not_halted_def ensure_signed_def relayers_state_is_valid_def
        split: sum.splits if_splits RawOrigin.splits)
  obtain res st1 where c: "confirm_delivery (RuntimeOutboundLaneStorage lane) (urs_total_messages rs) (last_delivered_nonce ld) (relayers ld) st = (res, st1)"
    by (rule prod.exhaust)
  note run = assms[unfolded receive_messages_delivery_proof_def]
  show thesis
  proof (cases res)
    case (Inl e)
    with run v c show thesis by (simp add: ensure_not_halted_def ensure_signed_def relayers_state_is_valid_def)
  next
    case (Inr conf)
    show thesis
    proof (cases conf)
      case None
      with run v c Inr show thesis
        by (intro that[of a lane ld None st1 st1 rs])
          (auto simp: ensure_not_halted_def ensure_signed_def relayers_state_is_valid_def queued_messages_def Let_def)
    next
      case (Some d)
      obtain k st2 where p: "confirmation_pay_reward cfg lane (relayers ld) a (dm_begin d, dm_end d)
          (bridge_deposit_event (MessagesDelivered lane d) st1) = (k, st2)" by (rule prod.exhaust)
      define rs' where "rs' = rs\<lparr>unrewarded_relayer_entries := min (unrewarded_relayer_entries rs) k,
        urs_total_messages := min (urs_total_messages rs) (case checked_len (dm_begin d) (dm_end d) of Some l \<Rightarrow> l | None \<Rightarrow> umax)\<rparr>"
      from run v c Inr Some p show thesis
        by (intro that[of a lane ld "Some d" st1 st2 rs'])
          (auto simp: ensure_not_halted_def ensure_signed_def relayers_state_is_valid_def queued_messages_def Let_def rs'_def)
    qed
  qed
qed

end
