(* ===== verification/Bridge_Steps.thy ===== *)
theory Bridge_Steps
  imports Bridge_Delivery
begin

text \<open>
  The bridge messages pallet as a transition system, with its calls, its hook and the messages other pallets send
  as steps; the invariant of the lanes in every reachable storage; and what the single calls promise.
\<close>

section \<open>What the pallet relies on\<close>

text \<open>
  The runtime's parts do not write the inbound lanes and keep the outbound lanes well-formed (they may send
  messages); a database write has a weight that can be doubled.
\<close>

definition runtime_ok :: "('a, 'r, 'p, 'd, 'e, 'mp, 'dp, 'o) BridgeConfig \<Rightarrow> bool" where
  "runtime_ok cfg \<longleftrightarrow> keeps_inbound cfg \<and>
     (\<forall>m st. outbound_inv st \<longrightarrow> outbound_inv (snd (dispatch_message cfg m st))) \<and>
     (\<forall>a t v w st. outbound_inv st \<longrightarrow> outbound_inv (delivery_pay_reward cfg a t v w st)) \<and>
     (\<forall>l rs a r st. InboundLanes (snd (confirmation_pay_reward cfg l rs a r st)) = InboundLanes st \<and>
        (outbound_inv st \<longrightarrow> outbound_inv (snd (confirmation_pay_reward cfg l rs a r st)))) \<and>
     (\<forall>l n st. InboundLanes (on_messages_delivered cfg l n st) = InboundLanes st \<and>
        (outbound_inv st \<longrightarrow> outbound_inv (on_messages_delivered cfg l n st))) \<and>
     fits (db_writes (DbWeight cfg) 1) (db_writes (DbWeight cfg) 1) weight_MAX \<and>
     \<not> weight_is_zero (db_writes (DbWeight cfg) 1)"

section \<open>Steps\<close>

definition bridge_genesis :: "MessagesOperatingMode \<Rightarrow> 'a option \<Rightarrow> 'e \<Rightarrow> ('a, 'r, 'd, 'e) Messages" where
  "bridge_genesis operating_mode owner e = genesis_build operating_mode owner
     \<lparr>PalletOwner = None, PalletOperatingMode = Basic Normal, InboundLanes = Map.empty, OutboundLanes = Map.empty,
      OutboundMessages = Map.empty, bridge_events = [], bridge_env = e\<rparr>"

text \<open>
  A failed call changes nothing and is no step. The rest of the runtime may change its own part of the storage.
  A lane never sends its last nonce: that takes more than \<open>10\<^sup>1\<^sup>9\<close> messages.
\<close>

inductive bridge_step :: "('a, 'r, 'p, 'd, 'e, 'mp, 'dp, 'o) BridgeConfig \<Rightarrow> ('a, 'r, 'd, 'e) Messages \<Rightarrow> ('a, 'r, 'd, 'e) Messages \<Rightarrow> bool"
  for cfg :: "('a, 'r, 'p, 'd, 'e, 'mp, 'dp, 'o) BridgeConfig" where
  step_set_owner: "set_owner origin owner st = Inr st' \<Longrightarrow> bridge_step cfg st st'"
| step_set_operating_mode: "set_operating_mode origin mode st = Inr st' \<Longrightarrow> bridge_step cfg st st'"
| step_receive_messages_proof:
    "receive_messages_proof cfg origin relayer prf messages_count dispatch_weight st = Inr (w, st') \<Longrightarrow> bridge_step cfg st st'"
| step_receive_messages_delivery_proof:
    "receive_messages_delivery_proof cfg origin dprf rs st = Inr (w, st') \<Longrightarrow> bridge_step cfg st st'"
| step_send_message: "validate_message cfg lane message st = Inr args \<Longrightarrow> send_message args st = (artifacts, st') \<Longrightarrow>
    unat (latest_generated_nonce (outbound_lane_data lane st)) + 2 < 2 ^ 64 \<Longrightarrow> bridge_step cfg st st'"
| step_on_idle: "bridge_on_idle cfg block_number remaining_weight st = Some (w, st') \<Longrightarrow> bridge_step cfg st st'"
| step_runtime: "bridge_step cfg st (st\<lparr>bridge_env := e\<rparr>)"

inductive bridge_reachable :: "('a, 'r, 'p, 'd, 'e, 'mp, 'dp, 'o) BridgeConfig \<Rightarrow> ('a, 'r, 'd, 'e) Messages \<Rightarrow> bool"
  for cfg :: "('a, 'r, 'p, 'd, 'e, 'mp, 'dp, 'o) BridgeConfig" where
  reach_genesis: "bridge_reachable cfg (bridge_genesis mode owner e)"
| reach_step: "bridge_reachable cfg st \<Longrightarrow> bridge_step cfg st st' \<Longrightarrow> bridge_reachable cfg st'"

section \<open>The invariant\<close>

definition bridge_inv :: "('a, 'r, 'p, 'd, 'e, 'mp, 'dp, 'o) BridgeConfig \<Rightarrow> ('a, 'r, 'd, 'e) Messages \<Rightarrow> bool" where
  "bridge_inv cfg st \<longleftrightarrow> (\<forall>l. lane_wf cfg (inbound_lane_data l st)) \<and> outbound_inv st"

lemma bridge_inv_genesis: "bridge_inv cfg (bridge_genesis mode owner e)"
proof -
  have "InboundLanes (bridge_genesis mode owner e :: ('a, 'b, 'd, 'e) Messages) = Map.empty" "OutboundLanes (bridge_genesis mode owner e :: ('a, 'b, 'd, 'e) Messages) = Map.empty"
    "OutboundMessages (bridge_genesis mode owner e :: ('a, 'b, 'd, 'e) Messages) = Map.empty"
    by (simp_all add: bridge_genesis_def genesis_build_def Let_def split: option.split)
  then show ?thesis
    using outbound_wf_default inbound_wf_default
    by (auto simp: bridge_inv_def outbound_inv_def lane_wf_def inbound_lane_data_def outbound_lane_data_def
        stored_messages_def[abs_def] outbound_message_data_def outbound_default_def u_arith)
qed

lemma bridge_inv_cong:
  "InboundLanes st = InboundLanes st' \<Longrightarrow> OutboundLanes st = OutboundLanes st' \<Longrightarrow> OutboundMessages st = OutboundMessages st' \<Longrightarrow>
   bridge_inv cfg st = bridge_inv cfg st'"
  using outbound_inv_cong[of st st'] by (simp add: bridge_inv_def inbound_lane_data_def)

lemma set_owner_keeps: "set_owner origin owner st = Inr st' \<Longrightarrow> bridge_inv cfg st' = bridge_inv cfg st"
  by (rule bridge_inv_cong) (auto simp: set_owner_def split: sum.splits option.splits)

lemma set_operating_mode_keeps: "set_operating_mode origin mode st = Inr st' \<Longrightarrow> bridge_inv cfg st' = bridge_inv cfg st"
  by (rule bridge_inv_cong) (auto simp: set_operating_mode_def split: sum.splits)

lemma receive_messages_proof_keeps:
  assumes "runtime_ok cfg" "bridge_inv cfg st" "receive_messages_proof cfg origin relayer prf n w st = Inr (w', st')"
  shows "bridge_inv cfg st'"
proof -
  from assms(1) have k: "keeps_inbound cfg" "\<forall>m st. outbound_inv st \<longrightarrow> outbound_inv (snd (dispatch_message cfg m st))"
    by (simp_all add: runtime_ok_def)
  from assms(3) show ?thesis
  proof (cases rule: receive_messages_proof_run)
    case (1 a ms dl st1)
    have "outbound_inv st1"
      using receive_lanes_keeps[OF k(1) outside_outbound_inv k(2) _ 1(6)] assms(2) by (simp add: bridge_inv_def)
    with assms(1) have "outbound_inv (delivery_pay_reward cfg a (dl_total_messages dl) (dl_valid_messages dl) (dl_actual_weight dl) st1)"
      by (simp add: runtime_ok_def)
    then have "outbound_inv st'" unfolding 1(8) by (subst outbound_inv_cong) (auto simp: bridge_deposit_event_def)
    moreover have "\<forall>l. lane_wf cfg (inbound_lane_data l st')"
      using receive_messages_proof_delivered[OF k(1) _ assms(3) 1(3)] assms(2) by (auto simp: bridge_inv_def)
    ultimately show ?thesis by (simp add: bridge_inv_def)
  qed
qed

lemma confirm_delivery_outbound_inv:
  assumes "confirm_delivery (RuntimeOutboundLaneStorage lane) allowed latest rs st = (res, st')" "outbound_inv st"
  shows "outbound_inv st'" "InboundLanes st' = InboundLanes st"
proof -
  have "outbound_wf (outbound_lane_data lane st') (stored_messages lane st')"
    using rol.confirm_delivery_wf[OF assms(1)] assms(2) by (simp add: outbound_inv_def)
  moreover have "off_outbound lane st' = off_outbound lane st \<and>
      latest_generated_nonce (outbound_lane_data lane st') = latest_generated_nonce (outbound_lane_data lane st)"
    using assms(1) by (cases rule: rol.confirm_delivery_cases) (auto simp flip: runtime_out_data)
  ultimately show "outbound_inv st'" "InboundLanes st' = InboundLanes st"
    using outbound_inv_lane[OF assms(2), of lane st'] assms(2) off_outbound_eqD(3)[of lane st' st]
    by (auto simp: outbound_inv_def)
qed

lemma receive_messages_delivery_proof_keeps:
  assumes "runtime_ok cfg" "bridge_inv cfg st" "receive_messages_delivery_proof cfg origin prf rs st = Inr (w, st')"
  shows "bridge_inv cfg st'"
  using assms(3)
proof (cases rule: receive_messages_delivery_proof_run)
  case (1 a lane ld c st1 rs' st2)
  from assms(2) have "outbound_inv st" by (simp add: bridge_inv_def)
  from confirm_delivery_outbound_inv[OF 1(5) this] have c: "outbound_inv st1" "InboundLanes st1 = InboundLanes st" .
  have "outbound_inv st2 \<and> InboundLanes st2 = InboundLanes st"
  proof (cases c)
    case None
    with 1(6) c show ?thesis by simp
  next
    case (Some d)
    let ?s = "bridge_deposit_event (MessagesDelivered lane d) st1"
    have "outbound_inv ?s" "InboundLanes ?s = InboundLanes st1"
      using c(1) by (subst outbound_inv_cong[of _ st1]) (auto simp: bridge_deposit_event_def)
    with assms(1) 1(7)[OF Some] c(2) show ?thesis by (simp add: runtime_ok_def)
  qed
  with assms(1) have "outbound_inv st'" "InboundLanes st' = InboundLanes st"
    by (simp_all add: 1(11) runtime_ok_def)
  with assms(2) show ?thesis by (simp add: bridge_inv_def inbound_lane_data_def)
qed

lemma send_message_run:
  assumes "send_message args st = (artifacts, st')"
  obtains st1 where "lane_send_message (RuntimeOutboundLaneStorage (sma_lane_id args)) (sma_payload args) st = (smt_nonce artifacts, st1)"
    "st' = bridge_deposit_event (MessageAccepted (sma_lane_id args) (smt_nonce artifacts)) st1"
  using assms by (auto simp: send_message_def Let_def split: prod.splits)

lemma send_message_outbound_inv:
  assumes "outbound_inv st" "send_message args st = (artifacts, st')"
    and "unat (latest_generated_nonce (outbound_lane_data (sma_lane_id args) st)) + 2 < 2 ^ 64"
  shows "outbound_inv st'" "InboundLanes st' = InboundLanes st"
proof -
  let ?l = "sma_lane_id args" and ?n = "smt_nonce artifacts"
  from assms(2) obtain st1 where
    run: "lane_send_message (RuntimeOutboundLaneStorage ?l) (sma_payload args) st = (?n, st1)"
    and st': "st' = bridge_deposit_event (MessageAccepted ?l ?n) st1"
    by (rule send_message_run)
  note send = rol.send_message_data[OF run, unfolded runtime_out_data]
  from assms(1) have wf: "outbound_wf (outbound_lane_data ?l st) (stored_messages ?l st)" "latest_generated_nonce (outbound_lane_data ?l st) \<noteq> umax"
    by (auto simp: outbound_inv_def)
  have "unat ?n = Suc (unat (latest_generated_nonce (outbound_lane_data ?l st)))"
    unfolding send(1) using assms(3) by (subst unat_plus_exact) auto
  with assms(3) have "?n \<noteq> umax" by (simp add: u_arith)
  with rol.send_message_wf[OF run, unfolded runtime_out_data, OF wf] send
  have "outbound_inv st1" by (intro outbound_inv_lane[OF assms(1)]) auto
  then show "outbound_inv st'" unfolding st' by (subst outbound_inv_cong[of _ st1]) (auto simp: bridge_deposit_event_def)
  show "InboundLanes st' = InboundLanes st" using off_outbound_eqD(3)[OF send(4)] by (simp add: st' bridge_deposit_event_def)
qed

lemma send_message_keeps:
  assumes "bridge_inv cfg st" "send_message args st = (artifacts, st')"
    and "unat (latest_generated_nonce (outbound_lane_data (sma_lane_id args) st)) + 2 < 2 ^ 64"
  shows "bridge_inv cfg st'"
  using send_message_outbound_inv[OF _ assms(2,3)] assms(1) by (simp add: bridge_inv_def inbound_lane_data_def)

lemma db_reads_writes_split:
  assumes "all_gte rem (db_reads_writes db 1 2)" "unat (db_read db) + 2 * unat (db_write db) < 2 ^ 64"
  shows "all_lte (db_reads db 1) rem"
    and "all_gte (weight_sub rem (db_reads db 1)) (weight_add (db_writes db 1) (db_writes db 1))"
proof -
  have one: "saturating_mul (db_read db) 1 = db_read db" "saturating_mul (db_write db) 1 = db_write db"
    using unat_le_umax[of "db_read db"] unat_le_umax[of "db_write db"] by (simp_all add: u_arith)
  have "unat (db_write db + db_write db) = 2 * unat (db_write db)"
    using assms(2) by (subst unat_plus_exact) auto
  moreover have "unat (saturating_add (saturating_mul (db_read db) 1) (saturating_mul (db_write db) 2)) = unat (db_read db) + 2 * unat (db_write db)"
    using assms(2) by (simp add: u_arith one)
  with assms(1) have "unat (db_read db) + 2 * unat (db_write db) \<le> unat (ref_time rem)"
    by (simp add: all_gte_def db_reads_writes_def from_parts_def word_le_nat_alt)
  ultimately show "all_lte (db_reads db 1) rem"
    "all_gte (weight_sub rem (db_reads db 1)) (weight_add (db_writes db 1) (db_writes db 1))"
    by (simp_all add: all_lte_def all_gte_def db_reads_def db_writes_def from_parts_def weight_sub_def weight_add_def one
        word_le_nat_alt unat_minus_exact)
qed

text \<open>The hook returns, within its weight, and prunes received messages only.\<close>

lemma bridge_on_idle_returns:
  assumes "runtime_ok cfg" "outbound_inv st" "0 < length (ActiveOutboundLanes cfg)" "length (ActiveOutboundLanes cfg) < 2 ^ 32"
    and "unat (db_read (DbWeight cfg)) + 2 * unat (db_write (DbWeight cfg)) < 2 ^ 64"
  obtains w st' where "bridge_on_idle cfg block rem st = Some (w, st')" "all_lte w rem" "outbound_inv st'"
    "InboundLanes st' = InboundLanes st"
    "\<And>l. latest_received_nonce (outbound_lane_data l st') = latest_received_nonce (outbound_lane_data l st)"
    "\<And>l. latest_generated_nonce (outbound_lane_data l st') = latest_generated_nonce (outbound_lane_data l st)"
    "\<And>l n. latest_received_nonce (outbound_lane_data l st) < n \<Longrightarrow> stored_messages l st' n = stored_messages l st n"
    "\<And>l. all_gte rem (db_reads_writes (DbWeight cfg) 1 2) \<Longrightarrow>
       l = ActiveOutboundLanes cfg ! (block mod length (ActiveOutboundLanes cfg)) \<Longrightarrow>
       oldest_unpruned_nonce (outbound_lane_data l st) \<le> latest_received_nonce (outbound_lane_data l st) \<Longrightarrow>
       oldest_unpruned_nonce (outbound_lane_data l st) < oldest_unpruned_nonce (outbound_lane_data l st')"
proof (cases "all_gte rem (db_reads_writes (DbWeight cfg) 1 2)")
  case False
  with that[of weight_zero st] assms(2) show thesis by (simp add: bridge_on_idle_def)
next
  case True
  define lane where "lane = ActiveOutboundLanes cfg ! (block mod length (ActiveOutboundLanes cfg))"
  let ?db = "DbWeight cfg"
  define left where "left = weight_sub rem (db_reads ?db 1)"
  note split = db_reads_writes_split[OF True assms(5), folded left_def]
  have len: "unat (of_nat (length (ActiveOutboundLanes cfg)) :: u32) = length (ActiveOutboundLanes cfg)"
    using assms(4) by (simp add: unat_of_nat)
  from assms(1) have w: "fits (db_writes ?db 1) (db_writes ?db 1) weight_MAX" "\<not> weight_is_zero (db_writes ?db 1)"
    by (simp_all add: runtime_ok_def)
  from assms(2) have wf: "outbound_wf (out_data (RuntimeOutboundLaneStorage lane) st) (stored_messages lane st)"
    by (simp add: outbound_inv_def)
  obtain spent st' where p: "prune_messages (RuntimeOutboundLaneStorage lane) ?db left st = Some (spent, st')" "all_lte spent left"
    "outbound_wf (outbound_lane_data lane st') (stored_messages lane st')"
    "latest_received_nonce (outbound_lane_data lane st') = latest_received_nonce (outbound_lane_data lane st)"
    "latest_generated_nonce (outbound_lane_data lane st') = latest_generated_nonce (outbound_lane_data lane st)"
    "off_outbound lane st' = off_outbound lane st"
    "\<And>n. latest_received_nonce (outbound_lane_data lane st) < n \<Longrightarrow> stored_messages lane st' n = stored_messages lane st n"
    "\<And>n m. stored_messages lane st' n = Some m \<Longrightarrow> stored_messages lane st n = Some m"
    "oldest_unpruned_nonce (outbound_lane_data lane st) \<le> latest_received_nonce (outbound_lane_data lane st) \<Longrightarrow>
       oldest_unpruned_nonce (outbound_lane_data lane st) < oldest_unpruned_nonce (outbound_lane_data lane st')"
    using rol.prune_messages_ok[OF wf _ w, of left] outbound_inv_received[OF assms(2)] split(2) by auto
  note other = off_outbound_eqD(6,7)[OF p(6)]
  show thesis
  proof (rule that)
    show "bridge_on_idle cfg block rem st = Some (weight_add (db_reads ?db 1) spent, st')"
      using True assms(3) p(1) by (simp add: bridge_on_idle_def Let_def len lane_def left_def)
    show "all_lte (weight_add (db_reads ?db 1) spent) rem"
    proof -
      have "unat (ref_time left) = unat (ref_time rem) - unat (ref_time (db_reads ?db 1))"
        "unat (proof_size left) = unat (proof_size rem) - unat (proof_size (db_reads ?db 1))"
        using split(1) by (simp_all add: left_def weight_sub_def all_lte_def word_le_nat_alt unat_minus_exact)
      with p(2) split(1) show ?thesis
        using unat_bound[of "ref_time rem"] unat_bound[of "proof_size rem"]
        by (auto simp: all_lte_def weight_add_def word_le_nat_alt unat_plus_exact)
    qed
    show "outbound_inv st'"
      using assms(2) p(3,5) by (intro outbound_inv_lane[OF assms(2) p(6)]) (auto simp: outbound_inv_def)
    show "InboundLanes st' = InboundLanes st" by (rule off_outbound_eqD(3)[OF p(6)])
    show "latest_received_nonce (outbound_lane_data l st') = latest_received_nonce (outbound_lane_data l st)"
      "latest_generated_nonce (outbound_lane_data l st') = latest_generated_nonce (outbound_lane_data l st)"
      "latest_received_nonce (outbound_lane_data l st) < n \<Longrightarrow> stored_messages l st' n = stored_messages l st n" for l n
      using p(4,5,7) other[of l] by (cases "l = lane"; simp)+
  qed (use p(9) lane_def in auto)
qed

lemma bridge_on_idle_nonces:
  assumes "runtime_ok cfg" "outbound_inv st"
    and "prune_messages (RuntimeOutboundLaneStorage lane) (DbWeight cfg) r st = Some (spent, st')"
  shows "outbound_inv st'" "InboundLanes st' = InboundLanes st"
    "latest_received_nonce (outbound_lane_data l st') = latest_received_nonce (outbound_lane_data l st)"
    "latest_generated_nonce (outbound_lane_data l st') = latest_generated_nonce (outbound_lane_data l st)"
    "stored_messages l st' n = Some p \<Longrightarrow> stored_messages l st n = Some p"
proof -
  from assms(1) have w: "fits (db_writes (DbWeight cfg) 1) (db_writes (DbWeight cfg) 1) weight_MAX" "\<not> weight_is_zero (db_writes (DbWeight cfg) 1)"
    by (simp_all add: runtime_ok_def)
  have wf: "outbound_wf (out_data (RuntimeOutboundLaneStorage lane) st) (stored_messages lane st)"
    using assms(2) by (simp add: outbound_inv_def)
  have pr: "outbound_wf (outbound_lane_data lane st') (stored_messages lane st') \<and> off_outbound lane st' = off_outbound lane st \<and>
    latest_received_nonce (outbound_lane_data lane st') = latest_received_nonce (outbound_lane_data lane st) \<and>
    latest_generated_nonce (outbound_lane_data lane st') = latest_generated_nonce (outbound_lane_data lane st) \<and>
    (\<forall>n p. stored_messages lane st' n = Some p \<longrightarrow> stored_messages lane st n = Some p)"
    by (rule rol.prune_messages_ok[OF wf _ w, of r]) (use assms(3) outbound_inv_received[OF assms(2)] in auto)
  then show "outbound_inv st'" "InboundLanes st' = InboundLanes st"
    using assms(2) outbound_inv_lane[OF assms(2), of lane st'] off_outbound_eqD(3)[of lane st' st] by (auto simp: outbound_inv_def)
  from pr show "latest_received_nonce (outbound_lane_data l st') = latest_received_nonce (outbound_lane_data l st)"
    "latest_generated_nonce (outbound_lane_data l st') = latest_generated_nonce (outbound_lane_data l st)"
    "stored_messages l st' n = Some p \<Longrightarrow> stored_messages l st n = Some p"
    using off_outbound_eqD(6,7)[of lane st' st l] by (cases "l = lane"; simp)+
qed

lemma bridge_on_idle_keeps:
  assumes "runtime_ok cfg" "bridge_inv cfg st" "bridge_on_idle cfg block rem st = Some (w, st')"
  shows "bridge_inv cfg st'"
proof (cases "all_gte rem (db_reads_writes (DbWeight cfg) 1 2)")
  case False
  with assms show ?thesis by (simp add: bridge_on_idle_def)
next
  case True
  with assms(3) obtain lane r spent where p: "prune_messages (RuntimeOutboundLaneStorage lane) (DbWeight cfg) r st = Some (spent, st')"
    by (auto simp: bridge_on_idle_def Let_def split: if_splits bind_splits)
  from assms(2) have "outbound_inv st" by (simp add: bridge_inv_def)
  from bridge_on_idle_nonces(1,2)[OF assms(1) this p] assms(2) show ?thesis by (simp add: bridge_inv_def inbound_lane_data_def)
qed

lemma bridge_step_keeps:
  assumes "runtime_ok cfg" "bridge_inv cfg st" "bridge_step cfg st st'"
  shows "bridge_inv cfg st'"
  using assms(3)
proof cases
  case (step_set_owner origin owner)
  from set_owner_keeps[OF this, of cfg] assms(2) show ?thesis by simp
next
  case (step_set_operating_mode origin mode)
  from set_operating_mode_keeps[OF this, of cfg] assms(2) show ?thesis by simp
next
  case (step_receive_messages_proof origin relayer pf messages_count dispatch_weight w)
  from receive_messages_proof_keeps[OF assms(1,2) this] show ?thesis .
next
  case (step_receive_messages_delivery_proof origin dprf rs w)
  from receive_messages_delivery_proof_keeps[OF assms(1,2) this] show ?thesis .
next
  case (step_send_message lane message args artifacts)
  from step_send_message(1) have "sma_lane_id args = lane"
    by (auto simp: validate_message_def split: sum.splits if_splits)
  with send_message_keeps[OF assms(2) step_send_message(2)] step_send_message(3) show ?thesis by simp
next
  case (step_on_idle block rem w)
  from bridge_on_idle_keeps[OF assms(1,2) this] show ?thesis .
next
  case (step_runtime e)
  with assms(2) bridge_inv_cong[of "st\<lparr>bridge_env := e\<rparr>" st cfg] show ?thesis by simp
qed

lemma bridge_reachable_inv: "runtime_ok cfg \<Longrightarrow> bridge_reachable cfg st \<Longrightarrow> bridge_inv cfg st"
  by (rotate_tac, induction rule: bridge_reachable.induct) (auto intro: bridge_inv_genesis bridge_step_keeps)

section \<open>A concrete runtime\<close>

text \<open>
  A runtime for the examples: the proofs are what they prove, the dispatcher logs the messages it gets, and nobody
  is paid.
\<close>

definition plain_lane :: LaneId where
  "plain_lane = [0, 0, 0, 1]"

definition plain_config :: "(nat, nat, bytes, unit, bytes Decoded list, (LaneId \<times> Message ProvedLaneMessages) list,
    LaneId \<times> nat InboundLaneData, bytes) BridgeConfig" where
  "plain_config = \<lparr>WeightInfo = bridge_weight rocks_db_weight, DbWeight = rocks_db_weight,
     ActiveOutboundLanes = [plain_lane], MaxUnrewardedRelayerEntriesAtInboundLane = 4,
     MaxUnconfirmedMessagesAtInboundLane = 8, MaximalOutboundPayloadSize = 128, relayer_entry_len = 48, nonce_len = 8,
     encode_payload = (\<lambda>p. p), decode_payload = Some, messages_proof_size = (\<lambda>_. 1000), delivery_proof_size = (\<lambda>_. 500),
     verify_message = (\<lambda>_. Inr ()), verify_messages_proof = (\<lambda>p n st. Inr p), verify_messages_delivery_proof = (\<lambda>p st. Inr p),
     dispatch_is_active = (\<lambda>_. True), dispatch_weight_of = (\<lambda>m. (from_parts 1000 0, m)),
     dispatch_message = (\<lambda>m st. (\<lparr>unspent_weight = from_parts 100 0, dispatch_level_result = ()\<rparr>,
       st\<lparr>bridge_env := bridge_env st @ [m]\<rparr>)),
     delivery_pay_reward = (\<lambda>a t v w st. st), confirmation_pay_reward = (\<lambda>l rs a r st. (0, st)),
     on_messages_delivered = (\<lambda>l n st. st)\<rparr>"

lemma plain_config_outbound:
  "outbound_inv (st\<lparr>bridge_env := e\<rparr>) = outbound_inv st"
  by (rule outbound_inv_cong) simp_all

lemma plain_config_ok: "runtime_ok plain_config"
proof -
  have "fits (db_writes rocks_db_weight 1) (db_writes rocks_db_weight 1) weight_MAX"
    by (simp add: fits_def db_writes_def from_parts_def weight_MAX_def rocks_db_weight_def u_arith)
  moreover have "\<not> weight_is_zero (db_writes rocks_db_weight 1)" by code_simp
  ultimately show ?thesis
    by (simp add: runtime_ok_def keeps_inbound_def plain_config_def plain_config_outbound)
qed

lemma plain_config_keeps: "keeps_inbound plain_config"
  using plain_config_ok by (simp add: runtime_ok_def)

definition plain_storage :: "(nat, nat, unit, bytes Decoded list) Messages" where
  "plain_storage = bridge_genesis (Basic Normal) (Some 1) []"

definition plain_message :: "MessageNonce \<Rightarrow> Message" where
  "plain_message n = \<lparr>msg_key = \<lparr>lane_id = plain_lane, nonce = n\<rparr>, msg_payload = [ucast n]\<rparr>"

section \<open>What the pallet promises\<close>

text \<open>C18: in every reachable storage, the data of every inbound lane is well-formed (the unrewarded relayers hold
  consecutive, non-empty ranges of nonces behind the last confirmed one, within the limits on entries and unconfirmed
  messages), and every outbound lane stores exactly the messages from the oldest unpruned nonce to the last generated
  one, of which only received ones were pruned. The handlers of the runtime leave the lanes alone, and a database write
  has a weight.\<close>

theorem bridge_lanes_wf:
  assumes "runtime_ok cfg" "bridge_reachable cfg st"
  shows "inbound_wf (MaxUnrewardedRelayerEntriesAtInboundLane cfg) (MaxUnconfirmedMessagesAtInboundLane cfg) (inbound_lane_data lane st) \<and>
    outbound_wf (outbound_lane_data lane st) (stored_messages lane st)"
  using bridge_reachable_inv[OF assms] by (simp add: bridge_inv_def lane_wf_def outbound_inv_def)

theorem bridge_lanes_wf_witness:
  "outbound_wf (outbound_lane_data plain_lane (snd (send_message \<lparr>sma_lane_id = plain_lane, sma_payload = [7]\<rparr> plain_storage)))
    (stored_messages plain_lane (snd (send_message \<lparr>sma_lane_id = plain_lane, sma_payload = [7]\<rparr> plain_storage)))"
proof -
  let ?st = "snd (send_message \<lparr>sma_lane_id = plain_lane, sma_payload = [7]\<rparr> plain_storage)"
  have "validate_message plain_config plain_lane [7] plain_storage = Inr \<lparr>sma_lane_id = plain_lane, sma_payload = [7]\<rparr>"
    by (simp add: validate_message_def ensure_normal_operating_mode_def plain_config_def plain_storage_def bridge_genesis_def
        genesis_build_def Let_def)
  moreover have "unat (latest_generated_nonce (outbound_lane_data plain_lane plain_storage)) + 2 < 2 ^ 64"
    by (simp add: plain_storage_def bridge_genesis_def genesis_build_def outbound_lane_data_def outbound_default_def)
  ultimately have "bridge_step plain_config plain_storage ?st"
    by (intro step_send_message[OF _ prod.collapse[symmetric]])
  moreover have "bridge_reachable plain_config plain_storage"
    unfolding plain_storage_def by (rule reach_genesis)
  ultimately have "bridge_reachable plain_config ?st" by (metis reach_step)
  from conjunct2[OF bridge_lanes_wf[OF plain_config_ok this]] show ?thesis .
qed

text \<open>C19: a delivery that succeeds dispatches, on every lane of its proof, messages with consecutive nonces right after
  the last delivered one (each message once and in order, whatever else the proof carries), credits the relayer once
  for each of them, leaves the other lanes alone, reports all this in its event, and has an actual weight of at most
  the declared one.\<close>

theorem receive_messages_proof_in_order:
  assumes "keeps_inbound cfg" "\<forall>l. lane_wf cfg (inbound_lane_data l st)"
    and "verify_messages_proof cfg prf n st = Inr ms" "distinct (map fst ms)"
    and "receive_messages_proof cfg origin relayer prf n w st = Inr (w', st')"
  shows "(\<exists>ss. last (bridge_events st') = MessagesReceived ss \<and> map rm_lane ss = map fst ms \<and>
      (\<forall>s \<in> set ss. delivered_on relayer (rm_lane s) st st' (dispatched_nonces s))) \<and>
    (\<forall>l. l \<notin> fst ` set ms \<longrightarrow> inbound_lane_data l st' = inbound_lane_data l st) \<and>
    all_lte w' (receive_messages_proof_weight (WeightInfo cfg) (messages_proof_size cfg prf) n w)"
  by (rule receive_messages_proof_delivered[OF assms(1,2,5,3)]) (use assms(4) inbound_lane_data_cong in blast)

theorem receive_messages_proof_in_order_witness:
  "\<exists>w' st'. receive_messages_proof plain_config (Signed 3) 9 [(plain_lane, \<lparr>lane_state = None,
      lane_messages = [plain_message 1, plain_message 2, plain_message 2]\<rparr>)] 3 (from_parts 5000 0) plain_storage = Inr (w', st') \<and>
    last_delivered_nonce (inbound_lane_data plain_lane st') = 2 \<and>
    (\<exists>ss. last (bridge_events st') = MessagesReceived ss \<and>
      (\<forall>s \<in> set ss. delivered_on 9 (rm_lane s) plain_storage st' (dispatched_nonces s)))"
proof -
  let ?p = "[(plain_lane, \<lparr>lane_state = None, lane_messages = [plain_message 1, plain_message 2, plain_message 2]\<rparr>)]"
  let ?run = "receive_messages_proof plain_config (Signed 3) 9 ?p 3 (from_parts 5000 0) plain_storage"
  have ok: "(case ?run of Inl _ \<Rightarrow> False | Inr (w, st') \<Rightarrow> last_delivered_nonce (inbound_lane_data plain_lane st') = 2)"
    by code_simp
  then obtain w' st' where run: "?run = Inr (w', st')" and last: "last_delivered_nonce (inbound_lane_data plain_lane st') = 2"
    by (auto split: sum.splits)
  have wf: "\<forall>l. lane_wf plain_config (inbound_lane_data l plain_storage)"
    using bridge_inv_genesis[of plain_config "Basic Normal" "Some 1" "[]"] by (simp add: bridge_inv_def plain_storage_def)
  have v: "verify_messages_proof plain_config ?p 3 plain_storage = Inr ?p" by (simp add: plain_config_def)
  from receive_messages_proof_in_order[OF plain_config_keeps wf v _ run] run last show ?thesis by auto
qed

text \<open>The payments and the callback of a confirmation do not write the outbound lanes.\<close>

definition keeps_outbound :: "('a, 'r, 'p, 'd, 'e, 'mp, 'dp, 'o) BridgeConfig \<Rightarrow> bool" where
  "keeps_outbound cfg \<longleftrightarrow>
     (\<forall>l rs a r st. OutboundLanes (snd (confirmation_pay_reward cfg l rs a r st)) = OutboundLanes st \<and>
        OutboundMessages (snd (confirmation_pay_reward cfg l rs a r st)) = OutboundMessages st) \<and>
     (\<forall>l n st. OutboundLanes (on_messages_delivered cfg l n st) = OutboundLanes st \<and>
        OutboundMessages (on_messages_delivered cfg l n st) = OutboundMessages st)"

lemma outbound_data_cong:
  "OutboundLanes st = OutboundLanes st' \<Longrightarrow> outbound_lane_data l st = outbound_lane_data l st'"
  "OutboundMessages st = OutboundMessages st' \<Longrightarrow> stored_messages l st = stored_messages l st'"
  by (simp_all add: outbound_lane_data_def stored_messages_def[abs_def] outbound_message_data_def)

lemma delivery_proof_outbound:
  assumes "keeps_outbound cfg" "receive_messages_delivery_proof cfg origin prf rs st = Inr (w, st')"
    and "verify_messages_delivery_proof cfg prf st = Inr (lane, ld)" "latest_received_nonce (outbound_lane_data lane st) \<noteq> umax"
  shows "outbound_lane_data lane st' = (outbound_lane_data lane st)\<lparr>latest_received_nonce :=
      max (latest_received_nonce (outbound_lane_data lane st)) (last_delivered_nonce ld)\<rparr>"
    and "latest_received_nonce (outbound_lane_data lane st') \<noteq> latest_received_nonce (outbound_lane_data lane st) \<Longrightarrow>
      latest_received_nonce (outbound_lane_data lane st') \<le> latest_generated_nonce (outbound_lane_data lane st)"
    and "stored_messages l st' = stored_messages l st"
    and "l \<noteq> lane \<Longrightarrow> outbound_lane_data l st' = outbound_lane_data l st"
    and "all_lte w (receive_messages_delivery_proof_weight (WeightInfo cfg) (delivery_proof_size cfg prf) rs)"
proof -
  let ?r = "latest_received_nonce (outbound_lane_data lane st)"
  from assms(2) have "outbound_lane_data lane st' = (outbound_lane_data lane st)\<lparr>latest_received_nonce := max ?r (last_delivered_nonce ld)\<rparr> \<and>
    (latest_received_nonce (outbound_lane_data lane st') \<noteq> ?r \<longrightarrow>
      latest_received_nonce (outbound_lane_data lane st') \<le> latest_generated_nonce (outbound_lane_data lane st)) \<and>
    stored_messages l st' = stored_messages l st \<and> (l \<noteq> lane \<longrightarrow> outbound_lane_data l st' = outbound_lane_data l st) \<and>
    all_lte w (receive_messages_delivery_proof_weight (WeightInfo cfg) (delivery_proof_size cfg prf) rs)"
  proof (cases rule: receive_messages_delivery_proof_run)
    case (1 a lane' ld' c st1 rs' st2)
    with assms(3) have eq: "lane' = lane" "ld' = ld" by auto
    have hooks: "OutboundLanes st' = OutboundLanes st1" "OutboundMessages st' = OutboundMessages st1"
      using assms(1) 1(6,7,11) by (cases c; simp add: keeps_outbound_def bridge_deposit_event_def)+
    have weight: "all_lte w (receive_messages_delivery_proof_weight (WeightInfo cfg) (delivery_proof_size cfg prf) rs)"
      unfolding 1(10) by (rule receive_messages_delivery_proof_weight_mono[OF 1(8,9)])
    note data = outbound_data_cong(1)[OF hooks(1)] outbound_data_cong(2)[OF hooks(2)]
    have same: "d\<lparr>latest_received_nonce := max (latest_received_nonce d) x\<rparr> = d" if "x \<le> latest_received_nonce d" for d x
      using that by (cases d) (simp add: max_absorb1)
    have frame: "off_outbound lane st1 = off_outbound lane st \<and> stored_messages lane st1 = stored_messages lane st \<and>
        outbound_lane_data lane st1 = (outbound_lane_data lane st)\<lparr>latest_received_nonce := max ?r (last_delivered_nonce ld)\<rparr> \<and>
        (?r < last_delivered_nonce ld \<longrightarrow> last_delivered_nonce ld \<le> latest_generated_nonce (outbound_lane_data lane st))"
      using 1(5)[unfolded eq]
      by (cases rule: rol.confirm_delivery_cases) (use assms(4) same in \<open>auto simp flip: runtime_out_data simp: max_absorb2\<close>)
    have "stored_messages l st1 = stored_messages l st" "l \<noteq> lane \<longrightarrow> outbound_lane_data l st1 = outbound_lane_data l st"
      using frame off_outbound_eqD(6,7)[of lane st1 st l] by (cases "l = lane"; auto)+
    with frame weight show ?thesis
      by (auto simp: data max_def not_le split: if_splits)
  qed
  then show "outbound_lane_data lane st' = (outbound_lane_data lane st)\<lparr>latest_received_nonce := max ?r (last_delivered_nonce ld)\<rparr>"
    and "latest_received_nonce (outbound_lane_data lane st') \<noteq> ?r \<Longrightarrow>
      latest_received_nonce (outbound_lane_data lane st') \<le> latest_generated_nonce (outbound_lane_data lane st)"
    and "stored_messages l st' = stored_messages l st"
    and "l \<noteq> lane \<Longrightarrow> outbound_lane_data l st' = outbound_lane_data l st"
    and "all_lte w (receive_messages_delivery_proof_weight (WeightInfo cfg) (delivery_proof_size cfg prf) rs)"
    by blast+
qed

text \<open>C35: a confirmation that succeeds raises the latest received nonce of the lane to the last delivered nonce the
  proof shows, never beyond the last generated nonce and never down; it changes no other lane and removes no message,
  and its actual weight is at most the declared one.\<close>

theorem delivery_proof_confirms:
  assumes "keeps_outbound cfg" "verify_messages_delivery_proof cfg prf st = Inr (lane, ld)"
    and "latest_received_nonce (outbound_lane_data lane st) \<noteq> umax"
    and "receive_messages_delivery_proof cfg origin prf rs st = Inr (w, st')"
  shows "outbound_lane_data lane st' = (outbound_lane_data lane st)\<lparr>latest_received_nonce :=
      max (latest_received_nonce (outbound_lane_data lane st)) (last_delivered_nonce ld)\<rparr> \<and>
    (latest_received_nonce (outbound_lane_data lane st) < last_delivered_nonce ld \<longrightarrow>
      last_delivered_nonce ld \<le> latest_generated_nonce (outbound_lane_data lane st)) \<and>
    (\<forall>l. stored_messages l st' = stored_messages l st \<and> (l \<noteq> lane \<longrightarrow> outbound_lane_data l st' = outbound_lane_data l st)) \<and>
    all_lte w (receive_messages_delivery_proof_weight (WeightInfo cfg) (delivery_proof_size cfg prf) rs)"
  using delivery_proof_outbound[OF assms(1,4,2,3)] by (auto simp: max_absorb2 max_def not_le split: if_splits)

text \<open>Two messages are sent, and the proof shows both delivered by relayer 9.\<close>

definition plain_sent :: "(nat, nat, unit, bytes Decoded list) Messages" where
  "plain_sent = snd (send_message \<lparr>sma_lane_id = plain_lane, sma_payload = [8]\<rparr>
     (snd (send_message \<lparr>sma_lane_id = plain_lane, sma_payload = [7]\<rparr> plain_storage)))"

definition plain_delivered :: "nat InboundLaneData" where
  "plain_delivered = \<lparr>relayers = [\<lparr>ur_relayer = 9, ur_messages = \<lparr>dm_begin = 1, dm_end = 2\<rparr>\<rparr>], last_confirmed_nonce = 0\<rparr>"

theorem delivery_proof_confirms_witness:
  "\<exists>w st'. receive_messages_delivery_proof plain_config (Signed 3) (plain_lane, plain_delivered) (relayers_state_of plain_delivered) plain_sent = Inr (w, st') \<and>
    latest_received_nonce (outbound_lane_data plain_lane st') = 2"
proof -
  let ?run = "receive_messages_delivery_proof plain_config (Signed 3) (plain_lane, plain_delivered) (relayers_state_of plain_delivered) plain_sent"
  have "(case ?run of Inl _ \<Rightarrow> False | Inr _ \<Rightarrow> True)" by code_simp
  then obtain w st' where run: "?run = Inr (w, st')" by (auto split: sum.splits)
  have k: "keeps_outbound plain_config" by (simp add: keeps_outbound_def plain_config_def)
  have v: "verify_messages_delivery_proof plain_config (plain_lane, plain_delivered) plain_sent = Inr (plain_lane, plain_delivered)"
    by (simp add: plain_config_def)
  have r: "latest_received_nonce (outbound_lane_data plain_lane plain_sent) = 0" "last_delivered_nonce plain_delivered = 2"
    by code_simp+
  then have "latest_received_nonce (outbound_lane_data plain_lane plain_sent) \<noteq> umax" by (simp add: u_arith)
  from conjunct1[OF delivery_proof_confirms[OF k v this run]] r run show ?thesis by (simp add: max_def)
qed

text \<open>C37: the hook panics exactly when no lane is active and the weight is enough for one read and two writes, by the
  division by the number of lanes; otherwise it returns (its loop ends), with a weight of at most what remained. It
  prunes messages whose delivery is confirmed and no others, keeps the outbound lanes well-formed, and, given the
  weight for one read and two writes, prunes at least one message of the lane whose turn it is, if there is one to
  prune. The runtime has fewer than \<open>2\<^sup>3\<^sup>2\<close> lanes, a database write has a weight, and that of a read and two writes
  fits 64 bits.\<close>

theorem on_idle_prunes_received:
  assumes "runtime_ok cfg" "outbound_inv st" "length (ActiveOutboundLanes cfg) < 2 ^ 32"
    and "unat (db_read (DbWeight cfg)) + 2 * unat (db_write (DbWeight cfg)) < 2 ^ 64"
  shows "(bridge_on_idle cfg block rem st = None \<longleftrightarrow>
      ActiveOutboundLanes cfg = [] \<and> all_gte rem (db_reads_writes (DbWeight cfg) 1 2)) \<and>
    (\<forall>w st'. bridge_on_idle cfg block rem st = Some (w, st') \<longrightarrow> all_lte w rem \<and> outbound_inv st' \<and>
      (\<forall>l. latest_received_nonce (outbound_lane_data l st') = latest_received_nonce (outbound_lane_data l st) \<and>
         latest_generated_nonce (outbound_lane_data l st') = latest_generated_nonce (outbound_lane_data l st) \<and>
         (\<forall>n. latest_received_nonce (outbound_lane_data l st) < n \<longrightarrow> stored_messages l st' n = stored_messages l st n)) \<and>
      (let l = ActiveOutboundLanes cfg ! (block mod length (ActiveOutboundLanes cfg))
       in all_gte rem (db_reads_writes (DbWeight cfg) 1 2) \<longrightarrow>
          oldest_unpruned_nonce (outbound_lane_data l st) \<le> latest_received_nonce (outbound_lane_data l st) \<longrightarrow>
          oldest_unpruned_nonce (outbound_lane_data l st) < oldest_unpruned_nonce (outbound_lane_data l st')))"
proof (cases "ActiveOutboundLanes cfg = []")
  case True
  then show ?thesis using assms(2) by (auto simp: bridge_on_idle_def all_lte_def word_le_nat_alt weight_zero_def)
next
  case False
  show ?thesis
    by (rule bridge_on_idle_returns[OF assms(1,2) _ assms(3,4), of block rem]) (use False in \<open>simp_all add: Let_def\<close>)
qed

definition plain_received :: "(nat, nat, unit, bytes Decoded list) Messages" where
  "plain_received = plain_storage\<lparr>OutboundLanes := [plain_lane \<mapsto> \<lparr>oldest_unpruned_nonce = 1, latest_received_nonce = 1, latest_generated_nonce = 1\<rparr>],
     OutboundMessages := [\<lparr>lane_id = plain_lane, nonce = 1\<rparr> \<mapsto> [7]]\<rparr>"

lemma plain_received_data:
  "outbound_lane_data l plain_received = (if l = plain_lane
     then \<lparr>oldest_unpruned_nonce = 1, latest_received_nonce = 1, latest_generated_nonce = 1\<rparr> else outbound_default)"
  "stored_messages l plain_received = (if l = plain_lane then [1 \<mapsto> [7]] else Map.empty)"
  by (auto simp: plain_received_def plain_storage_def outbound_lane_data_def stored_messages_def outbound_message_data_def fun_eq_iff)

lemma plain_received_inv: "outbound_inv plain_received"
  by (auto simp: outbound_inv_def plain_received_data outbound_wf_def outbound_default_def u_order u_arith)

theorem on_idle_prunes_received_witness:
  "\<exists>w st'. bridge_on_idle plain_config 5 weight_MAX plain_received = Some (w, st') \<and> all_lte w weight_MAX \<and>
    1 < oldest_unpruned_nonce (outbound_lane_data plain_lane st') \<and> stored_messages plain_lane st' 1 = None"
proof -
  have l: "ActiveOutboundLanes plain_config = [plain_lane]" by (simp add: plain_config_def)
  have "unat (db_read (DbWeight plain_config)) + 2 * unat (db_write (DbWeight plain_config)) < 2 ^ 64"
    by (simp add: plain_config_def rocks_db_weight_def)
  note T = on_idle_prunes_received[OF plain_config_ok plain_received_inv _ this, of 5 weight_MAX]
  obtain w st' where run: "bridge_on_idle plain_config 5 weight_MAX plain_received = Some (w, st')"
    using T by (auto simp: l)
  have "all_gte weight_MAX (db_reads_writes (DbWeight plain_config) 1 2)" by code_simp
  with T run have "all_lte w weight_MAX" "outbound_inv st'" and o: "1 < oldest_unpruned_nonce (outbound_lane_data plain_lane st')"
    by (auto simp: l Let_def plain_received_data)
  then have "1 \<notin> dom (stored_messages plain_lane st')"
    unfolding outbound_inv_def outbound_wf_def by (metis (mono_tags, lifting) leD mem_Collect_eq)
  with run \<open>all_lte w weight_MAX\<close> o show ?thesis by (auto simp: domIff)
qed

text \<open>C38: pruning with a database write of weight zero removes the received messages but does not save the lane data:
  the lane still counts the removed messages as unpruned.\<close>

theorem prune_without_weight_forgets:
  assumes "outbound_wf (outbound_lane_data lane st) (stored_messages lane st)"
    and "latest_received_nonce (outbound_lane_data lane st) \<noteq> umax" "db_write db = 0"
    and "oldest_unpruned_nonce (outbound_lane_data lane st) \<le> latest_received_nonce (outbound_lane_data lane st)"
  shows "\<exists>st'. prune_messages (RuntimeOutboundLaneStorage lane) db rem st = Some (weight_zero, st') \<and>
    outbound_lane_data lane st' = outbound_lane_data lane st \<and>
    stored_messages lane st' (oldest_unpruned_nonce (outbound_lane_data lane st')) = None \<and>
    \<not> outbound_wf (outbound_lane_data lane st') (stored_messages lane st')"
proof -
  let ?d = "outbound_lane_data lane st"
  have w: "db_writes db 1 = weight_zero"
    by (simp add: db_writes_def assms(3) from_parts_def weight_zero_def saturating_mul_def)
  have zero: "weight_mul weight_zero x = weight_zero" "weight_add weight_zero weight_zero = weight_zero" "weight_sub r weight_zero = r" for x r
    by (simp_all add: weight_mul_def weight_add_def weight_sub_def weight_zero_def)
  obtain k st' where k: "prune_loop (RuntimeOutboundLaneStorage lane) weight_zero rem weight_zero ?d st =
      Some (weight_zero, ?d\<lparr>oldest_unpruned_nonce := oldest_unpruned_nonce ?d + of_nat k\<rparr>, st')"
    "k < Suc (unat (latest_received_nonce ?d)) - unat (oldest_unpruned_nonce ?d) \<Longrightarrow> \<not> all_gte rem weight_zero"
    "outbound_lane_data lane st' = ?d"
    "stored_messages lane st' = (\<lambda>n. if oldest_unpruned_nonce ?d \<le> n \<and> unat n < unat (oldest_unpruned_nonce ?d) + k then None else stored_messages lane st n)"
    using rol.prune_loop_returns[of ?d lane weight_zero rem weight_zero st thesis] assms(2) unfolding zero runtime_out_data by blast
  have "0 < k" using k(2) assms(4) by (cases k) (auto simp: all_gte_iff word_le_nat_alt)
  then have "stored_messages lane st' (oldest_unpruned_nonce ?d) = None" by (simp add: k(4))
  moreover from this have "oldest_unpruned_nonce ?d \<notin> dom (stored_messages lane st')" by blast
  with assms(1,4) have "\<not> outbound_wf ?d (stored_messages lane st')"
    by (simp add: outbound_wf_def) (metis (mono_tags, lifting) mem_Collect_eq order_refl order_trans)
  moreover have "prune_messages (RuntimeOutboundLaneStorage lane) db rem st = Some (weight_zero, st')"
    by (simp add: prune_messages_def Let_def w k(1) weight_is_zero_def)
  ultimately show ?thesis using k(3) by auto
qed

theorem prune_without_weight_forgets_witness:
  "\<exists>st'. prune_messages (RuntimeOutboundLaneStorage plain_lane) \<lparr>db_read = 0, db_write = 0\<rparr> weight_MAX plain_received = Some (weight_zero, st') \<and>
    oldest_unpruned_nonce (outbound_lane_data plain_lane st') = 1 \<and> stored_messages plain_lane st' 1 = None"
proof -
  note d = plain_received_data[of plain_lane, simplified]
  have "outbound_wf (outbound_lane_data plain_lane plain_received) (stored_messages plain_lane plain_received)"
    by (auto simp: d outbound_wf_def u_order)
  from prune_without_weight_forgets[OF this, of "\<lparr>db_read = 0, db_write = 0\<rparr>" weight_MAX] show ?thesis
    by (auto simp: d u_arith)
qed

text \<open>C36: the rewards of a confirmation count the messages each relayer delivered. Of the queue of deliverers behind
  the last confirmed nonce \<open>c\<close>, a relayer is rewarded for its occurrences among the nonces from \<open>s\<close> to \<open>f\<close>, and nobody
  else is in the rewards.\<close>

theorem rewards_count_deliveries:
  assumes "consecutive c rs" "0 < s"
  shows "reward_of (calc_relayers_rewards rs s f) r = count_list (window (unat s) (unat f) (unat c) (deliverers rs)) r \<and>
    dom (bt_get (calc_relayers_rewards rs s f)) = set (window (unat s) (unat f) (unat c) (deliverers rs))"
  using calc_relayers_rewards_counts[OF assms] by blast

theorem rewards_count_deliveries_witness:
  "reward_of (calc_relayers_rewards [\<lparr>ur_relayer = 5, ur_messages = \<lparr>dm_begin = 3, dm_end = 6\<rparr>\<rparr>,
      \<lparr>ur_relayer = (4 :: nat), ur_messages = \<lparr>dm_begin = 7, dm_end = 7\<rparr>\<rparr>] 5 7) 5 = 2"
proof -
  let ?rs = "[\<lparr>ur_relayer = 5, ur_messages = \<lparr>dm_begin = 3, dm_end = 6\<rparr>\<rparr>, \<lparr>ur_relayer = (4 :: nat), ur_messages = \<lparr>dm_begin = 7, dm_end = 7\<rparr>\<rparr>]"
  have "consecutive 2 ?rs" "(0 :: u64) < 5" by (simp_all add: u_order)
  moreover have "count_list (window (unat (5 :: u64)) (unat (7 :: u64)) (unat (2 :: u64)) (deliverers ?rs)) 5 = 2" by code_simp
  ultimately show ?thesis using rewards_count_deliveries[of 2 ?rs 5 7 5] by metis
qed

text \<open>While the pallet is halted, no proof is accepted and no message is sent: the only steps are those of the
  owner or root, of the rest of the runtime, and pruning. The inbound lanes and the nonces of the outbound lanes stay.\<close>

theorem halted_bridge_stands_still:
  assumes "runtime_ok cfg" "outbound_inv st" "is_halted st" "bridge_step cfg st st'"
  shows "InboundLanes st' = InboundLanes st \<and>
    (\<forall>l. latest_received_nonce (outbound_lane_data l st') = latest_received_nonce (outbound_lane_data l st) \<and>
       latest_generated_nonce (outbound_lane_data l st') = latest_generated_nonce (outbound_lane_data l st))"
  using assms(4)
proof cases
  case (step_send_message lane message args artifacts)
  then show ?thesis using assms(3)
    by (auto simp: validate_message_def ensure_normal_operating_mode_def is_halted_def basic_is_halted_def split: sum.splits if_splits)
next
  case (step_on_idle block rem w)
  show ?thesis
  proof (cases "all_gte rem (db_reads_writes (DbWeight cfg) 1 2)")
    case False
    with step_on_idle show ?thesis by (simp add: bridge_on_idle_def)
  next
    case True
    from step_on_idle True obtain lane r spent where p: "prune_messages (RuntimeOutboundLaneStorage lane) (DbWeight cfg) r st = Some (spent, st')"
      by (auto simp: bridge_on_idle_def Let_def split: if_splits bind_splits)
    from bridge_on_idle_nonces[OF assms(1,2) p] show ?thesis by blast
  qed
qed (use assms(3) in \<open>auto simp: set_owner_def set_operating_mode_def receive_messages_proof_def receive_messages_delivery_proof_def
    ensure_not_halted_def outbound_lane_data_def split: sum.splits option.splits\<close>)

theorem halted_bridge_stands_still_witness:
  "InboundLanes (plain_storage\<lparr>PalletOperatingMode := Basic Halted, bridge_env := []\<rparr>) = InboundLanes plain_storage"
proof -
  let ?st = "plain_storage\<lparr>PalletOperatingMode := Basic Halted\<rparr>"
  have "outbound_inv plain_storage"
    using bridge_inv_genesis[of plain_config "Basic Normal" "Some 1" "[]"] by (simp add: bridge_inv_def plain_storage_def)
  then have "outbound_inv ?st" by (subst outbound_inv_cong[of _ plain_storage]) simp_all
  moreover have "is_halted ?st" by (simp add: is_halted_def basic_is_halted_def)
  moreover have "bridge_step plain_config ?st (?st\<lparr>bridge_env := []\<rparr>)" by (rule step_runtime)
  ultimately show ?thesis using halted_bridge_stands_still[OF plain_config_ok] by fastforce
qed

end
