(* ===== verification/Bridge_Protocol.thy ===== *)
theory Bridge_Protocol
  imports Bridge_Steps
begin

text \<open>
  Two chains and one lane from the source to the target, joined by relayers. A proof that a chain verifies shows a
  past storage of the other chain, so relayers may deliver late, repeatedly and in any order. The target's dispatcher
  logs the messages it gets (\<open>bridge_env\<close>), and \<open>sent\<close> lists the payloads the source accepted on the lane.
\<close>

section \<open>The system\<close>

record ('a, 'b, 'r, 'd, 'c, 'e, 'p) TwoChains =
  source :: "('a, 'r, 'd, 'e) Messages"
  source_past :: "('a, 'r, 'd, 'e) Messages list"
  target :: "('b, 'a, 'c, 'p Decoded list) Messages"
  target_past :: "('b, 'a, 'c, 'p Decoded list) Messages list"
  sent :: "bytes list"

definition set_source :: "('a, 'r, 'd, 'e) Messages \<Rightarrow> ('a, 'b, 'r, 'd, 'c, 'e, 'p) TwoChains \<Rightarrow> ('a, 'b, 'r, 'd, 'c, 'e, 'p) TwoChains" where
  "set_source st c = c\<lparr>source := st, source_past := st # source_past c\<rparr>"

definition set_target :: "('b, 'a, 'c, 'p Decoded list) Messages \<Rightarrow> ('a, 'b, 'r, 'd, 'c, 'e, 'p) TwoChains \<Rightarrow> ('a, 'b, 'r, 'd, 'c, 'e, 'p) TwoChains" where
  "set_target st c = c\<lparr>target := st, target_past := st # target_past c\<rparr>"

text \<open>What a proof may show of a past storage of the source.\<close>

definition proved_from :: "LaneId \<Rightarrow> ('a, 'r, 'd, 'e) Messages \<Rightarrow> Message ProvedLaneMessages \<Rightarrow> bool" where
  "proved_from lane st ld \<longleftrightarrow> (\<forall>ob. lane_state ld = Some ob \<longrightarrow> ob = outbound_lane_data lane st) \<and>
     (\<forall>m \<in> set (lane_messages ld). stored_messages lane st (nonce (msg_key m)) = Some (msg_payload m))"

inductive relay :: "('a, 'r, 'q, 'd, 'e, 'mq, 'dq, 'o) BridgeConfig \<Rightarrow> ('b, 'a, 'p, 'c, 'p Decoded list, 'mp, 'dp, 'i) BridgeConfig \<Rightarrow> LaneId \<Rightarrow>
    ('a, 'b, 'r, 'd, 'c, 'e, 'p) TwoChains \<Rightarrow> ('a, 'b, 'r, 'd, 'c, 'e, 'p) TwoChains \<Rightarrow> bool"
  for S :: "('a, 'r, 'q, 'd, 'e, 'mq, 'dq, 'o) BridgeConfig" and T :: "('b, 'a, 'p, 'c, 'p Decoded list, 'mp, 'dp, 'i) BridgeConfig"
    and lane :: LaneId where
  relay_send: "validate_message S lane message (source c) = Inr args \<Longrightarrow> send_message args (source c) = (artifacts, st) \<Longrightarrow>
    unat (latest_generated_nonce (outbound_lane_data lane (source c))) + 2 < 2 ^ 64 \<Longrightarrow>
    relay S T lane c ((set_source st c)\<lparr>sent := sent c @ [sma_payload args]\<rparr>)"
| relay_prune: "bridge_on_idle S block_number remaining_weight (source c) = Some (w, st) \<Longrightarrow> relay S T lane c (set_source st c)"
| relay_deliver: "receive_messages_proof T origin relayer prf messages_count dispatch_weight (target c) = Inr (w, st) \<Longrightarrow>
    verify_messages_proof T prf messages_count (target c) = Inr ms \<Longrightarrow>
    \<forall>(l, ld) \<in> set ms. \<exists>past \<in> set (source_past c). proved_from l past ld \<Longrightarrow> relay S T lane c (set_target st c)"
| relay_confirm: "receive_messages_delivery_proof S origin dprf rs (source c) = Inr (w, st) \<Longrightarrow>
    verify_messages_delivery_proof S dprf (source c) = Inr (l, inbound_lane_data l past) \<Longrightarrow>
    past \<in> set (target_past c) \<Longrightarrow> relay S T lane c (set_source st c)"
| relay_source: "OutboundLanes st = OutboundLanes (source c) \<Longrightarrow> OutboundMessages st = OutboundMessages (source c) \<Longrightarrow>
    relay S T lane c (set_source st c)"
| relay_target: "InboundLanes st = InboundLanes (target c) \<Longrightarrow> bridge_env st = bridge_env (target c) \<Longrightarrow>
    relay S T lane c (set_target st c)"

definition relay_start :: "MessagesOperatingMode \<Rightarrow> MessagesOperatingMode \<Rightarrow> 'e \<Rightarrow> ('a, 'b, 'r, 'd, 'c, 'e, 'p) TwoChains" where
  "relay_start m1 m2 e = (let s = bridge_genesis m1 None e; t = bridge_genesis m2 None []
     in \<lparr>source = s, source_past = [s], target = t, target_past = [t], sent = []\<rparr>)"

inductive relay_reachable :: "('a, 'r, 'q, 'd, 'e, 'mq, 'dq, 'o) BridgeConfig \<Rightarrow> ('b, 'a, 'p, 'c, 'p Decoded list, 'mp, 'dp, 'i) BridgeConfig \<Rightarrow> LaneId \<Rightarrow>
    ('a, 'b, 'r, 'd, 'c, 'e, 'p) TwoChains \<Rightarrow> bool"
  for S :: "('a, 'r, 'q, 'd, 'e, 'mq, 'dq, 'o) BridgeConfig" and T :: "('b, 'a, 'p, 'c, 'p Decoded list, 'mp, 'dp, 'i) BridgeConfig"
    and lane :: LaneId where
  relay_reach_start: "relay_reachable S T lane (relay_start m1 m2 e)"
| relay_reach_step: "relay_reachable S T lane c \<Longrightarrow> relay S T lane c c' \<Longrightarrow> relay_reachable S T lane c'"

text \<open>What the runtimes provide: the source's are \<open>runtime_ok\<close>; the target's dispatcher logs.\<close>

definition source_ok :: "('a, 'r, 'q, 'd, 'e, 'mq, 'dq, 'o) BridgeConfig \<Rightarrow> bool" where
  "source_ok S \<longleftrightarrow> runtime_ok S \<and> keeps_outbound S"

definition target_ok :: "('b, 'a, 'p, 'c, 'p Decoded list, 'mp, 'dp, 'i) BridgeConfig \<Rightarrow> bool" where
  "target_ok T \<longleftrightarrow> keeps_inbound T \<and> (\<forall>m st. bridge_env (snd (dispatch_message T m st)) = bridge_env st @ [m]) \<and>
     (\<forall>m. snd (dispatch_weight_of T m) = m) \<and>
     (\<forall>a t v w st. bridge_env (delivery_pay_reward T a t v w st) = bridge_env st)"

section \<open>The log of a delivery\<close>

lemma receive_lane_messages_log:
  assumes "target_ok T" "coherent lane s" "receive_lane_messages T relayer lane ms (dl, status, s) = Inr (dl', status', s')"
  obtains new where "bridge_env (snd s') = bridge_env (snd s) @ new"
    "dispatched_nonces status' = dispatched_nonces status @ map (\<lambda>m. nonce (dsp_key m)) new"
    "\<And>m. m \<in> set new \<Longrightarrow> lane_id (dsp_key m) = lane \<and> (\<exists>m0 \<in> set ms. nonce (dsp_key m0) = nonce (dsp_key m) \<and> dsp_payload m0 = dsp_payload m)"
  using assms(2,3)
proof (induction ms arbitrary: dl status s thesis)
  case Nil
  then show ?case by (auto intro: Nil(1)[of "[]"])
next
  case (Cons m ms)
  from Cons.prems(3) obtain dl1 status1 s1 where one: "receive_one T relayer lane m (dl, status, s) = Inr (dl1, status1, s1)"
    and rest: "receive_lane_messages T relayer lane ms (dl1, status1, s1) = Inr (dl', status', s')"
    by (auto split: sum.splits)
  from assms(1) have keeps: "keeps_inbound T" and logs: "\<And>m st. bridge_env (snd (dispatch_message T m st)) = bridge_env st @ [m]"
    by (auto simp: target_ok_def)
  obtain w m' where wm: "dispatch_weight_of T m = (w, m')" by (rule prod.exhaust)
  from assms(1) have "snd (dispatch_weight_of T m) = m" by (simp add: target_ok_def)
  with wm have m': "m' = m" by simp
  obtain new1 where new1: "coherent lane s1" "bridge_env (snd s1) = bridge_env (snd s) @ new1"
    "dispatched_nonces status1 = dispatched_nonces status @ map (\<lambda>m. nonce (dsp_key m)) new1"
    "\<And>x. x \<in> set new1 \<Longrightarrow> lane_id (dsp_key x) = lane \<and> nonce (dsp_key m) = nonce (dsp_key x) \<and> dsp_payload m = dsp_payload x"
    using keeps Cons.prems(2) one wm
  proof (cases rule: receive_one_cases)
    case (rejected e)
    show thesis
      by (rule that[of "[]"]) (use rejected(4,5,7) off_lane_eqD(5)[OF rejected(3)] in \<open>auto simp: dispatched_nonces_def push_received_def\<close>)
  next
    case (dispatched s2 r s3)
    let ?x = "\<lparr>dsp_key = \<lparr>lane_id = lane, nonce = nonce (dsp_key m')\<rparr>, dsp_payload = dsp_payload m'\<rparr>"
    have "bridge_env (snd s3) = bridge_env (snd s2) @ [?x]"
      using dispatched(4) logs[of ?x "snd s2"] by (auto simp: lane_dispatch_def split: prod.splits)
    then have "bridge_env (snd s1) = bridge_env (snd s) @ [?x]"
      using off_lane_eqD(5)[OF dispatched(2)] off_lane_eqD(5)[OF dispatched(6)] by simp
    with dispatched(3) show thesis
      by (rule that[of "[?x]"]) (simp_all add: dispatched(7) dispatched_nonces_def push_received_def m')
  qed
  obtain new2 where new2: "bridge_env (snd s') = bridge_env (snd s1) @ new2"
    "dispatched_nonces status' = dispatched_nonces status1 @ map (\<lambda>m. nonce (dsp_key m)) new2"
    "\<And>m. m \<in> set new2 \<Longrightarrow> lane_id (dsp_key m) = lane \<and> (\<exists>m0 \<in> set ms. nonce (dsp_key m0) = nonce (dsp_key m) \<and> dsp_payload m0 = dsp_payload m)"
    using Cons.IH[OF _ new1(1) rest] by blast
  show ?case
  proof (rule Cons.prems(1)[of "new1 @ new2"])
    fix x
    assume "x \<in> set (new1 @ new2)"
    then show "lane_id (dsp_key x) = lane \<and> (\<exists>m0 \<in> set (m # ms). nonce (dsp_key m0) = nonce (dsp_key x) \<and> dsp_payload m0 = dsp_payload x)"
      using new1(4)[of x] new2(3)[of x] by auto
  qed (use new1 new2 in simp_all)
qed

text \<open>On one lane: the new log entries carry the newly delivered nonces, in order.\<close>

lemma receive_lane_log:
  assumes "target_ok T" "lane_wf T (inbound_lane_data lane st)" "receive_lane T relayer lane ld (dl, st) = Inr (dl', st')"
  obtains new where "bridge_env st' = bridge_env st @ new"
    "map (\<lambda>m. unat (nonce (dsp_key m))) new =
       [Suc (unat (last_delivered_nonce (inbound_lane_data lane st)))..<Suc (unat (last_delivered_nonce (inbound_lane_data lane st')))]"
    "\<And>m. m \<in> set new \<Longrightarrow> lane_id (dsp_key m) = lane \<and>
       (\<exists>m0 \<in> set (lane_messages ld). nonce (dsp_key m0) = nonce (dsp_key m) \<and> dsp_payload m0 = dsp_payload m)"
proof -
  have keeps: "keeps_inbound T" using assms(1) by (simp add: target_ok_def)
  obtain x s0 where x: "extra_proof_size_bytes T lane (None, st) = (x, s0)" by (rule prod.exhaust)
  note s0 = extra_proof_size_bytes_keeps[OF x]
  define s1 where "s1 = (case lane_state ld of Some ob \<Rightarrow> snd (receive_state_update (RuntimeInboundLaneStorage T lane) ob s0) | None \<Rightarrow> s0)"
  note s1 = lane_state_update(1,2)[OF s0(1), of T "lane_state ld", folded s1_def]
  from assms(3) obtain dl0 dl2 status s2 where
    run: "receive_lane_messages T relayer lane (lane_messages ld) (dl0, \<lparr>rm_lane = lane, receive_results = []\<rparr>, s1) = Inr (dl2, status, s2)"
    and st': "st' = snd s2" and dl': "dl' = dl2\<lparr>dl_status := dl_status dl2 @ [status]\<rparr>"
    by (auto simp: receive_lane_def x Let_def s1_def[symmetric] split: sum.splits prod.splits)
  obtain new where new: "bridge_env (snd s2) = bridge_env (snd s1) @ new"
    "dispatched_nonces status = map (\<lambda>m. nonce (dsp_key m)) new"
    "\<And>m. m \<in> set new \<Longrightarrow> lane_id (dsp_key m) = lane \<and>
       (\<exists>m0 \<in> set (lane_messages ld). nonce (dsp_key m0) = nonce (dsp_key m) \<and> dsp_payload m0 = dsp_payload m)"
    using receive_lane_messages_log[OF assms(1) s1(1) run] by (auto simp: dispatched_nonces_def)
  have "map unat (dispatched_nonces status) =
      [Suc (unat (last_delivered_nonce (inbound_lane_data lane st)))..<Suc (unat (last_delivered_nonce (inbound_lane_data lane st')))]"
    by (rule receive_lane_lane[OF keeps assms(2,3)]) (simp add: dl')
  with new show thesis
    by (intro that[of new]) (simp_all add: st' off_lane_eqD(5)[OF s1(2)] s0(2) comp_def)
qed

definition on_lane :: "LaneId \<Rightarrow> 'p Decoded \<Rightarrow> bool" where
  "on_lane lane m \<longleftrightarrow> lane_id (dsp_key m) = lane"

text \<open>What a delivery does to the lane that is looked at.\<close>

definition lane_progress :: "LaneId \<Rightarrow> (LaneId \<times> 'p Decoded ProvedLaneMessages) list \<Rightarrow>
    ('b, 'a, 'c, 'p Decoded list) Messages \<Rightarrow> ('b, 'a, 'c, 'p Decoded list) Messages \<Rightarrow> 'p Decoded list \<Rightarrow> bool" where
  "lane_progress lane ms st st' new \<longleftrightarrow>
     (let d = inbound_lane_data lane st; d' = inbound_lane_data lane st'
      in filter (on_lane lane) (bridge_env st') = filter (on_lane lane) (bridge_env st) @ new \<and>
         map (\<lambda>m. unat (nonce (dsp_key m))) new = [Suc (unat (last_delivered_nonce d))..<Suc (unat (last_delivered_nonce d'))] \<and>
         last_delivered_nonce d \<le> last_delivered_nonce d' \<and> last_confirmed_nonce d \<le> last_confirmed_nonce d' \<and>
         (\<forall>m \<in> set new. lane_id (dsp_key m) = lane \<and> (\<exists>ld. (lane, ld) \<in> set ms \<and>
            (\<exists>m0 \<in> set (lane_messages ld). nonce (dsp_key m0) = nonce (dsp_key m) \<and> dsp_payload m0 = dsp_payload m))) \<and>
         (last_confirmed_nonce d' = last_confirmed_nonce d \<or>
           (\<exists>ld ob. (lane, ld) \<in> set ms \<and> lane_state ld = Some ob \<and> last_confirmed_nonce d' = latest_received_nonce ob)))"

lemma lane_progress_refl: "lane_progress lane ms st st []"
  by (simp add: lane_progress_def)

lemma lane_progress_trans:
  assumes "lane_progress lane ms st st1 new1" "lane_progress lane ms st1 st2 new2"
  shows "lane_progress lane ms st st2 (new1 @ new2)"
proof -
  let ?l = "\<lambda>st. unat (last_delivered_nonce (inbound_lane_data lane st))"
  from assms have "[Suc (?l st)..<Suc (?l st1)] @ [Suc (?l st1)..<Suc (?l st2)] = [Suc (?l st)..<Suc (?l st2)]"
    by (intro upt_append) (auto simp: lane_progress_def Let_def word_le_nat_alt)
  with assms show ?thesis
    by (simp only: lane_progress_def Let_def map_append append_assoc set_append) (auto intro: order_trans)
qed

lemma lane_progress_mono: "lane_progress lane ms st st' new \<Longrightarrow> set ms \<subseteq> set ms' \<Longrightarrow> lane_progress lane ms' st st' new"
  unfolding lane_progress_def Let_def by (elim conjE, intro conjI) (assumption | blast)+

lemma receive_lane_progress:
  assumes "target_ok T" "\<forall>l. lane_wf T (inbound_lane_data l st)" "receive_lane T relayer l ld (dl, st) = Inr (dl', st')"
  obtains new where "lane_progress lane [(l, ld)] st st' new" "\<forall>l. lane_wf T (inbound_lane_data l st')"
proof -
  have keeps: "keeps_inbound T" using assms(1) by (simp add: target_ok_def)
  have wf: "\<forall>l. lane_wf T (inbound_lane_data l st')" and other: "\<And>k. k \<noteq> l \<Longrightarrow> InboundLanes st' k = InboundLanes st k"
    using receive_lane_delivered[OF keeps assms(2,3)] by blast+
  obtain new where new: "bridge_env st' = bridge_env st @ new"
    "map (\<lambda>m. unat (nonce (dsp_key m))) new = [Suc (unat (last_delivered_nonce (inbound_lane_data l st)))..<Suc (unat (last_delivered_nonce (inbound_lane_data l st')))]"
    "\<And>m. m \<in> set new \<Longrightarrow> lane_id (dsp_key m) = l \<and>
       (\<exists>m0 \<in> set (lane_messages ld). nonce (dsp_key m0) = nonce (dsp_key m) \<and> dsp_payload m0 = dsp_payload m)"
    using receive_lane_log[OF assms(1) assms(2)[rule_format] assms(3)] by blast
  show thesis
  proof (cases "l = lane")
    case True
    have fil: "filter (on_lane lane) new = new" using new(3) True by (auto simp: on_lane_def filter_id_conv)
    have nonces: "last_delivered_nonce (inbound_lane_data l st) \<le> last_delivered_nonce (inbound_lane_data l st') \<and>
        last_confirmed_nonce (inbound_lane_data l st) \<le> last_confirmed_nonce (inbound_lane_data l st') \<and>
        (last_confirmed_nonce (inbound_lane_data l st') = last_confirmed_nonce (inbound_lane_data l st) \<or>
          (\<exists>ob. lane_state ld = Some ob \<and> last_confirmed_nonce (inbound_lane_data l st') = latest_received_nonce ob))"
      by (rule receive_lane_lane[OF keeps assms(2)[rule_format] assms(3)])
        (auto simp: word_le_nat_alt update_data_def Let_def split: option.splits if_splits)
    show thesis
      by (rule that[OF _ wf, of new]) (use new nonces fil True in \<open>simp add: lane_progress_def Let_def\<close>)
  next
    case False
    have fil: "filter (on_lane lane) new = []" using new(3) False by (auto simp: on_lane_def filter_empty_conv)
    show thesis
      by (rule that[OF _ wf, of "[]"])
        (use new(1) fil False other[of lane] in \<open>simp add: lane_progress_def Let_def inbound_lane_data_def\<close>)
  qed
qed

lemma receive_lanes_progress:
  assumes "target_ok T" "\<forall>l. lane_wf T (inbound_lane_data l st)" "receive_lanes T relayer ms (dl, st) = Inr (dl', st')"
  obtains new where "lane_progress lane ms st st' new" "\<forall>l. lane_wf T (inbound_lane_data l st')"
  using assms(2,3)
proof (induction ms arbitrary: dl st thesis)
  case Nil
  then have "st' = st" by simp
  show ?case by (rule Nil.prems(1)) (use Nil.prems(2) lane_progress_refl[of lane "[]" st] in \<open>simp_all add: \<open>st' = st\<close>\<close>)
next
  case (Cons m ms)
  obtain l ld where m: "m = (l, ld)" by (rule prod.exhaust)
  with Cons.prems(3) obtain dl1 st1 where one: "receive_lane T relayer l ld (dl, st) = Inr (dl1, st1)"
    and rest: "receive_lanes T relayer ms (dl1, st1) = Inr (dl', st')"
    by (auto split: sum.splits)
  obtain new1 where new1: "lane_progress lane [(l, ld)] st st1 new1" "\<forall>l. lane_wf T (inbound_lane_data l st1)"
    using receive_lane_progress[OF assms(1) Cons.prems(2) one] by blast
  obtain new2 where new2: "lane_progress lane ms st1 st' new2" "\<forall>l. lane_wf T (inbound_lane_data l st')"
    using Cons.IH[OF _ new1(2) rest] by blast
  have "lane_progress lane (m # ms) st st' (new1 @ new2)"
    by (rule lane_progress_trans[OF lane_progress_mono[OF new1(1)] lane_progress_mono[OF new2(1)]]) (auto simp: m)
  with new2(2) Cons.prems(1) show ?case by blast
qed

section \<open>The invariant of the system\<close>

definition relayed :: "('b, 'a, 'p, 'c, 'p Decoded list, 'mp, 'dp, 'i) BridgeConfig \<Rightarrow> LaneId \<Rightarrow> bytes list \<Rightarrow> nat \<Rightarrow> 'p Decoded" where
  "relayed T lane payloads n = \<lparr>dsp_key = \<lparr>lane_id = lane, nonce = of_nat n\<rparr>, dsp_payload = decode_payload T (payloads ! (n - 1))\<rparr>"

definition src_received :: "LaneId \<Rightarrow> ('a, 'r, 'd, 'e) Messages \<Rightarrow> nat" where
  "src_received lane st = unat (latest_received_nonce (outbound_lane_data lane st))"

definition src_generated :: "LaneId \<Rightarrow> ('a, 'r, 'd, 'e) Messages \<Rightarrow> nat" where
  "src_generated lane st = unat (latest_generated_nonce (outbound_lane_data lane st))"

definition tgt_delivered :: "LaneId \<Rightarrow> ('b, 'a, 'c, 'f) Messages \<Rightarrow> nat" where
  "tgt_delivered lane st = unat (last_delivered_nonce (inbound_lane_data lane st))"

definition tgt_confirmed :: "LaneId \<Rightarrow> ('b, 'a, 'c, 'f) Messages \<Rightarrow> nat" where
  "tgt_confirmed lane st = unat (last_confirmed_nonce (inbound_lane_data lane st))"

text \<open>What is stored at the source, now or earlier, is what was sent.\<close>

definition holds_sent :: "LaneId \<Rightarrow> bytes list \<Rightarrow> ('a, 'r, 'd, 'e) Messages \<Rightarrow> bool" where
  "holds_sent lane payloads st \<longleftrightarrow> (\<forall>n p. stored_messages lane st n = Some p \<longrightarrow>
     0 < unat n \<and> unat n \<le> length payloads \<and> p = payloads ! (unat n - 1))"

definition relay_inv :: "('a, 'r, 'q, 'd, 'e, 'mq, 'dq, 'o) BridgeConfig \<Rightarrow> ('b, 'a, 'p, 'c, 'p Decoded list, 'mp, 'dp, 'i) BridgeConfig \<Rightarrow> LaneId \<Rightarrow>
    ('a, 'b, 'r, 'd, 'c, 'e, 'p) TwoChains \<Rightarrow> bool" where
  "relay_inv S T lane c \<longleftrightarrow>
     outbound_inv (source c) \<and> (\<forall>l. lane_wf T (inbound_lane_data l (target c))) \<and>
     source c \<in> set (source_past c) \<and> target c \<in> set (target_past c) \<and>
     src_generated lane (source c) = length (sent c) \<and>
     (\<forall>h \<in> set (source_past c). holds_sent lane (sent c) h \<and> src_received lane h \<le> src_received lane (source c)) \<and>
     (\<forall>h \<in> set (target_past c). tgt_delivered lane h \<le> tgt_delivered lane (target c)) \<and>
     tgt_confirmed lane (target c) \<le> src_received lane (source c) \<and>
     src_received lane (source c) \<le> tgt_delivered lane (target c) \<and>
     tgt_delivered lane (target c) \<le> length (sent c) \<and>
     filter (on_lane lane) (bridge_env (target c)) = map (relayed T lane (sent c)) [1..<Suc (tgt_delivered lane (target c))]"

lemma relay_invD:
  assumes "relay_inv S T lane c"
  shows "outbound_inv (source c)" "\<forall>l. lane_wf T (inbound_lane_data l (target c))"
    "source c \<in> set (source_past c)" "target c \<in> set (target_past c)"
    "src_generated lane (source c) = length (sent c)"
    "\<And>h. h \<in> set (source_past c) \<Longrightarrow> holds_sent lane (sent c) h \<and> src_received lane h \<le> src_received lane (source c)"
    "\<And>h. h \<in> set (target_past c) \<Longrightarrow> tgt_delivered lane h \<le> tgt_delivered lane (target c)"
    "tgt_confirmed lane (target c) \<le> src_received lane (source c)"
    "src_received lane (source c) \<le> tgt_delivered lane (target c)"
    "tgt_delivered lane (target c) \<le> length (sent c)"
    "filter (on_lane lane) (bridge_env (target c)) = map (relayed T lane (sent c)) [1..<Suc (tgt_delivered lane (target c))]"
  using assms by (auto simp: relay_inv_def)

text \<open>A new storage of the source that keeps what was sent and only confirms delivered messages.\<close>

lemma set_source_inv:
  assumes inv: "relay_inv S T lane c" and "outbound_inv st" "src_generated lane st = length (sent c)"
    and "holds_sent lane (sent c) st" "src_received lane (source c) \<le> src_received lane st"
    and "src_received lane st \<le> tgt_delivered lane (target c)"
  shows "relay_inv S T lane (set_source st c)"
  using relay_invD[OF inv] assms(2-) unfolding relay_inv_def set_source_def
  by (auto intro: order_trans)

lemma set_target_inv:
  assumes inv: "relay_inv S T lane c" and "\<forall>l. lane_wf T (inbound_lane_data l st)"
    and "tgt_delivered lane (target c) \<le> tgt_delivered lane st" "tgt_delivered lane st \<le> length (sent c)"
    and "tgt_confirmed lane st \<le> src_received lane (source c)"
    and "filter (on_lane lane) (bridge_env st) = map (relayed T lane (sent c)) [1..<Suc (tgt_delivered lane st)]"
  shows "relay_inv S T lane (set_target st c)"
  using relay_invD[OF inv] assms(2-) unfolding relay_inv_def set_target_def
  by (auto intro: order_trans)

lemma relay_inv_start: "relay_inv S T lane (relay_start m1 m2 e)" (is "relay_inv S T lane ?c")
proof -
  have s: "OutboundLanes (source ?c) = Map.empty" "OutboundMessages (source ?c) = Map.empty"
    and t: "InboundLanes (target ?c) = Map.empty" "bridge_env (target ?c) = []"
    and p: "source_past ?c = [source ?c]" "target_past ?c = [target ?c]" "sent ?c = []"
    by (simp_all add: relay_start_def bridge_genesis_def genesis_build_def Let_def)
  have "outbound_inv (source ?c)" "\<forall>l. lane_wf T (inbound_lane_data l (target ?c))"
    using bridge_inv_genesis[of S m1 None e] bridge_inv_genesis[of T m2 None "[]"]
    by (simp_all add: relay_start_def Let_def bridge_inv_def)
  then show ?thesis
    by (simp add: relay_inv_def p src_generated_def src_received_def tgt_delivered_def tgt_confirmed_def holds_sent_def s t
        outbound_lane_data_def stored_messages_def outbound_message_data_def outbound_default_def inbound_lane_data_def
        inbound_default_def last_delivered_nonce_def)
qed

lemma relay_send_inv:
  assumes inv: "relay_inv S T lane c" and ok: "source_ok S"
    and v: "validate_message S lane message (source c) = Inr args" and snd: "send_message args (source c) = (artifacts, st)"
    and guard: "unat (latest_generated_nonce (outbound_lane_data lane (source c))) + 2 < 2 ^ 64"
  shows "relay_inv S T lane ((set_source st c)\<lparr>sent := sent c @ [sma_payload args]\<rparr>)"
proof -
  note I = relay_invD[OF inv]
  have lane: "sma_lane_id args = lane"
    using v by (auto simp: validate_message_def split: sum.splits if_splits)
  from snd obtain st1 where run: "lane_send_message (RuntimeOutboundLaneStorage lane) (sma_payload args) (source c) = (smt_nonce artifacts, st1)"
    and st: "st = bridge_deposit_event (MessageAccepted lane (smt_nonce artifacts)) st1"
    unfolding lane[symmetric] by (rule send_message_run)
  note send = rol.send_message_data[OF run, unfolded runtime_out_data]
  have same: "outbound_lane_data lane st = outbound_lane_data lane st1" "stored_messages lane st = stored_messages lane st1"
    by (simp_all add: st bridge_deposit_event_def outbound_lane_data_def stored_messages_def[abs_def] outbound_message_data_def)
  have n: "unat (smt_nonce artifacts) = Suc (length (sent c))"
    unfolding send(1) I(5)[symmetric] src_generated_def using guard by (subst unat_plus_exact) auto
  have holds: "holds_sent lane (sent c @ [p]) h" if "holds_sent lane (sent c) h" for h p
    using that by (fastforce simp: holds_sent_def nth_append)
  have "outbound_inv st" using send_message_outbound_inv(1)[OF I(1) snd] guard by (simp add: lane)
  have "holds_sent lane (sent c @ [sma_payload args]) st"
    using holds[of "source c"] I(3,6) n by (auto simp: holds_sent_def same send(3) split: if_splits)
  have log: "map (relayed T lane (sent c)) [1..<Suc k] = map (relayed T lane (sent c @ [sma_payload args])) [1..<Suc k]" if "k \<le> length (sent c)" for k
    using that by (auto simp: relayed_def nth_append)
  have "\<forall>h \<in> set (source_past c). holds_sent lane (sent c @ [sma_payload args]) h \<and> src_received lane h \<le> src_received lane (source c)"
    using I(6) holds by blast
  then show ?thesis
    using I(1-5,7-) \<open>outbound_inv st\<close> \<open>holds_sent lane (sent c @ [sma_payload args]) st\<close> n log[OF I(10)]
    unfolding relay_inv_def set_source_def
    by (simp add: src_generated_def src_received_def same send(2))
qed

lemma relay_prune_inv:
  assumes inv: "relay_inv S T lane c" and "source_ok S" "bridge_on_idle S block rem (source c) = Some (w, st)"
  shows "relay_inv S T lane (set_source st c)"
proof (cases "all_gte rem (db_reads_writes (DbWeight S) 1 2)")
  case False
  note I = relay_invD[OF inv]
  from False assms(3) have "st = source c" by (simp add: bridge_on_idle_def)
  with I show ?thesis by (intro set_source_inv[OF inv]) auto
next
  case True
  note I = relay_invD[OF inv]
  from assms(3) True obtain l r spent where p: "prune_messages (RuntimeOutboundLaneStorage l) (DbWeight S) r (source c) = Some (spent, st)"
    by (auto simp: bridge_on_idle_def Let_def split: if_splits bind_splits)
  from assms(2) have "runtime_ok S" by (simp add: source_ok_def)
  note n = bridge_on_idle_nonces[OF this I(1) p]
  have "holds_sent lane (sent c) st" using n(5)[of lane] I(3,6) unfolding holds_sent_def by blast
  with I(5,9) n(1,3,4) show ?thesis
    by (intro set_source_inv[OF inv]) (auto simp: src_received_def src_generated_def)
qed

lemma relay_confirm_inv:
  assumes inv: "relay_inv S T lane c" and ok: "source_ok S"
    and run: "receive_messages_delivery_proof S origin dprf rs (source c) = Inr (w, st)"
    and v: "verify_messages_delivery_proof S dprf (source c) = Inr (l, inbound_lane_data l past)" and past: "past \<in> set (target_past c)"
  shows "relay_inv S T lane (set_source st c)"
    and "src_received l st = max (src_received l (source c)) (tgt_delivered l past)"
proof -
  note I = relay_invD[OF inv]
  from ok have k: "keeps_outbound S" "runtime_ok S" by (simp_all add: source_ok_def)
  note eff = delivery_proof_outbound[OF k(1) run v outbound_inv_received[OF I(1)]]
  show rec: "src_received l st = max (src_received l (source c)) (tgt_delivered l past)"
    by (simp add: src_received_def tgt_delivered_def eff(1) max_def word_le_nat_alt)
  have same: "outbound_lane_data lane st = outbound_lane_data lane (source c)" if "l \<noteq> lane" using eff(4)[of lane] that by simp
  have "outbound_inv st"
    using run
  proof (cases rule: receive_messages_delivery_proof_run)
    case (1 a l' ld c' st1 rs' st2)
    from confirm_delivery_outbound_inv(1)[OF 1(5) I(1)] have "outbound_inv st1" .
    moreover have "OutboundLanes st = OutboundLanes st1" "OutboundMessages st = OutboundMessages st1"
      using k(1) 1(6,7,11) by (cases c'; simp add: keeps_outbound_def bridge_deposit_event_def)+
    ultimately show ?thesis using outbound_inv_cong by blast
  qed
  moreover have "holds_sent lane (sent c) st" using I(3,6) eff(3)[of lane] by (simp add: holds_sent_def)
  moreover have "src_generated lane st = length (sent c)"
    using I(5) eff(1) same by (cases "l = lane") (simp_all add: src_generated_def)
  moreover have "src_received lane (source c) \<le> src_received lane st \<and> src_received lane st \<le> tgt_delivered lane (target c)"
    using rec I(7)[OF past] I(9) same by (cases "l = lane") (simp_all add: src_received_def)
  ultimately show "relay_inv S T lane (set_source st c)" by (intro set_source_inv[OF inv]) blast+
qed

lemma relay_deliver_inv:
  assumes inv: "relay_inv S T lane c" and ok: "target_ok T"
    and run: "receive_messages_proof T origin relayer prf n w (target c) = Inr (w', st)"
    and v: "verify_messages_proof T prf n (target c) = Inr ms"
    and sound: "\<forall>(l, ld) \<in> set ms. \<exists>past \<in> set (source_past c). proved_from l past ld"
  shows "relay_inv S T lane (set_target st c)"
proof -
  note I = relay_invD[OF inv]
  let ?dec = "\<lambda>(l, ld). (l, \<lparr>lane_state = lane_state ld, lane_messages = map (decode_message T) (lane_messages ld)\<rparr>)"
  from run obtain a dl dl0 st1 where r: "receive_lanes T relayer (map ?dec ms) (dl0, target c) = Inr (dl, st1)"
    and st: "st = bridge_deposit_event (MessagesReceived (dl_status dl))
       (delivery_pay_reward T a (dl_total_messages dl) (dl_valid_messages dl) (dl_actual_weight dl) st1)"
    by (cases rule: receive_messages_proof_run) (use v in auto)
  have same: "InboundLanes st = InboundLanes st1" "bridge_env st = bridge_env st1"
    using ok by (simp_all add: st bridge_deposit_event_def target_ok_def keeps_inbound_def)
  obtain new where p: "lane_progress lane (map ?dec ms) (target c) st1 new" and wf: "\<forall>l. lane_wf T (inbound_lane_data l st1)"
    using receive_lanes_progress[OF ok I(2) r] by blast
  let ?d = "tgt_delivered lane (target c)" and ?d' = "tgt_delivered lane st1"
  have log: "filter (on_lane lane) (bridge_env st1) = filter (on_lane lane) (bridge_env (target c)) @ new"
    and nonces: "map (\<lambda>m. unat (nonce (dsp_key m))) new = [Suc ?d..<Suc ?d']" and le: "?d \<le> ?d'"
    using p by (simp_all add: lane_progress_def Let_def tgt_delivered_def word_le_nat_alt)
  have msg: "m = relayed T lane (sent c) (unat (nonce (dsp_key m))) \<and> unat (nonce (dsp_key m)) \<le> length (sent c)" if "m \<in> set new" for m
  proof -
    from p that obtain ld m0 where m0: "(lane, ld) \<in> set (map ?dec ms)" "m0 \<in> set (lane_messages ld)"
      "nonce (dsp_key m0) = nonce (dsp_key m)" "dsp_payload m0 = dsp_payload m" and l: "lane_id (dsp_key m) = lane"
      unfolding lane_progress_def Let_def by blast
    from m0(1) obtain ld0 where ld0: "(lane, ld0) \<in> set ms" "ld = snd (?dec (lane, ld0))" by auto
    with m0(2) obtain m1 where m1: "m1 \<in> set (lane_messages ld0)" "m0 = decode_message T m1" by auto
    from sound ld0(1) obtain past where past: "past \<in> set (source_past c)" "proved_from lane past ld0" by blast
    from past(2) m1(1) have "stored_messages lane past (nonce (msg_key m1)) = Some (msg_payload m1)" by (simp add: proved_from_def)
    with I(6)[OF past(1)] have "unat (nonce (msg_key m1)) \<le> length (sent c) \<and> msg_payload m1 = sent c ! (unat (nonce (msg_key m1)) - 1)"
      by (simp add: holds_sent_def)
    moreover have "nonce (msg_key m1) = nonce (dsp_key m)" "dsp_payload m = decode_payload T (msg_payload m1)"
      using m0(3,4) m1(2) by (simp_all add: decode_message_def)
    ultimately show ?thesis using l by (simp add: relayed_def)
  qed
  have "new = map (relayed T lane (sent c)) (map (\<lambda>m. unat (nonce (dsp_key m))) new)"
    using msg by (simp add: map_idI[symmetric] comp_def)
  then have "filter (on_lane lane) (bridge_env st1) = map (relayed T lane (sent c)) ([1..<Suc ?d] @ [Suc ?d..<Suc ?d'])"
    unfolding log I(11) nonces by simp
  also have "[1..<Suc ?d] @ [Suc ?d..<Suc ?d'] = [1..<Suc ?d']" using le by (intro upt_append) auto
  finally have "filter (on_lane lane) (bridge_env st1) = map (relayed T lane (sent c)) [1..<Suc ?d']" .
  moreover have "?d' \<le> length (sent c)"
  proof (cases "?d = ?d'")
    case False
    with le have "?d' \<in> set (map (\<lambda>m. unat (nonce (dsp_key m))) new)" unfolding nonces by simp
    with msg show ?thesis by auto
  qed (use I(10) in simp)
  moreover have "tgt_confirmed lane st1 \<le> src_received lane (source c)"
  proof -
    have "last_confirmed_nonce (inbound_lane_data lane st1) = last_confirmed_nonce (inbound_lane_data lane (target c)) \<or>
      (\<exists>ld ob. (lane, ld) \<in> set (map ?dec ms) \<and> lane_state ld = Some ob \<and> last_confirmed_nonce (inbound_lane_data lane st1) = latest_received_nonce ob)"
      using p by (simp add: lane_progress_def Let_def)
    then show ?thesis
    proof
      assume "last_confirmed_nonce (inbound_lane_data lane st1) = last_confirmed_nonce (inbound_lane_data lane (target c))"
      with I(8) show ?thesis by (simp add: tgt_confirmed_def)
    next
      assume "\<exists>ld ob. (lane, ld) \<in> set (map ?dec ms) \<and> lane_state ld = Some ob \<and> last_confirmed_nonce (inbound_lane_data lane st1) = latest_received_nonce ob"
      then obtain ld ob where o: "(lane, ld) \<in> set ms" "lane_state ld = Some ob" "last_confirmed_nonce (inbound_lane_data lane st1) = latest_received_nonce ob"
        by auto
      from sound o(1) obtain past where past: "past \<in> set (source_past c)" "proved_from lane past ld" by blast
      with o(2) have "ob = outbound_lane_data lane past" by (simp add: proved_from_def)
      with I(6)[OF past(1)] o(3) show ?thesis by (simp add: tgt_confirmed_def src_received_def)
    qed
  qed
  moreover have "inbound_lane_data l st = inbound_lane_data l st1" for l using same(1) by (simp add: inbound_lane_data_def)
  then have "tgt_delivered lane st = ?d'" "tgt_confirmed lane st = tgt_confirmed lane st1" "\<forall>l. lane_wf T (inbound_lane_data l st)"
    using wf by (simp_all add: tgt_delivered_def tgt_confirmed_def)
  ultimately show ?thesis using le by (intro set_target_inv[OF inv]) (simp_all only: same(2) HOL.simp_thms)
qed

lemma relay_step_inv:
  assumes "source_ok S" "target_ok T" "relay_inv S T lane c" "relay S T lane c c'"
  shows "relay_inv S T lane c'"
  using assms(4)
proof cases
  case (relay_source st)
  note I = relay_invD[OF assms(3)]
  note eq = outbound_data_cong(1)[OF relay_source(2)] outbound_data_cong(2)[OF relay_source(3)]
  have "outbound_inv st" using I(1) outbound_inv_cong[OF relay_source(2,3)] by simp
  moreover have "holds_sent lane (sent c) st" using I(3,6) by (simp add: holds_sent_def eq)
  ultimately show ?thesis unfolding relay_source(1)
    using I(5,9) by (intro set_source_inv[OF assms(3)]) (simp_all add: src_generated_def src_received_def eq)
next
  case (relay_target st)
  note I = relay_invD[OF assms(3)]
  have eq: "inbound_lane_data l st = inbound_lane_data l (target c)" for l using relay_target(2) by (simp add: inbound_lane_data_def)
  show ?thesis unfolding relay_target(1)
    using I by (intro set_target_inv[OF assms(3)]) (simp_all add: tgt_delivered_def tgt_confirmed_def eq relay_target(3))
qed (use assms relay_send_inv relay_prune_inv relay_deliver_inv relay_confirm_inv(1) in simp_all)

lemma relay_reachable_inv: "source_ok S \<Longrightarrow> target_ok T \<Longrightarrow> relay_reachable S T lane c \<Longrightarrow> relay_inv S T lane c"
  by (rotate_tac 2, induction rule: relay_reachable.induct) (auto intro: relay_inv_start relay_step_inv)

section \<open>Safety\<close>

lemma undelivered_stored:
  assumes "relay_inv S T lane c" "tgt_delivered lane (target c) < unat n" "unat n \<le> length (sent c)"
  shows "stored_messages lane (source c) n = Some (sent c ! (unat n - 1))"
proof -
  note I = relay_invD[OF assms(1)]
  from I(1) have wf: "outbound_wf (outbound_lane_data lane (source c)) (stored_messages lane (source c))" by (simp add: outbound_inv_def)
  have "n \<in> dom (stored_messages lane (source c))"
    using wf I(5,9) assms(2,3) by (auto simp: outbound_wf_def src_received_def src_generated_def word_le_nat_alt)
  then obtain p where "stored_messages lane (source c) n = Some p" by blast
  with I(3,6) show ?thesis by (auto simp: holds_sent_def)
qed

text \<open>C1: whatever the relayers do with proofs of past storages, the target has dispatched exactly the first messages
  the source accepted on the lane: each once, in the order of sending, with the payload that was sent. The confirmed,
  received, delivered and generated nonces are in order, and no message that is not yet delivered has been pruned. The
  handlers of the two runtimes leave the lanes alone, the target's dispatcher logs what it is given, and a database write of
  the source has a weight.\<close>

theorem relayed_once_in_order:
  assumes "source_ok S" "target_ok T" "relay_reachable S T lane c"
  shows "filter (on_lane lane) (bridge_env (target c)) = map (relayed T lane (sent c)) [1..<Suc (tgt_delivered lane (target c))] \<and>
    tgt_confirmed lane (target c) \<le> src_received lane (source c) \<and> src_received lane (source c) \<le> tgt_delivered lane (target c) \<and>
    tgt_delivered lane (target c) \<le> length (sent c) \<and> length (sent c) = src_generated lane (source c) \<and>
    (\<forall>n. tgt_delivered lane (target c) < unat n \<and> unat n \<le> length (sent c) \<longrightarrow>
       stored_messages lane (source c) n = Some (sent c ! (unat n - 1)))"
  using relay_invD(5,8-11)[OF relay_reachable_inv[OF assms]] undelivered_stored[OF relay_reachable_inv[OF assms]] by auto

lemma plain_target_ok: "target_ok plain_config"
  using plain_config_keeps by (simp add: target_ok_def plain_config_def)

lemma plain_source_ok: "source_ok plain_config"
  using plain_config_ok by (simp add: source_ok_def keeps_outbound_def plain_config_def)

definition plain_system :: "(nat, nat, nat, unit, unit, bytes Decoded list, bytes) TwoChains" where
  "plain_system = (let c = relay_start (Basic Normal) (Basic Normal) []
     in (set_source (snd (send_message \<lparr>sma_lane_id = plain_lane, sma_payload = [7]\<rparr> (source c))) c)\<lparr>sent := [[7]]\<rparr>)"

lemma plain_system_reachable: "relay_reachable plain_config plain_config plain_lane plain_system"
proof -
  let ?c = "relay_start (Basic Normal) (Basic Normal) [] :: (nat, nat, nat, unit, unit, bytes Decoded list, bytes) TwoChains"
  have "validate_message plain_config plain_lane [7] (source ?c) = Inr \<lparr>sma_lane_id = plain_lane, sma_payload = [7]\<rparr>"
    by (simp add: validate_message_def ensure_normal_operating_mode_def plain_config_def relay_start_def bridge_genesis_def
        genesis_build_def Let_def)
  moreover have "unat (latest_generated_nonce (outbound_lane_data plain_lane (source ?c))) + 2 < 2 ^ 64"
    by (simp add: relay_start_def bridge_genesis_def genesis_build_def outbound_lane_data_def outbound_default_def Let_def)
  ultimately have "relay plain_config plain_config plain_lane ?c plain_system"
    using relay_send[of plain_config plain_lane "[7]" ?c _ "fst (send_message \<lparr>sma_lane_id = plain_lane, sma_payload = [7]\<rparr> (source ?c))"
        "snd (send_message \<lparr>sma_lane_id = plain_lane, sma_payload = [7]\<rparr> (source ?c))" plain_config]
    by (simp add: plain_system_def Let_def) (simp add: relay_start_def Let_def)
  with relay_reach_start relay_reach_step show ?thesis by metis
qed

theorem relayed_once_in_order_witness:
  "stored_messages plain_lane (source plain_system) 1 = Some [7] \<and> filter (on_lane plain_lane) (bridge_env (target plain_system)) = []"
proof -
  have "tgt_delivered plain_lane (target plain_system) = 0" "sent plain_system = [[7]]"
    by (simp_all add: plain_system_def set_source_def relay_start_def bridge_genesis_def genesis_build_def Let_def
        tgt_delivered_def inbound_lane_data_def inbound_default_def last_delivered_nonce_def)
  with relayed_once_in_order[OF plain_source_ok plain_target_ok plain_system_reachable] show ?thesis by fastforce
qed

section \<open>Liveness\<close>

text \<open>
  The lane is open: the dispatcher is active, the limits let a message through, and the runtimes do not halt the
  pallets themselves. Proofs are available: relayers find a proof for what is in the storages.
\<close>

definition lane_open :: "('a, 'r, 'q, 'd, 'e, 'mq, 'dq, 'o) BridgeConfig \<Rightarrow> ('b, 'a, 'p, 'c, 'p Decoded list, 'mp, 'dp, 'i) BridgeConfig \<Rightarrow> bool" where
  "lane_open S T \<longleftrightarrow> (\<forall>st. dispatch_is_active T st) \<and> 0 < MaxUnrewardedRelayerEntriesAtInboundLane T \<and>
     0 < MaxUnconfirmedMessagesAtInboundLane T \<and>
     (\<forall>m st. PalletOperatingMode (snd (dispatch_message T m st)) = PalletOperatingMode st) \<and>
     (\<forall>a t v w st. PalletOperatingMode (delivery_pay_reward T a t v w st) = PalletOperatingMode st) \<and>
     (\<forall>l rs a r st. PalletOperatingMode (snd (confirmation_pay_reward S l rs a r st)) = PalletOperatingMode st) \<and>
     (\<forall>l n st. PalletOperatingMode (on_messages_delivered S l n st) = PalletOperatingMode st)"

definition provable :: "('a, 'r, 'q, 'd, 'e, 'mq, 'dq, 'o) BridgeConfig \<Rightarrow> ('b, 'a, 'p, 'c, 'p Decoded list, 'mp, 'dp, 'i) BridgeConfig \<Rightarrow> LaneId \<Rightarrow> bool" where
  "provable S T lane \<longleftrightarrow> (\<forall>c. relay_reachable S T lane c \<longrightarrow>
     (\<forall>ld. proved_from lane (source c) ld \<and> length (lane_messages ld) = 1 \<longrightarrow>
        (\<exists>prf. verify_messages_proof T prf 1 (target c) = Inr [(lane, ld)])) \<and>
     (\<exists>prf. verify_messages_delivery_proof S prf (source c) = Inr (lane, inbound_lane_data lane (target c))))"

lemma delivery_proof_succeeds:
  assumes "\<not> is_halted st" "verify_messages_delivery_proof S prf st = Inr (lane, d)"
    and "confirm_delivery (RuntimeOutboundLaneStorage lane) (total_unrewarded_messages d) (last_delivered_nonce d) (relayers d) st = (Inr c, st1)"
  shows "\<exists>w st'. receive_messages_delivery_proof S (Signed a) prf (relayers_state_of d) st = Inr (w, st')"
proof -
  have "urs_total_messages (relayers_state_of d) = total_unrewarded_messages d" by (simp add: relayers_state_of_def)
  with assms show ?thesis
    by (simp add: receive_messages_delivery_proof_def ensure_not_halted_def ensure_signed_def relayers_state_is_valid_def
        split_beta Let_def)
qed

lemma delivery_proof_mode:
  assumes "lane_open S T" "receive_messages_delivery_proof S origin prf rs st = Inr (w, st')"
  shows "PalletOperatingMode st' = PalletOperatingMode st"
  using assms(2)
proof (cases rule: receive_messages_delivery_proof_run)
  case (1 a lane ld c st1 rs' st2)
  have "off_outbound lane st1 = off_outbound lane st"
    using 1(5) by (cases rule: rol.confirm_delivery_cases) auto
  from off_outbound_eqD(2)[OF this] have "PalletOperatingMode st1 = PalletOperatingMode st" .
  with 1(6,7,11) assms(1) show ?thesis
    by (cases c) (simp_all add: lane_open_def bridge_deposit_event_def)
qed

text \<open>A confirmation catches the source up with the target.\<close>

lemma confirm_round:
  assumes "source_ok S" "target_ok T" "provable S T lane" "lane_open S T" "relay_reachable S T lane c" "\<not> is_halted (source c)"
  obtains c' where "(relay S T lane)\<^sup>*\<^sup>* c c'" "src_received lane (source c') = tgt_delivered lane (target c)"
    "target c' = target c" "sent c' = sent c" "\<not> is_halted (source c')"
proof (cases "src_received lane (source c) = tgt_delivered lane (target c)")
  case True
  with that[of c] assms(6) show thesis by simp
next
  case False
  note inv = relay_reachable_inv[OF assms(1,2,5)]
  note I = relay_invD[OF inv]
  let ?d = "inbound_lane_data lane (target c)"
  from assms(3,5) obtain pf where v: "verify_messages_delivery_proof S pf (source c) = Inr (lane, ?d)"
    unfolding provable_def by blast
  have "consecutive (last_confirmed_nonce ?d) (relayers ?d)" using I(2) by (simp add: lane_wf_def inbound_wf_def)
  then obtain st1 conf where "confirm_delivery (RuntimeOutboundLaneStorage lane) (total_unrewarded_messages ?d) (last_delivered_nonce ?d) (relayers ?d) (source c) = (Inr conf, st1)"
    using rol.confirm_delivery_honest[of ?d lane "source c"] False I(5,8-10)
    by (auto simp: word_le_nat_alt word_less_nat_alt src_received_def src_generated_def tgt_delivered_def tgt_confirmed_def)
  from delivery_proof_succeeds[OF assms(6) v this] obtain w st where
    run: "receive_messages_delivery_proof S (Signed undefined) pf (relayers_state_of ?d) (source c) = Inr (w, st)" by blast
  have "relay S T lane c (set_source st c)" by (rule relay_confirm[OF run v I(4)])
  moreover have "src_received lane st = tgt_delivered lane (target c)"
    using relay_confirm_inv(2)[OF inv assms(1) run v I(4)] I(9) by simp
  moreover have "\<not> is_halted st" using delivery_proof_mode[OF assms(4) run] assms(6) by (simp add: is_halted_def)
  ultimately show thesis
    by (intro that[of "set_source st c"]) (auto simp: set_source_def)
qed

lemma update_data_clears:
  assumes "lane_wf T d" "latest_received_nonce ob = last_delivered_nonce d"
  shows "relayers (snd (update_data ob d)) = []" "last_confirmed_nonce (snd (update_data ob d)) = last_delivered_nonce d"
proof -
  obtain r d1 where u: "update_data ob d = (r, d1)" by (rule prod.exhaust)
  note wf = update_data_wf[OF assms(1)[unfolded lane_wf_def] u]
  have le: "last_confirmed_nonce d \<le> last_delivered_nonce d"
    using assms(1) by (simp add: lane_wf_def inbound_wf_def last_delivered_end_of consecutive_le)
  with u assms(2) show c: "last_confirmed_nonce (snd (update_data ob d)) = last_delivered_nonce d"
    by (auto simp: update_data_def Let_def split: if_splits)
  from consecutive_end[of "last_confirmed_nonce d1" "relayers d1"] wf(1,2) c u show "relayers (snd (update_data ob d)) = []"
    by (auto simp: inbound_wf_def last_delivered_end_of)
qed

lemma receive_lane_single:
  assumes ok: "target_ok T" and wf: "lane_wf T (inbound_lane_data lane st)" and ms: "lane_messages ld = [m]"
    and left: "all_lte (fst (dispatch_weight_of T m)) (dispatch_weight_left dl)"
    and acc: "lane_rejects T (nonce (dsp_key m)) (case lane_state ld of None \<Rightarrow> inbound_lane_data lane st
      | Some ob \<Rightarrow> snd (update_data ob (inbound_lane_data lane st))) = (None :: 'c ReceptionResult option)"
  obtains dl' st' where "receive_lane T relayer lane ld (dl, st) = Inr (dl' :: 'c Delivery, st')"
    "last_delivered_nonce (inbound_lane_data lane st') = nonce (dsp_key m)"
proof -
  have keeps: "keeps_inbound T" using ok by (simp add: target_ok_def)
  obtain x s0 where x: "extra_proof_size_bytes T lane (None, st) = (x, s0)" by (rule prod.exhaust)
  note s0 = extra_proof_size_bytes_keeps[OF x]
  define s1 where "s1 = (case lane_state ld of Some ob \<Rightarrow> snd (receive_state_update (RuntimeInboundLaneStorage T lane) ob s0) | None \<Rightarrow> s0)"
  define dl0 where "dl0 = dl\<lparr>dl_actual_weight := set_proof_size (dl_actual_weight dl) (saturating_sub (proof_size (dl_actual_weight dl)) x)\<rparr>"
  note s1 = lane_state_update[OF s0(1), of T "lane_state ld", folded s1_def]
  have v1: "lane_view lane s1 = (case lane_state ld of None \<Rightarrow> inbound_lane_data lane st | Some ob \<Rightarrow> snd (update_data ob (inbound_lane_data lane st)))"
    using s1(3) unfolding lane_view_def[of lane s0] s0(2) .
  obtain w m' where wm: "dispatch_weight_of T m = (w, m')" by (rule prod.exhaust)
  with ok have m': "m' = m" by (metis target_ok_def snd_conv)
  let ?status = "\<lparr>rm_lane = lane, receive_results = []\<rparr> :: 'c ReceivedMessages"
  have "\<not> any_gt w (dispatch_weight_left dl0)" using left wm by (simp add: any_gt_iff dl0_def)
  then obtain dl2 status2 s2 where one: "receive_one T relayer lane m (dl0, ?status, s1) = Inr (dl2, status2, s2)"
    by (simp add: receive_one_def wm Let_def split_beta split: ReceptionResult.split)
  have run: "receive_lane T relayer lane ld (dl, st) = Inr (dl2\<lparr>dl_status := dl_status dl2 @ [status2]\<rparr>, snd s2)"
    by (simp add: receive_lane_def x Let_def dl0_def[symmetric] s1_def[symmetric] ms one)
  have wf1: "lane_wf T (lane_view lane s1)"
  proof (cases "lane_state ld")
    case (Some ob)
    with update_data_wf(1)[OF wf[unfolded lane_wf_def] prod.collapse[symmetric]] show ?thesis by (simp add: v1 lane_wf_def)
  qed (use wf v1 in simp)
  from keeps s1(1) one wm have "last_delivered_nonce (lane_view lane s2) = nonce (dsp_key m)"
  proof (cases rule: receive_one_cases)
    case (rejected e)
    with acc show ?thesis by (simp add: v1 m')
  next
    case (dispatched s3 r s4)
    with deliver_data_wf(2)[OF wf1[unfolded lane_wf_def] dispatched(1)] show ?thesis by (simp add: m')
  qed
  with run that show thesis by (simp add: lane_view_def)
qed

text \<open>A delivery with the state of the lane brings one more message to a target whose deliveries are all confirmed.\<close>

lemma messages_proof_mode:
  assumes "target_ok T" "lane_open S T" "receive_messages_proof T origin relayer prf n w st = Inr (w', st')"
  shows "PalletOperatingMode st' = PalletOperatingMode st"
  using assms(3)
proof (cases rule: receive_messages_proof_run)
  case (1 a ms dl st1)
  let ?P = "\<lambda>s. PalletOperatingMode s = PalletOperatingMode st"
  have "keeps_inbound T" "outside_lanes ?P" "\<forall>m s. ?P s \<longrightarrow> ?P (snd (dispatch_message T m s))"
    using assms(1,2) unfolding outside_lanes_def by (auto simp: target_ok_def lane_open_def dest: off_lane_eqD(2))
  from receive_lanes_keeps[OF this refl 1(6)] have "PalletOperatingMode st1 = PalletOperatingMode st" .
  with 1(8) assms(2) show ?thesis by (simp add: bridge_deposit_event_def lane_open_def)
qed

lemma deliver_round:
  fixes T :: "('b, 'a, 'p, 'c, 'p Decoded list, 'mp, 'dp, 'i) BridgeConfig"
  assumes ok: "source_ok S" "target_ok T" "provable S T lane" "lane_open S T" "relay_reachable S T lane c"
    and "\<not> is_halted (target c)" "src_received lane (source c) = tgt_delivered lane (target c)"
    and more: "tgt_delivered lane (target c) < length (sent c)"
  obtains c' where "relay S T lane c c'" "tgt_delivered lane (target c') = Suc (tgt_delivered lane (target c))"
    "source c' = source c" "sent c' = sent c" "\<not> is_halted (target c')"
proof -
  note inv = relay_reachable_inv[OF ok(1,2,5)]
  note I = relay_invD[OF inv]
  let ?d = "inbound_lane_data lane (target c)" and ?ob = "outbound_lane_data lane (source c)"
  define n :: MessageNonce where "n = of_nat (Suc (tgt_delivered lane (target c)))"
  have "length (sent c) < 2 ^ 64" using I(5) unat_bound[of "latest_generated_nonce ?ob"] by (simp add: src_generated_def)
  with more have n: "unat n = Suc (tgt_delivered lane (target c))" by (simp add: n_def unat_of_nat del: of_nat_Suc)
  define m where "m = \<lparr>msg_key = \<lparr>lane_id = lane, nonce = n\<rparr>, msg_payload = sent c ! (unat n - 1)\<rparr>"
  define ld where "ld = \<lparr>lane_state = Some ?ob, lane_messages = [m]\<rparr>"
  have "stored_messages lane (source c) n = Some (sent c ! (unat n - 1))"
    using undelivered_stored[OF inv, of n] more n by simp
  then have pr: "proved_from lane (source c) ld" by (simp add: proved_from_def ld_def m_def)
  moreover have "length (lane_messages ld) = 1" by (simp add: ld_def)
  ultimately obtain pf where v: "verify_messages_proof T pf 1 (target c) = Inr [(lane, ld)]"
    using ok(3,5) unfolding provable_def by blast
  let ?ld = "\<lparr>lane_state = lane_state ld, lane_messages = map (decode_message T) (lane_messages ld)\<rparr>"
  have rec: "latest_received_nonce ?ob = last_delivered_nonce ?d"
    using assms(7) by (simp add: src_received_def tgt_delivered_def word_unat_eq_iff)
  have wf: "lane_wf T ?d" using I(2) by simp
  note clear = update_data_clears[OF wf rec]
  have last: "last_delivered_nonce (snd (update_data ?ob ?d)) = last_delivered_nonce ?d"
    using clear by (simp add: last_delivered_nonce_def)
  have acc: "lane_rejects T n (snd (update_data ?ob ?d)) = (None :: 'c ReceptionResult option)"
  proof -
    have "checked_add (last_delivered_nonce ?d) 1 = Some n" using n by (simp add: checked_iffs tgt_delivered_def)
    moreover have "saturating_sub n (last_delivered_nonce ?d) = 1"
      using n by (simp add: u_arith tgt_delivered_def)
    ultimately show ?thesis using ok(4) clear last
      by (auto simp: rejection_def lane_open_def word_less_nat_alt not_less)
  qed
  define w where "w = fst (dispatch_weight_of T (decode_message T m))"
  define dl where "dl = \<lparr>dl_total_messages = 0, dl_valid_messages = 0, dispatch_weight_left = w,
      dl_actual_weight = receive_messages_proof_weight (WeightInfo T) (messages_proof_size T pf) 1 w, dl_status = [] :: 'c ReceivedMessages list\<rparr>"
  obtain dl' st1 where one: "receive_lane T undefined lane ?ld (dl, target c) = Inr (dl', st1)"
    and del: "last_delivered_nonce (inbound_lane_data lane st1) = n"
    by (rule receive_lane_single[OF ok(2) wf, of ?ld "decode_message T m" dl undefined])
      (use acc in \<open>simp_all add: ld_def w_def dl_def decode_message_def m_def\<close>)
  have "\<exists>w' st. receive_messages_proof T (Signed undefined) undefined pf 1 w (target c) = Inr (w', st) \<and>
      InboundLanes st = InboundLanes st1"
    using assms(6) ok(2,4) v one
    by (simp add: receive_messages_proof_def ensure_not_halted_def ensure_signed_def verify_and_decode_messages_proof_def
        Let_def dl_def[symmetric] lane_open_def target_ok_def keeps_inbound_def bridge_deposit_event_def word_le_nat_alt
        word_less_nat_alt Suc_le_eq)
  then obtain w' st where run: "receive_messages_proof T (Signed undefined) undefined pf 1 w (target c) = Inr (w', st)"
    and same: "InboundLanes st = InboundLanes st1" by blast
  have "relay S T lane c (set_target st c)"
    by (rule relay_deliver[OF run v]) (use pr I(3) in auto)
  moreover have "tgt_delivered lane st = Suc (tgt_delivered lane (target c))"
    using del n same by (simp add: tgt_delivered_def[of _ st] inbound_lane_data_def)
  moreover have "\<not> is_halted st" using messages_proof_mode[OF ok(2,4) run] assms(6) by (simp add: is_halted_def)
  ultimately show thesis by (intro that[of "set_target st c"]) (auto simp: set_target_def)
qed

lemma relay_reachable_star: "(relay S T lane)\<^sup>*\<^sup>* c c' \<Longrightarrow> relay_reachable S T lane c \<Longrightarrow> relay_reachable S T lane c'"
  by (induction rule: rtranclp_induct) (auto intro: relay_reach_step)

lemma relay_catches_up:
  assumes ok: "source_ok S" "target_ok T" "provable S T lane" "lane_open S T"
    and "relay_reachable S T lane c" "\<not> is_halted (source c)" "\<not> is_halted (target c)"
  shows "\<exists>c'. (relay S T lane)\<^sup>*\<^sup>* c c' \<and> sent c' = sent c \<and> tgt_delivered lane (target c') = length (sent c) \<and>
    src_received lane (source c') = length (sent c)"
  using assms(5-)
proof (induction "length (sent c) - tgt_delivered lane (target c)" arbitrary: c)
  case 0
  with relay_invD(10)[OF relay_reachable_inv[OF ok(1,2) 0(2)]] have d: "tgt_delivered lane (target c) = length (sent c)" by simp
  obtain c' where "(relay S T lane)\<^sup>*\<^sup>* c c'" "src_received lane (source c') = tgt_delivered lane (target c)" "target c' = target c" "sent c' = sent c"
    using confirm_round[OF ok 0(2,3)] by blast
  with d show ?case by auto
next
  case (Suc k)
  obtain c1 where c1: "(relay S T lane)\<^sup>*\<^sup>* c c1" "src_received lane (source c1) = tgt_delivered lane (target c)"
    "target c1 = target c" "sent c1 = sent c" "\<not> is_halted (source c1)"
    using confirm_round[OF ok Suc(3,4)] by blast
  from relay_reachable_star[OF c1(1) Suc(3)] have r1: "relay_reachable S T lane c1" .
  from Suc(2) have more: "tgt_delivered lane (target c1) < length (sent c1)" using c1(3,4) by simp
  have eq: "src_received lane (source c1) = tgt_delivered lane (target c1)" using c1(2,3) by simp
  have nh: "\<not> is_halted (target c1)" using c1(3) Suc(5) by simp
  obtain c2 where c2: "relay S T lane c1 c2" "tgt_delivered lane (target c2) = Suc (tgt_delivered lane (target c1))"
    "source c2 = source c1" "sent c2 = sent c1" "\<not> is_halted (target c2)"
    using deliver_round[OF ok r1 nh eq more] by blast
  have "\<exists>c'. (relay S T lane)\<^sup>*\<^sup>* c2 c' \<and> sent c' = sent c2 \<and> tgt_delivered lane (target c') = length (sent c2) \<and>
    src_received lane (source c') = length (sent c2)"
    by (rule Suc.hyps(1)[OF _ relay_reach_step[OF r1 c2(1)]]) (use Suc(2) c1 c2 in simp_all)
  then obtain c' where c': "(relay S T lane)\<^sup>*\<^sup>* c2 c'" "sent c' = sent c2" "tgt_delivered lane (target c') = length (sent c2)"
    "src_received lane (source c') = length (sent c2)" by blast
  have "(relay S T lane)\<^sup>*\<^sup>* c c'" using c1(1) c2(1) c'(1) by (meson rtranclp.rtrancl_into_rtrancl rtranclp_trans)
  with c' c1(4) c2(4) show ?case by auto
qed

text \<open>C7: from every reachable state of an open lane, however far the relayers are behind and whatever was pruned,
  relayer calls lead to a state in which every message sent so far is dispatched on the target and confirmed on the
  source: the lane never gets stuck. The runtimes are as for the order of delivery, proofs of the current storages can be made,
  and the dispatcher is active.\<close>

theorem lane_never_stuck:
  assumes "source_ok S" "target_ok T" "provable S T lane" "lane_open S T"
    and "relay_reachable S T lane c" "\<not> is_halted (source c)" "\<not> is_halted (target c)"
  shows "\<exists>c'. (relay S T lane)\<^sup>*\<^sup>* c c' \<and> sent c' = sent c \<and> tgt_delivered lane (target c') = length (sent c) \<and>
    src_received lane (source c') = length (sent c) \<and>
    filter (on_lane lane) (bridge_env (target c')) = map (relayed T lane (sent c)) [1..<Suc (length (sent c))]"
proof -
  obtain c' where c': "(relay S T lane)\<^sup>*\<^sup>* c c'" "sent c' = sent c" "tgt_delivered lane (target c') = length (sent c)"
    "src_received lane (source c') = length (sent c)"
    using relay_catches_up[OF assms] by blast
  from relay_invD(11)[OF relay_reachable_inv[OF assms(1,2) relay_reachable_star[OF c'(1) assms(5)]]] c' show ?thesis by auto
qed

theorem lane_never_stuck_witness:
  "\<exists>c'. (relay plain_config plain_config plain_lane)\<^sup>*\<^sup>* plain_system c' \<and> tgt_delivered plain_lane (target c') = 1"
proof -
  have "provable plain_config plain_config plain_lane" by (simp add: provable_def plain_config_def)
  moreover have "lane_open plain_config plain_config" by (simp add: lane_open_def plain_config_def)
  moreover have "\<not> is_halted (source plain_system)" "\<not> is_halted (target plain_system)" "sent plain_system = [[7]]"
    by (simp_all add: plain_system_def set_source_def relay_start_def bridge_genesis_def genesis_build_def Let_def is_halted_def
        basic_is_halted_def send_message_def lane_send_message_def RuntimeOutboundLaneStorage_def queued_messages_def bridge_deposit_event_def)
  ultimately show ?thesis
    using lane_never_stuck[OF plain_source_ok plain_target_ok _ _ plain_system_reachable] by fastforce
qed

end
