(* ===== verification/Unincluded_Segment.thy ===== *)
theory Unincluded_Segment
  imports BTree_Map Weights
begin

text \<open>
  The unincluded segment of a parachain
  (\<open>cumulus/pallets/parachain-system/src/unincluded_segment.rs\<close> and the parts of \<open>lib.rs\<close> that
  drive it): the blocks that were built but that the relay chain has not included yet, and the
  \<open>SegmentTracker\<close> that adds up the message bandwidth these blocks use, so that a new block stays
  within the limits of the relay chain.

  A \<open>panic!\<close>, an \<open>expect\<close> or a failed \<open>assert!\<close> of the code is the value \<^const>\<open>None\<close>; an error that
  the code returns is \<open>Some (Inl e)\<close>.
\<close>

type_synonym ParaId = u32
type_synonym BlockNumber = u32

datatype UpgradeGoAhead = Abort | GoAhead

section \<open>Limits\<close>

record HrmpOutboundLimits =
  bytes_remaining :: u32
  messages_remaining :: u32

record OutboundBandwidthLimits =
  ump_messages_remaining :: u32
  ump_bytes_remaining :: u32
  limits_hrmp_outgoing :: "(ParaId, HrmpOutboundLimits) btree"

record 'h AbridgedHrmpChannel =
  max_capacity :: u32
  max_total_size :: u32
  max_message_size :: u32
  ch_msg_count :: u32
  total_size :: u32
  mqc_head :: "'h option"

record RelayDispatchQueueRemainingCapacity =
  remaining_count :: u32
  remaining_size :: u32

record 'h MessagingStateSnapshot =
  dmq_mqc_head :: 'h
  relay_dispatch_queue_remaining_capacity :: RelayDispatchQueueRemainingCapacity
  ingress_channels :: "(ParaId \<times> 'h AbridgedHrmpChannel) list"
  egress_channels :: "(ParaId \<times> 'h AbridgedHrmpChannel) list"

definition from_relay_chain_state :: "'h MessagingStateSnapshot \<Rightarrow> OutboundBandwidthLimits" where
  "from_relay_chain_state messaging_state =
     (let cap = relay_dispatch_queue_remaining_capacity messaging_state
      in \<lparr>ump_messages_remaining = remaining_count cap,
          ump_bytes_remaining = remaining_size cap,
          limits_hrmp_outgoing = bt_collect (map (\<lambda>(recipient, channel). (recipient,
            \<lparr>bytes_remaining = saturating_sub (max_total_size channel) (total_size channel),
             messages_remaining = saturating_sub (max_capacity channel) (ch_msg_count channel)\<rparr>))
            (egress_channels messaging_state))\<rparr>)"

section \<open>Bandwidth of a channel and of a block\<close>

datatype BandwidthUpdateError =
    HrmpMessagesOverflow ParaId u32 u32
  | HrmpBytesOverflow ParaId u32 u32
  | UmpMessagesOverflow u32 u32
  | UmpBytesOverflow u32 u32
  | InvalidHrmpWatermark BlockNumber BlockNumber
  | UpgradeGoAheadAlreadyProcessed

record HrmpChannelUpdate =
  msg_count :: u32
  total_bytes :: u32

definition hrmp_default :: HrmpChannelUpdate where
  "hrmp_default = \<lparr>msg_count = 0, total_bytes = 0\<rparr>"

definition hrmp_is_empty :: "HrmpChannelUpdate \<Rightarrow> bool" where
  "hrmp_is_empty self \<longleftrightarrow> msg_count self = 0 \<and> total_bytes self = 0"

definition hrmp_append ::
  "HrmpChannelUpdate \<Rightarrow> HrmpChannelUpdate \<Rightarrow> ParaId \<Rightarrow> OutboundBandwidthLimits \<Rightarrow>
   (BandwidthUpdateError, HrmpChannelUpdate) result option" where
  "hrmp_append self other recipient limits =
     (case bt_get (limits_hrmp_outgoing limits) recipient of None \<Rightarrow> None
      | Some lim \<Rightarrow>
        (let count = saturating_add (msg_count self) (msg_count other)
         in if count > messages_remaining lim
            then Some (Inl (HrmpMessagesOverflow recipient (messages_remaining lim) count))
            else (let sz = saturating_add (total_bytes self) (total_bytes other)
              in if sz > bytes_remaining lim
                 then Some (Inl (HrmpBytesOverflow recipient (bytes_remaining lim) sz))
                 else Some (Inr \<lparr>msg_count = count, total_bytes = sz\<rparr>))))"

text \<open>The plain subtraction wraps where the code would subtract more than was added.\<close>

definition hrmp_subtract :: "HrmpChannelUpdate \<Rightarrow> HrmpChannelUpdate \<Rightarrow> HrmpChannelUpdate" where
  "hrmp_subtract self other = \<lparr>msg_count = msg_count self - msg_count other,
     total_bytes = total_bytes self - total_bytes other\<rparr>"

record UsedBandwidth =
  ump_msg_count :: u32
  ump_total_bytes :: u32
  hrmp_outgoing :: "(ParaId, HrmpChannelUpdate) btree"

definition used_default :: UsedBandwidth where
  "used_default = \<lparr>ump_msg_count = 0, ump_total_bytes = 0, hrmp_outgoing = []\<rparr>"

text \<open>The loop over the channels of the appended block.\<close>

fun append_channels ::
  "(ParaId \<times> HrmpChannelUpdate) list \<Rightarrow> OutboundBandwidthLimits \<Rightarrow>
   (ParaId, HrmpChannelUpdate) btree \<Rightarrow>
   (BandwidthUpdateError, (ParaId, HrmpChannelUpdate) btree) result option" where
  "append_channels [] limits acc = Some (Inr acc)"
| "append_channels ((recipient, channel) # rest) limits acc =
     (let current = (case bt_get acc recipient of Some c \<Rightarrow> c | None \<Rightarrow> hrmp_default)
      in case hrmp_append current channel recipient limits of
           None \<Rightarrow> None
         | Some (Inl e) \<Rightarrow> Some (Inl e)
         | Some (Inr c) \<Rightarrow> append_channels rest limits (bt_insert recipient c acc))"

definition used_append ::
  "UsedBandwidth \<Rightarrow> UsedBandwidth \<Rightarrow> OutboundBandwidthLimits \<Rightarrow>
   (BandwidthUpdateError, UsedBandwidth) result option" where
  "used_append self other limits =
     (let count = saturating_add (ump_msg_count self) (ump_msg_count other)
      in if count > ump_messages_remaining limits
         then Some (Inl (UmpMessagesOverflow (ump_messages_remaining limits) count))
         else (let sz = saturating_add (ump_total_bytes self) (ump_total_bytes other)
           in if sz > ump_bytes_remaining limits
              then Some (Inl (UmpBytesOverflow (ump_bytes_remaining limits) sz))
              else (case append_channels (hrmp_outgoing other) limits (hrmp_outgoing self) of
                  None \<Rightarrow> None
                | Some (Inl e) \<Rightarrow> Some (Inl e)
                | Some (Inr chans) \<Rightarrow> Some (Inr \<lparr>ump_msg_count = count,
                    ump_total_bytes = sz, hrmp_outgoing = chans\<rparr>))))"

fun subtract_channels ::
  "(ParaId \<times> HrmpChannelUpdate) list \<Rightarrow> (ParaId, HrmpChannelUpdate) btree \<Rightarrow>
   (ParaId, HrmpChannelUpdate) btree option" where
  "subtract_channels [] acc = Some acc"
| "subtract_channels ((recipient, channel) # rest) acc =
     (case bt_get acc recipient of None \<Rightarrow> None
      | Some entry \<Rightarrow> subtract_channels rest (bt_insert recipient (hrmp_subtract entry channel) acc))"

definition used_subtract :: "UsedBandwidth \<Rightarrow> UsedBandwidth \<Rightarrow> UsedBandwidth option" where
  "used_subtract self other =
     (case subtract_channels (hrmp_outgoing other) (hrmp_outgoing self) of None \<Rightarrow> None
      | Some chans \<Rightarrow> Some \<lparr>ump_msg_count = ump_msg_count self - ump_msg_count other,
          ump_total_bytes = ump_total_bytes self - ump_total_bytes other,
          hrmp_outgoing = bt_retain (\<lambda>_ channel. \<not> hrmp_is_empty channel) chans\<rparr>)"

section \<open>The segment and its tracker\<close>

record 'h Ancestor =
  anc_used_bandwidth :: UsedBandwidth
  para_head_hash :: "'h option"
  anc_consumed_go_ahead_signal :: "UpgradeGoAhead option"

definition new_unchecked :: "UsedBandwidth \<Rightarrow> UpgradeGoAhead option \<Rightarrow> 'h Ancestor" where
  "new_unchecked used signal = \<lparr>anc_used_bandwidth = used, para_head_hash = None,
     anc_consumed_go_ahead_signal = signal\<rparr>"

definition replace_para_head_hash :: "'h Ancestor \<Rightarrow> 'h \<Rightarrow> 'h Ancestor" where
  "replace_para_head_hash self h = self\<lparr>para_head_hash := Some h\<rparr>"

datatype HrmpWatermarkUpdate = Head BlockNumber | Trunk BlockNumber

definition watermark_update_new :: "BlockNumber \<Rightarrow> BlockNumber \<Rightarrow> HrmpWatermarkUpdate" where
  "watermark_update_new watermark relay_parent_number =
     (if watermark \<ge> relay_parent_number then Head relay_parent_number else Trunk watermark)"

record SegmentTracker =
  used_bandwidth :: UsedBandwidth
  hrmp_watermark :: "BlockNumber option"
  consumed_go_ahead_signal :: "UpgradeGoAhead option"

definition tracker_default :: SegmentTracker where
  "tracker_default = \<lparr>used_bandwidth = used_default, hrmp_watermark = None,
     consumed_go_ahead_signal = None\<rparr>"

text \<open>The watermark check of \<open>append\<close>: a trunk update must be above the latest watermark.\<close>

fun watermark_conflict ::
  "BlockNumber option \<Rightarrow> HrmpWatermarkUpdate \<Rightarrow> BandwidthUpdateError option" where
  "watermark_conflict (Some watermark) (Trunk new) =
     (if new \<le> watermark then Some (InvalidHrmpWatermark new watermark) else None)"
| "watermark_conflict _ _ = None"

definition tracker_append ::
  "SegmentTracker \<Rightarrow> 'h Ancestor \<Rightarrow> HrmpWatermarkUpdate \<Rightarrow> OutboundBandwidthLimits \<Rightarrow>
   (BandwidthUpdateError, SegmentTracker) result option" where
  "tracker_append self block new_watermark limits =
     (if consumed_go_ahead_signal self \<noteq> None \<and> anc_consumed_go_ahead_signal block \<noteq> None
      then Some (Inl UpgradeGoAheadAlreadyProcessed)
      else case watermark_conflict (hrmp_watermark self) new_watermark of
        Some e \<Rightarrow> Some (Inl e)
      | None \<Rightarrow>
        (case used_append (used_bandwidth self) (anc_used_bandwidth block) limits of
           None \<Rightarrow> None
         | Some (Inl e) \<Rightarrow> Some (Inl e)
         | Some (Inr used) \<Rightarrow> Some (Inr \<lparr>used_bandwidth = used,
             hrmp_watermark = Some (case new_watermark of Trunk w \<Rightarrow> w | Head w \<Rightarrow> w),
             consumed_go_ahead_signal =
               (case anc_consumed_go_ahead_signal block of Some signal \<Rightarrow> Some signal
                | None \<Rightarrow> consumed_go_ahead_signal self)\<rparr>)))"

definition tracker_subtract :: "SegmentTracker \<Rightarrow> 'h Ancestor \<Rightarrow> SegmentTracker option" where
  "tracker_subtract self block =
     (case used_subtract (used_bandwidth self) (anc_used_bandwidth block) of None \<Rightarrow> None
      | Some used \<Rightarrow>
        (case anc_consumed_go_ahead_signal block of
           None \<Rightarrow> Some (self\<lparr>used_bandwidth := used\<rparr>)
         | Some signal \<Rightarrow>
             if consumed_go_ahead_signal self = Some signal
             then Some (self\<lparr>used_bandwidth := used, consumed_go_ahead_signal := None\<rparr>)
             else None))"

text \<open>\<open>Iterator::position\<close>.\<close>

fun position :: "('a \<Rightarrow> bool) \<Rightarrow> 'a list \<Rightarrow> nat option" where
  "position p [] = None"
| "position p (x # xs) = (if p x then Some 0 else map_option Suc (position p xs))"

definition size_after_included :: "'h \<Rightarrow> 'h Ancestor list \<Rightarrow> u32" where
  "size_after_included included_hash segment =
     (let pivot = (case position (\<lambda>a. para_head_hash a = Some included_hash) segment of
        Some p \<Rightarrow> p + 1 | None \<Rightarrow> 0)
      in of_nat (length segment - pivot))"

section \<open>The segment in the pallet\<close>

datatype UnincludedSegmentCapacity = ExpectParentIncluded | Value u32

fun capacity_get :: "UnincludedSegmentCapacity \<Rightarrow> u32" where
  "capacity_get ExpectParentIncluded = 1"
| "capacity_get (Value v) = v"

fun is_expecting_included_parent :: "UnincludedSegmentCapacity \<Rightarrow> bool" where
  "is_expecting_included_parent ExpectParentIncluded = True"
| "is_expecting_included_parent (Value _) = False"

text \<open>The storage items \<open>UnincludedSegment\<close> and \<open>AggregatedUnincludedSegment\<close>.\<close>

record 'h segment_state =
  unincluded_segment :: "'h Ancestor list"
  aggregated_segment :: "SegmentTracker option"

text \<open>\<open>on_initialize\<close>: the head hash of the latest block is known once its child starts.\<close>

definition update_parent_hash :: "'h \<Rightarrow> 'h segment_state \<Rightarrow> 'h segment_state" where
  "update_parent_hash parent st = (case rev (unincluded_segment st) of [] \<Rightarrow> st
     | ancestor # older \<Rightarrow> st\<lparr>unincluded_segment :=
         rev older @ [replace_para_head_hash ancestor parent]\<rparr>)"

text \<open>The search for the included block; a block without a head hash before it is a panic.\<close>

fun included_position :: "'h \<Rightarrow> 'h Ancestor list \<Rightarrow> nat option option" where
  "included_position h [] = Some None"
| "included_position h (block # rest) = (case para_head_hash block of None \<Rightarrow> None
     | Some head_hash \<Rightarrow> if head_hash = h then Some (Some 0)
         else map_option (map_option Suc) (included_position h rest))"

fun subtract_all :: "'h Ancestor list \<Rightarrow> SegmentTracker \<Rightarrow> SegmentTracker option" where
  "subtract_all [] agg = Some agg"
| "subtract_all (block # rest) agg = (case tracker_subtract agg block of None \<Rightarrow> None
     | Some agg' \<Rightarrow> subtract_all rest agg')"

definition select_included_head ::
  "'h option \<Rightarrow> UnincludedSegmentCapacity \<Rightarrow> 'h \<Rightarrow> 'h option" where
  "select_included_head para_head capacity parent_hash =
     (case (para_head, is_expecting_included_parent capacity) of
        (Some h, True) \<Rightarrow> if h = parent_hash then Some h else None
      | (Some h, False) \<Rightarrow> Some h
      | (None, True) \<Rightarrow> Some parent_hash
      | (None, False) \<Rightarrow> None)"

text \<open>
  \<open>maybe_drop_included_ancestors\<close>. \<open>para_head\<close> is the hash of the included head read from the relay
  chain's state proof, \<^const>\<open>None\<close> where the proof does not hold it.
\<close>

definition maybe_drop_included_ancestors ::
  "RuntimeDbWeight \<Rightarrow> 'h option \<Rightarrow> UnincludedSegmentCapacity \<Rightarrow> 'h \<Rightarrow> 'h segment_state \<Rightarrow>
   (Weight \<times> 'h segment_state) option" where
  "maybe_drop_included_ancestors db para_head capacity parent_hash st =
     (let w1 = weight_add weight_zero (db_reads db 1); chain = unincluded_segment st
      in case select_included_head para_head capacity parent_hash of None \<Rightarrow> None
         | Some head \<Rightarrow>
        (case included_position head chain of None \<Rightarrow> None
         | Some found \<Rightarrow>
           (let idx = (case found of None \<Rightarrow> 0 | Some i \<Rightarrow> i + 1);
                dropped = take idx chain;
                w2 = weight_add w1 (db_reads_writes db 1 1);
                new_len = length chain - length dropped
            in case (if dropped = [] then Some (w2, aggregated_segment st)
                     else case aggregated_segment st of None \<Rightarrow> None
                       | Some agg \<Rightarrow> (case subtract_all dropped agg of None \<Rightarrow> None
                           | Some agg' \<Rightarrow> Some (weight_add w2 (db_reads_writes db 1 1), Some agg')))
               of None \<Rightarrow> None
                | Some (w, agg') \<Rightarrow>
                    if (of_nat new_len :: u32) < capacity_get capacity
                    then Some (w, \<lparr>unincluded_segment = drop idx chain, aggregated_segment = agg'\<rparr>)
                    else None)))"

text \<open>
  \<open>adjust_egress_bandwidth_limits\<close>. The channels are sorted by recipient without repetition (as
  the relay chain's snapshot states), so the entry a binary search finds is the only one.
\<close>

definition adjust_channel ::
  "ParaId \<times> HrmpChannelUpdate \<Rightarrow> (ParaId \<times> 'h AbridgedHrmpChannel) list \<Rightarrow>
   (ParaId \<times> 'h AbridgedHrmpChannel) list" where
  "adjust_channel iu channels = (case iu of (para_id, used) \<Rightarrow>
     map (\<lambda>(i, c). (i, if i = para_id
       then c\<lparr>total_size := min (total_size c + total_bytes used) (max_total_size c),
              ch_msg_count := min (ch_msg_count c + msg_count used) (max_capacity c)\<rparr>
       else c)) channels)"

definition adjust_egress_bandwidth_limits ::
  "SegmentTracker option \<Rightarrow> 'h MessagingStateSnapshot option \<Rightarrow> 'h MessagingStateSnapshot option" where
  "adjust_egress_bandwidth_limits agg messaging_state =
     (case agg of None \<Rightarrow> messaging_state
      | Some tracker \<Rightarrow> (case messaging_state of None \<Rightarrow> None
        | Some ms \<Rightarrow>
          (let used = used_bandwidth tracker; cap = relay_dispatch_queue_remaining_capacity ms
           in Some (ms\<lparr>egress_channels :=
                fold adjust_channel (hrmp_outgoing used) (egress_channels ms),
              relay_dispatch_queue_remaining_capacity :=
                \<lparr>remaining_count = saturating_sub (remaining_count cap) (ump_msg_count used),
                 remaining_size = saturating_sub (remaining_size cap) (ump_total_bytes used)\<rparr>\<rparr>))))"

text \<open>
  The choice of upward messages in \<open>on_finalize\<close>: the longest prefix of the pending messages that
  fits, with the number and the size of its messages.
\<close>

fun ump_scan :: "u32 \<Rightarrow> u32 \<Rightarrow> bytes list \<Rightarrow> u32 \<times> u32 \<Rightarrow> u32 \<times> u32" where
  "ump_scan available_capacity available_size [] st = st"
| "ump_scan available_capacity available_size (msg # msgs) (cap_used, size_used) =
     (let new_cap = saturating_add cap_used 1;
          new_size = saturating_add size_used (of_nat (length msg))
      in case (checked_sub available_capacity new_cap, checked_sub available_size new_size) of
           (Some _, Some _) \<Rightarrow> ump_scan available_capacity available_size msgs (new_cap, new_size)
         | _ \<Rightarrow> (cap_used, size_used))"

definition take_upward_messages ::
  "RelayDispatchQueueRemainingCapacity \<Rightarrow> u32 \<Rightarrow> bytes list \<Rightarrow>
   (u32 \<times> u32) \<times> bytes list \<times> bytes list" where
  "take_upward_messages limits max_num up =
     (let available_capacity = min (remaining_count limits) max_num;
          (num, total) = ump_scan available_capacity (remaining_size limits) up (0, 0)
      in ((num, total), take (unat num) up, drop (unat num) up))"

text \<open>
  The end of \<open>on_finalize\<close>: the block's bandwidth is added to the tracker and the block to the
  segment. The \<open>expect\<close> on the result of \<open>append\<close> panics where the limits are exceeded.
\<close>

definition finalize_segment ::
  "u32 \<times> u32 \<Rightarrow> (ParaId \<times> bytes) list \<Rightarrow> UpgradeGoAhead option \<Rightarrow> BlockNumber \<Rightarrow> BlockNumber \<Rightarrow>
   OutboundBandwidthLimits \<Rightarrow> 'h segment_state \<Rightarrow> 'h segment_state option" where
  "finalize_segment ump outbound_messages relay_upgrade_go_ahead watermark relay_parent_number
     total_bandwidth_out st =
     (let outgoing = bt_collect (map (\<lambda>(recipient, data).
            (recipient, \<lparr>msg_count = 1, total_bytes = of_nat (length data)\<rparr>)) outbound_messages);
          used = \<lparr>ump_msg_count = fst ump, ump_total_bytes = snd ump, hrmp_outgoing = outgoing\<rparr>;
          agg = (case aggregated_segment st of Some a \<Rightarrow> a | None \<Rightarrow> tracker_default);
          signal = (if consumed_go_ahead_signal agg \<noteq> None then None else relay_upgrade_go_ahead);
          ancestor = new_unchecked used signal
      in case tracker_append agg ancestor
                (watermark_update_new watermark relay_parent_number) total_bandwidth_out of
           Some (Inr agg') \<Rightarrow> Some \<lparr>unincluded_segment = unincluded_segment st @ [ancestor],
             aggregated_segment = Some agg'\<rparr>
         | _ \<Rightarrow> None)"

end
