(* ===== verification/Relay_State.thy ===== *)
theory Relay_State
  imports Unincluded_Segment
begin

text \<open>
  Reading the relay chain's state out of a storage proof
  (\<open>cumulus/pallets/parachain-system/src/relay_state_snapshot.rs\<close>).

  The trie backend over a proof and the codec are parameters: a backend returns, for a key, an error, the
  absence of a value or its bytes, and a decoder returns a value or fails. The well-known keys are the
  constructors of \<open>RelayKey\<close>; their encoding is not modelled.
\<close>

section \<open>Data\<close>

record AsyncBackingParams =
  max_candidate_depth :: u32
  allowed_ancestry_len :: u32

record AbridgedHostConfiguration =
  max_code_size :: u32
  max_head_data_size :: u32
  max_upward_queue_count :: u32
  max_upward_queue_size :: u32
  max_upward_message_size :: u32
  max_upward_message_num_per_candidate :: u32
  hrmp_max_message_num_per_candidate :: u32
  validation_upgrade_cooldown :: BlockNumber
  validation_upgrade_delay :: BlockNumber
  async_backing_params :: AsyncBackingParams

datatype UpgradeRestriction = Present

datatype RelayKey =
    ACTIVE_CONFIG
  | CURRENT_SLOT
  | key_para_head ParaId
  | key_dmq_mqc_head ParaId
  | key_relay_dispatch_queue_remaining_capacity ParaId
  | key_relay_dispatch_queue_size ParaId
  | key_hrmp_ingress_channel_index ParaId
  | key_hrmp_egress_channel_index ParaId
  | key_hrmp_channels ParaId ParaId
  | key_upgrade_go_ahead_signal ParaId
  | key_upgrade_restriction_signal ParaId

datatype ReadEntryErr = Proof | Decode | Absent

datatype RelayStateError =
    RootMismatch
  | ReadEntry ReadEntryErr
  | ReadOptionalEntry ReadEntryErr
  | Slot ReadEntryErr
  | UpgradeGoAheadErr ReadEntryErr
  | UpgradeRestrictionErr ReadEntryErr
  | Config ReadEntryErr
  | DmqMqcHead ReadEntryErr
  | RelayDispatchQueueRemainingCapacityErr ReadEntryErr
  | HrmpIngressChannelIndex ReadEntryErr
  | HrmpEgressChannelIndex ReadEntryErr
  | HrmpChannel ParaId ParaId ReadEntryErr
  | ParaHead ReadEntryErr

type_synonym RelayBackend = "RelayKey \<Rightarrow> (unit, bytes option) result"

text \<open>The decoders of the values, and the hash of all zeros.\<close>

record 'h RelayCodec =
  hash_default :: 'h
  decode_hash :: "bytes \<Rightarrow> 'h option"
  decode_capacity :: "bytes \<Rightarrow> RelayDispatchQueueRemainingCapacity option"
  decode_queue_size :: "bytes \<Rightarrow> (u32 \<times> u32) option"
  decode_para_ids :: "bytes \<Rightarrow> ParaId list option"
  decode_channel :: "bytes \<Rightarrow> 'h AbridgedHrmpChannel option"
  decode_config :: "bytes \<Rightarrow> AbridgedHostConfiguration option"
  decode_head_data :: "bytes \<Rightarrow> bytes option"
  decode_slot :: "bytes \<Rightarrow> u64 option"
  decode_go_ahead :: "bytes \<Rightarrow> UpgradeGoAhead option"
  decode_restriction :: "bytes \<Rightarrow> UpgradeRestriction option"

record RelayChainStateProof =
  proof_para_id :: ParaId
  trie_backend :: RelayBackend

section \<open>Reading\<close>

definition map_err :: "('e \<Rightarrow> 'f) \<Rightarrow> ('e, 'a) result \<Rightarrow> ('f, 'a) result" where
  "map_err f r = (case r of Inl e \<Rightarrow> Inl (f e) | Inr a \<Rightarrow> Inr a)"

definition read_entry :: "RelayBackend \<Rightarrow> (bytes \<Rightarrow> 'a option) \<Rightarrow> RelayKey \<Rightarrow> 'a option \<Rightarrow> (ReadEntryErr, 'a) result" where
  "read_entry backend decode key fallback = (case backend key of
     Inl _ \<Rightarrow> Inl Proof
   | Inr (Some raw_entry) \<Rightarrow> (case decode raw_entry of None \<Rightarrow> Inl Decode | Some v \<Rightarrow> Inr v)
   | Inr None \<Rightarrow> (case fallback of Some v \<Rightarrow> Inr v | None \<Rightarrow> Inl Absent))"

definition read_optional_entry :: "RelayBackend \<Rightarrow> (bytes \<Rightarrow> 'a option) \<Rightarrow> RelayKey \<Rightarrow> (ReadEntryErr, 'a option) result" where
  "read_optional_entry backend decode key = (case read_entry backend decode key None of
     Inr v \<Rightarrow> Inr (Some v) | Inl Absent \<Rightarrow> Inr None | Inl e \<Rightarrow> Inl e)"

text \<open>\<open>RelayChainStateProof::new\<close>: \<open>open_proof\<close> builds the backend of a proof over a root, or fails where the
  proof does not contain the root.\<close>

definition state_proof_new ::
  "('p \<Rightarrow> 'h \<Rightarrow> RelayBackend option) \<Rightarrow> ParaId \<Rightarrow> 'h \<Rightarrow> 'p \<Rightarrow> (RelayStateError, RelayChainStateProof) result" where
  "state_proof_new open_proof para_id relay_parent_storage_root p = (case open_proof p relay_parent_storage_root of
     None \<Rightarrow> Inl RootMismatch | Some b \<Rightarrow> Inr \<lparr>proof_para_id = para_id, trie_backend = b\<rparr>)"

definition read_remaining_capacity ::
  "'h RelayCodec \<Rightarrow> RelayChainStateProof \<Rightarrow> AbridgedHostConfiguration \<Rightarrow>
   (RelayStateError, RelayDispatchQueueRemainingCapacity) result" where
  "read_remaining_capacity codec self host_config =
     (let b = trie_backend self; para_id = proof_para_id self
      in case read_optional_entry b (decode_capacity codec) (key_relay_dispatch_queue_remaining_capacity para_id) of
           Inr (Some r) \<Rightarrow> Inr r
         | Inr None \<Rightarrow>
             (case read_entry b (decode_queue_size codec) (key_relay_dispatch_queue_size para_id) (Some (0, 0)) of
                Inl e \<Rightarrow> Inl (RelayDispatchQueueRemainingCapacityErr e)
              | Inr (used_count, used_size) \<Rightarrow> Inr \<lparr>remaining_count = saturating_sub (max_upward_queue_count host_config) used_count,
                  remaining_size = saturating_sub (max_upward_queue_size host_config) used_size\<rparr>)
         | Inl e \<Rightarrow> Inl (RelayDispatchQueueRemainingCapacityErr e))"

text \<open>The loop over the index of ingress or egress channels; \<open>channel_of\<close> is the pair of sender and recipient.\<close>

fun read_channels ::
  "'h RelayCodec \<Rightarrow> RelayChainStateProof \<Rightarrow> (ParaId \<Rightarrow> ParaId \<times> ParaId) \<Rightarrow> ParaId list \<Rightarrow>
   (RelayStateError, (ParaId \<times> 'h AbridgedHrmpChannel) list) result" where
  "read_channels codec self channel_of [] = Inr []"
| "read_channels codec self channel_of (i # rest) =
     (case channel_of i of (sender, recipient) \<Rightarrow>
       (case read_entry (trie_backend self) (decode_channel codec) (key_hrmp_channels sender recipient) None of
          Inl e \<Rightarrow> Inl (HrmpChannel sender recipient e)
        | Inr c \<Rightarrow> (case read_channels codec self channel_of rest of Inl e \<Rightarrow> Inl e | Inr cs \<Rightarrow> Inr ((i, c) # cs))))"

definition read_messaging_state_snapshot ::
  "'h RelayCodec \<Rightarrow> RelayChainStateProof \<Rightarrow> AbridgedHostConfiguration \<Rightarrow>
   (RelayStateError, 'h MessagingStateSnapshot) result" where
  "read_messaging_state_snapshot codec self host_config =
     (let b = trie_backend self; para_id = proof_para_id self
      in case read_entry b (decode_hash codec) (key_dmq_mqc_head para_id) (Some (hash_default codec)) of
           Inl e \<Rightarrow> Inl (DmqMqcHead e)
         | Inr dmq_head \<Rightarrow>
        (case read_remaining_capacity codec self host_config of
           Inl e \<Rightarrow> Inl e
         | Inr capacity \<Rightarrow>
        (case read_entry b (decode_para_ids codec) (key_hrmp_ingress_channel_index para_id) (Some []) of
           Inl e \<Rightarrow> Inl (HrmpIngressChannelIndex e)
         | Inr ingress_channel_index \<Rightarrow>
        (case read_entry b (decode_para_ids codec) (key_hrmp_egress_channel_index para_id) (Some []) of
           Inl e \<Rightarrow> Inl (HrmpEgressChannelIndex e)
         | Inr egress_channel_index \<Rightarrow>
        (case read_channels codec self (\<lambda>sender. (sender, para_id)) ingress_channel_index of
           Inl e \<Rightarrow> Inl e
         | Inr ingress \<Rightarrow>
        (case read_channels codec self (\<lambda>recipient. (para_id, recipient)) egress_channel_index of
           Inl e \<Rightarrow> Inl e
         | Inr egress \<Rightarrow> Inr \<lparr>dmq_mqc_head = dmq_head, relay_dispatch_queue_remaining_capacity = capacity,
             ingress_channels = ingress, egress_channels = egress\<rparr>))))))"

definition read_abridged_host_configuration ::
  "'h RelayCodec \<Rightarrow> RelayChainStateProof \<Rightarrow> (RelayStateError, AbridgedHostConfiguration) result" where
  "read_abridged_host_configuration codec self =
     map_err Config (read_entry (trie_backend self) (decode_config codec) ACTIVE_CONFIG None)"

definition read_included_para_head :: "'h RelayCodec \<Rightarrow> RelayChainStateProof \<Rightarrow> (RelayStateError, bytes) result" where
  "read_included_para_head codec self =
     map_err ParaHead (read_entry (trie_backend self) (decode_head_data codec) (key_para_head (proof_para_id self)) None)"

definition read_slot :: "'h RelayCodec \<Rightarrow> RelayChainStateProof \<Rightarrow> (RelayStateError, u64) result" where
  "read_slot codec self = map_err Slot (read_entry (trie_backend self) (decode_slot codec) CURRENT_SLOT None)"

definition read_upgrade_go_ahead_signal ::
  "'h RelayCodec \<Rightarrow> RelayChainStateProof \<Rightarrow> (RelayStateError, UpgradeGoAhead option) result" where
  "read_upgrade_go_ahead_signal codec self = map_err UpgradeGoAheadErr
     (read_optional_entry (trie_backend self) (decode_go_ahead codec) (key_upgrade_go_ahead_signal (proof_para_id self)))"

definition read_upgrade_restriction_signal ::
  "'h RelayCodec \<Rightarrow> RelayChainStateProof \<Rightarrow> (RelayStateError, UpgradeRestriction option) result" where
  "read_upgrade_restriction_signal codec self = map_err UpgradeRestrictionErr
     (read_optional_entry (trie_backend self) (decode_restriction codec)
       (key_upgrade_restriction_signal (proof_para_id self)))"

text \<open>The public readers of arbitrary keys.\<close>

definition proof_read_entry ::
  "RelayChainStateProof \<Rightarrow> (bytes \<Rightarrow> 'a option) \<Rightarrow> RelayKey \<Rightarrow> 'a option \<Rightarrow> (RelayStateError, 'a) result" where
  "proof_read_entry self decode key fallback = map_err ReadEntry (read_entry (trie_backend self) decode key fallback)"

definition proof_read_optional_entry ::
  "RelayChainStateProof \<Rightarrow> (bytes \<Rightarrow> 'a option) \<Rightarrow> RelayKey \<Rightarrow> (RelayStateError, 'a option) result" where
  "proof_read_optional_entry self decode key = map_err ReadOptionalEntry (read_optional_entry (trie_backend self) decode key)"

section \<open>What a read says about the backend\<close>

lemma read_channels_index:
  "read_channels codec self channel_of ids = Inr cs \<Longrightarrow> map fst cs = ids"
  by (induction ids arbitrary: cs) (auto split: prod.splits sum.splits)

lemma snapshot_channels_sorted:
  assumes "read_messaging_state_snapshot codec self host_config = Inr ms"
    and "\<And>raw ids key. trie_backend self key = Inr (Some raw) \<Longrightarrow> decode_para_ids codec raw = Some ids \<Longrightarrow> sorted_wrt (<) ids"
  shows "bt_wf (ingress_channels ms) \<and> bt_wf (egress_channels ms)"
proof -
  have ids: "sorted_wrt (<) ids" if "read_entry (trie_backend self) (decode_para_ids codec) key (Some []) = Inr ids" for key ids
    using that assms(2) by (fastforce simp: read_entry_def split: sum.splits option.splits)
  from assms(1) show ?thesis
    by (auto simp: read_messaging_state_snapshot_def Let_def bt_wf_def dest!: read_channels_index ids split: sum.splits)
qed

end
