(* ===== verification/Arith128.thy ===== *)
theory Arith128
  imports Rust_Prelude
begin

text \<open>
  The 128 bit helpers of \<open>sp-arithmetic\<close> (\<open>substrate/primitives/arithmetic/src/helpers_128bit.rs\<close>):
  the binary greatest common divisor, the product of two 128 bit numbers as a pair of words, its
  division by a word, the rounding product \<open>a * b / c\<close> and the integer square root. Each is related
  to the operation on natural numbers it computes.
\<close>

unbundle bit_operations_syntax

type_synonym u128 = "128 word"

section \<open>Shifts and masks read as arithmetic\<close>

named_theorems bits_arith \<open>shifts and masks as division, multiplication and remainder\<close>

lemma unat_shift_right [bits_arith]: "unat (drop_bit n a :: 'a::len word) = unat a div 2 ^ n"
  unfolding unat_drop_bit_eq by (rule drop_bit_eq_div)

lemma unat_shift_left [bits_arith]: "unat (push_bit n a :: 'a::len word) = unat a * 2 ^ n mod 2 ^ LENGTH('a)"
  unfolding unsigned_push_bit_eq by (simp only: push_bit_eq_mult take_bit_eq_mod)

lemma unat_low_bit [bits_arith]: "unat (a AND 1 :: 'a::len word) = unat a mod 2"
  unfolding unsigned_and_eq unsigned_1 by (rule and_one_eq)

section \<open>Greatest common divisor\<close>

lemma half_less: "a \<noteq> 0 \<Longrightarrow> unat (drop_bit 1 a :: u128) < unat a"
  by (simp only: unat_shift_right) (simp add: unat_gt_0)

function gcd128 :: "u128 \<Rightarrow> u128 \<Rightarrow> u128" where
  "gcd128 a b =
     (if a = b then b
      else if a = 0 then b else if b = 0 then a
      else if a AND 1 = 0 \<and> b AND 1 = 1 then gcd128 (drop_bit 1 a) b
      else if a AND 1 = 1 \<and> b AND 1 = 0 then gcd128 (drop_bit 1 b) a
      else if a AND 1 = 0 \<and> b AND 1 = 0 then push_bit 1 (gcd128 (drop_bit 1 a) (drop_bit 1 b))
      else let x = min a b; y = max a b in gcd128 (drop_bit 1 (y - x)) x)"
  by pat_completeness auto

termination
proof (relation "measure (\<lambda>(a, b). unat a + unat b)")
  fix a b x y :: u128
  assume *: "a \<noteq> b" "a \<noteq> 0" "b \<noteq> 0" "x = min a b" "y = max a b"
  then have "x < y" "y \<noteq> 0" "unat x + unat y = unat a + unat b" by (auto simp: min_def max_def)
  moreover from \<open>x < y\<close> have "y - x \<noteq> 0" "unat (y - x) \<le> unat y" by (auto simp: u_arith unat_sub_if')
  moreover note half_less[OF \<open>y - x \<noteq> 0\<close>]
  ultimately show "((drop_bit 1 (y - x), x), a, b) \<in> measure (\<lambda>(a, b). unat a + unat b)" by simp
next
  fix a b :: u128
  assume "a \<noteq> 0" "b \<noteq> 0"
  from half_less[OF this(1)] half_less[OF this(2)]
  show "((drop_bit 1 a, b), a, b) \<in> measure (\<lambda>(a, b). unat a + unat b)"
    "((drop_bit 1 b, a), a, b) \<in> measure (\<lambda>(a, b). unat a + unat b)"
    "((drop_bit 1 a, drop_bit 1 b), a, b) \<in> measure (\<lambda>(a, b). unat a + unat b)" by simp_all
qed simp

declare gcd128.simps [simp del]

lemma word_even_iff: "a AND 1 = (0 :: 'a::len word) \<longleftrightarrow> even (unat a)"
  by (simp only: word_unat_eq_iff unat_low_bit unsigned_0 even_iff_mod_2_eq_zero)

lemma word_odd_iff: "a AND 1 = (1 :: 'a::len word) \<longleftrightarrow> odd (unat a)"
  by (simp only: word_unat_eq_iff unat_low_bit unsigned_1 odd_iff_mod_2_eq_one)

lemma gcd_halve: "even a \<Longrightarrow> odd b \<Longrightarrow> gcd (a div 2) b = gcd (a :: nat) b"
  by (auto simp: gcd_mult_left_left_cancel coprime_commute elim!: evenE)

lemma gcd_halve_both: "even a \<Longrightarrow> even b \<Longrightarrow> gcd (a div 2) (b div 2) * 2 = gcd (a :: nat) b"
  by (auto simp: gcd_mult_distrib_nat mult.commute elim!: evenE)

lemma unat_gcd128: "unat (gcd128 a b) = gcd (unat a) (unat b)"
proof (induction a b rule: gcd128.induct)
  case (1 a b)
  have half: "unat (drop_bit 1 w :: u128) = unat w div 2" for w by (simp only: unat_shift_right power_one_right)
  note parity = word_even_iff word_odd_iff
  consider "a = b \<or> a = 0 \<or> b = 0" | "a \<noteq> b" "a \<noteq> 0" "b \<noteq> 0" "even (unat a)" "odd (unat b)"
    | "a \<noteq> b" "a \<noteq> 0" "b \<noteq> 0" "odd (unat a)" "even (unat b)"
    | "a \<noteq> b" "a \<noteq> 0" "b \<noteq> 0" "even (unat a)" "even (unat b)"
    | "a \<noteq> b" "a \<noteq> 0" "b \<noteq> 0" "odd (unat a)" "odd (unat b)" by blast
  then show ?case
  proof cases
    case c: 1
    then show ?thesis by (subst gcd128.simps) auto
  next
    case 2
    with 1(1) have "unat (gcd128 (drop_bit 1 a) b) = gcd (unat a div 2) (unat b)"
      by (simp only: parity half simp_thms)
    with 2 show ?thesis by (subst gcd128.simps) (simp only: parity if_True if_False simp_thms gcd_halve)
  next
    case 3
    with 1(2) have "unat (gcd128 (drop_bit 1 b) a) = gcd (unat b div 2) (unat a)"
      by (simp only: parity half simp_thms zero_neq_one)
    also have "\<dots> = gcd (unat a) (unat b)" using 3 gcd_halve[of "unat b" "unat a"] by (simp add: gcd.commute)
    finally show ?thesis using 3 by (subst gcd128.simps) (simp only: parity if_True if_False simp_thms)
  next
    case 4
    with 1(3) have IH: "unat (gcd128 (drop_bit 1 a) (drop_bit 1 b)) = gcd (unat a div 2) (unat b div 2)"
      by (simp only: parity half simp_thms zero_neq_one)
    have "gcd (unat a) (unat b) \<le> unat a" using 4(2) by (simp add: unat_gt_0 gcd_le1_nat)
    then have "gcd (unat a) (unat b) < 2 ^ 128" using unat_bound[of a] by simp
    then have "unat (push_bit 1 (gcd128 (drop_bit 1 a) (drop_bit 1 b))) = gcd (unat a) (unat b)"
      by (simp only: unat_shift_left IH power_one_right gcd_halve_both[OF 4(4,5)]) simp
    with 4 show ?thesis by (subst gcd128.simps) (simp only: parity if_True if_False simp_thms)
  next
    case 5
    define x y where "x = min a b" and "y = max a b"
    from 5 have lt: "x < y" and o: "odd (unat x)" "odd (unat y)" and "gcd (unat y) (unat x) = gcd (unat a) (unat b)"
      by (auto simp: x_def y_def min_def max_def gcd.commute)
    moreover from 5 1(4)[OF _ _ _ _ _ _ x_def y_def] have "unat (gcd128 (drop_bit 1 (y - x)) x) = gcd (unat (y - x) div 2) (unat x)"
      by (simp only: parity half simp_thms)
    moreover from lt have "unat (y - x) = unat y - unat x" by (intro unat_minus_exact) (simp add: u_arith)
    moreover have "even (unat y - unat x)" using o by simp
    moreover have "gcd (unat y - unat x) (unat x) = gcd (unat y) (unat x)" using lt by (simp add: gcd_diff1_nat word_less_nat_alt)
    ultimately have "unat (gcd128 (drop_bit 1 (y - x)) x) = gcd (unat a) (unat b)" using gcd_halve o by simp
    with 5 show ?thesis by (subst gcd128.simps) (simp only: parity if_True if_False simp_thms x_def y_def Let_def)
  qed
qed

section \<open>Double words\<close>

record Double128 =
  d_high :: u128
  d_low :: u128

definition low_64 :: "u128 \<Rightarrow> u128" where
  "low_64 a = a AND (push_bit 64 1 - 1)"

definition high_64 :: "u128 \<Rightarrow> u128" where
  "high_64 a = drop_bit 64 a"

definition neg128 :: "u128 \<Rightarrow> u128" where
  "neg128 a = NOT a + 1"

definition div128 :: "u128 \<Rightarrow> u128" where
  "div128 a = neg128 a div a + 1"

definition mod128 :: "u128 \<Rightarrow> u128" where
  "mod128 a = neg128 a mod a"

definition try_into_u128 :: "Double128 \<Rightarrow> (unit, u128) result" where
  "try_into_u128 self = (if d_high self = 0 then Inr (d_low self) else Inl ())"

definition double_zero :: Double128 where
  "double_zero = \<lparr>d_high = 0, d_low = 0\<rparr>"

definition left_shift_64 :: "u128 \<Rightarrow> Double128" where
  "left_shift_64 scaled_value = \<lparr>d_high = drop_bit 64 scaled_value, d_low = push_bit 64 scaled_value\<rparr>"

definition from_low :: "u128 \<Rightarrow> Double128" where
  "from_low low = \<lparr>d_high = 0, d_low = low\<rparr>"

definition low_part :: "Double128 \<Rightarrow> Double128" where
  "low_part self = self\<lparr>d_high := 0\<rparr>"

definition overflowing_add :: "'a::len word \<Rightarrow> 'a word \<Rightarrow> 'a word \<times> bool" where
  "overflowing_add a b = (a + b, 2 ^ LENGTH('a) \<le> unat a + unat b)"

lemma unat_plus_wrapped:
  assumes "2 ^ LENGTH('a) \<le> unat a + unat b"
  shows "unat (a + b :: 'a::len word) = unat a + unat b - 2 ^ LENGTH('a)"
proof -
  have "unat (a + b) = (unat a + unat b) mod 2 ^ LENGTH('a)" by (simp only: unat_word_ariths)
  also have "\<dots> = (unat a + unat b - 2 ^ LENGTH('a)) mod 2 ^ LENGTH('a)" by (rule le_mod_geq[OF assms])
  also have "unat a + unat b - 2 ^ LENGTH('a) < 2 ^ LENGTH('a)" using unat_bound[of a] unat_bound[of b] by linarith
  then have "(unat a + unat b - 2 ^ LENGTH('a)) mod 2 ^ LENGTH('a) = unat a + unat b - 2 ^ LENGTH('a)" by (rule mod_less)
  finally show ?thesis .
qed

lemma overflowing_add_code [code]: "overflowing_add a b = (a + b :: 'a::len word, a + b < a)"
proof -
  have "a + b < a \<longleftrightarrow> 2 ^ LENGTH('a) \<le> unat a + unat b"
  proof (cases "2 ^ LENGTH('a) \<le> unat a + unat b")
    case True
    then show ?thesis unfolding word_less_nat_alt unat_plus_wrapped[OF True] using unat_bound[of b] by linarith
  qed (simp add: word_less_nat_alt unat_plus_exact)
  then show ?thesis by (simp add: overflowing_add_def)
qed

definition double_add :: "Double128 \<Rightarrow> Double128 \<Rightarrow> Double128" where
  "double_add self b =
     (let (low, overflow) = overflowing_add (d_low self) (d_low b);
          carry = of_bool overflow
      in \<lparr>d_high = d_high self + d_high b + carry, d_low = low\<rparr>)"

definition product_of :: "u128 \<Rightarrow> u128 \<Rightarrow> Double128" where
  "product_of a b =
     (let a_low = low_64 a; a_high = high_64 a; b_low = low_64 b; b_high = high_64 b;
          f = a_low * b_low; ou = a_low * b_high; i = a_high * b_low; l = a_high * b_high;
          fl = \<lparr>d_high = l, d_low = f\<rparr>
      in double_add (double_add fl (left_shift_64 i)) (left_shift_64 ou))"

text \<open>The number a pair of words stands for.\<close>

definition double_val :: "Double128 \<Rightarrow> nat" where
  "double_val d = unat (d_high d) * 2 ^ 128 + unat (d_low d)"

lemma unat_low_64 [bits_arith]: "unat (low_64 a) = unat a mod 2 ^ 64"
proof -
  have "push_bit 64 1 - 1 = (mask 64 :: u128)" by (simp add: mask_eq_exp_minus_1 push_bit_eq_mult)
  then show ?thesis
    unfolding low_64_def by (simp only: unsigned_take_bit_eq flip: take_bit_eq_mask) (rule take_bit_eq_mod)
qed

lemma unat_high_64 [bits_arith]: "unat (high_64 a) = unat a div 2 ^ 64"
  by (simp only: high_64_def unat_shift_right)

lemma double_val_bound: "double_val d < 2 ^ 256"
proof -
  have "unat (d_high d) + 1 \<le> 2 ^ 128" using unat_bound[of "d_high d"] by simp
  then have "(unat (d_high d) + 1) * 2 ^ 128 \<le> 2 ^ 128 * 2 ^ 128" by (rule mult_le_mono1)
  with unat_bound[of "d_low d"] show ?thesis by (simp add: double_val_def)
qed

lemma carry_split:
  "unat a + unat b = unat (a + b :: 'a::len word) + of_bool (snd (overflowing_add a b)) * 2 ^ LENGTH('a)"
  using unat_plus_wrapped[of a b] unat_plus_exact[of a b]
  by (cases "2 ^ LENGTH('a) \<le> unat a + unat b") (simp_all add: overflowing_add_def)

lemma double_val_add:
  assumes "double_val a + double_val b < 2 ^ 256"
  shows "double_val (double_add a b) = double_val a + double_val b"
proof -
  define c :: nat where "c = of_bool (snd (overflowing_add (d_low a) (d_low b)))"
  have low: "unat (d_low a) + unat (d_low b) = unat (d_low a + d_low b) + c * 2 ^ 128"
    using carry_split[of "d_low a" "d_low b"] by (simp only: c_def) simp
  have sum: "double_val a + double_val b =
      (unat (d_high a) + unat (d_high b) + c) * 2 ^ 128 + unat (d_low a + d_low b)"
    using low by (simp only: double_val_def ring_distribs)
  with assms have "unat (d_high a) + unat (d_high b) + c < 2 ^ 128" by simp
  moreover have "unat (of_bool (snd (overflowing_add (d_low a) (d_low b))) :: u128) = c" by (simp add: c_def)
  ultimately have "unat (d_high a + d_high b + of_bool (snd (overflowing_add (d_low a) (d_low b)))) = unat (d_high a) + unat (d_high b) + c"
    by (simp only: unat_word_ariths mod_add_left_eq) simp
  then show ?thesis unfolding sum by (simp add: double_val_def double_add_def overflowing_add_def Let_def)
qed

lemma double_val_shift: "double_val (left_shift_64 s) = unat s * 2 ^ 64"
proof -
  have "unat s * 2 ^ 64 mod 2 ^ 128 = (unat s mod 2 ^ 64) * 2 ^ 64"
    by (simp only: mult_mod_left[of "unat s" "2 ^ 64" "2 ^ 64"] flip: power_add) simp
  moreover have "unat s * 2 ^ 64 = (unat s div 2 ^ 64 * 2 ^ 64 + unat s mod 2 ^ 64) * 2 ^ 64"
    by (simp only: div_mult_mod_eq)
  ultimately have "unat s * 2 ^ 64 = unat s div 2 ^ 64 * 2 ^ 128 + unat s * 2 ^ 64 mod 2 ^ 128"
    by (simp only: ring_distribs mult.assoc flip: power_add) simp
  then show ?thesis by (simp add: double_val_def left_shift_64_def bits_arith)
qed

lemma double_val_product: "double_val (product_of a b) = unat a * unat b"
proof -
  define al ah bl bh where "al = unat a mod 2 ^ 64" "ah = unat a div 2 ^ 64" "bl = unat b mod 2 ^ 64" "bh = unat b div 2 ^ 64"
  note defs = this
  have ab: "unat a = ah * 2 ^ 64 + al" "unat b = bh * 2 ^ 64 + bl" by (simp_all only: defs div_mult_mod_eq)
  have lim: "al < 2 ^ 64" "ah < 2 ^ 64" "bl < 2 ^ 64" "bh < 2 ^ 64"
    using unat_bound[of a] unat_bound[of b] by (auto simp: defs less_mult_imp_div_less)
  have mul: "unat (x * y :: u128) = unat x * unat y" if "unat x < 2 ^ 64" "unat y < 2 ^ 64" for x y
    using mult_strict_mono'[OF that] by (intro unat_mult_exact) simp
  let ?fl = "\<lparr>d_high = high_64 a * high_64 b, d_low = low_64 a * low_64 b\<rparr>"
  have parts: "unat (low_64 a) = al" "unat (high_64 a) = ah" "unat (low_64 b) = bl" "unat (high_64 b) = bh"
    by (simp_all only: bits_arith defs)
  have fl: "double_val ?fl = ah * bh * 2 ^ 128 + al * bl"
    using lim by (simp add: double_val_def mul parts)
  have i: "double_val (left_shift_64 (high_64 a * low_64 b)) = ah * bl * 2 ^ 64"
    and ou: "double_val (left_shift_64 (low_64 a * high_64 b)) = al * bh * 2 ^ 64"
    using lim by (simp_all only: double_val_shift mul parts)
  have total: "ah * bh * 2 ^ 128 + al * bl + ah * bl * 2 ^ 64 + al * bh * 2 ^ 64 = unat a * unat b"
    by (simp only: ab) algebra
  have "unat a * unat b < 2 ^ 128 * 2 ^ 128"
    using unat_bound[of a] unat_bound[of b] by (intro mult_strict_mono') simp_all
  then have bound: "unat a * unat b < 2 ^ 256" by simp
  have "double_val (double_add ?fl (left_shift_64 (high_64 a * low_64 b))) = ah * bh * 2 ^ 128 + al * bl + ah * bl * 2 ^ 64"
    using total bound by (subst double_val_add) (simp_all only: fl i)
  with total bound show ?thesis
    unfolding product_of_def Let_def by (subst double_val_add) (simp_all only: ou)
qed

section \<open>Division of a double word\<close>

lemma double_val_low_part: "double_val (low_part d) = unat (d_low d)"
  by (simp add: double_val_def low_part_def)

lemma double_val_round:
  "double_val (double_add (product_of h r) (low_part d)) = unat h * unat r + unat (d_low d)"
proof -
  have "unat h * unat r \<le> (2 ^ 128 - 1) * (2 ^ 128 - 1)"
    using unat_le_umax[of h] unat_le_umax[of r] by (intro mult_le_mono) simp_all
  with unat_bound[of "d_low d"] have "unat h * unat r + unat (d_low d) < 2 ^ 256" by simp
  then show ?thesis by (subst double_val_add) (simp_all only: double_val_product double_val_low_part)
qed

text \<open>
  The loop of \<open>div\<close>: \<open>q\<close> and \<open>r\<close> are the quotient and the remainder of \<open>2 ^ 128\<close> by the divisor. It
  ends because every round lowers the number \<open>self\<close> stands for.
\<close>

function double_div_loop :: "u128 \<Rightarrow> u128 \<Rightarrow> Double128 \<Rightarrow> Double128 \<Rightarrow> Double128 \<times> Double128" where
  "double_div_loop q r x self =
     (if d_high self \<noteq> 0
      then double_div_loop q r (double_add x (product_of (d_high self) q))
        (double_add (product_of (d_high self) r) (low_part self))
      else (x, self))"
  by pat_completeness auto

termination
proof (relation "measure (\<lambda>(q, r, x, self). double_val self)")
  fix q r :: u128 and x self :: Double128
  assume "d_high self \<noteq> 0"
  moreover have "unat r < 2 ^ 128" using unat_bound[of r] by simp
  ultimately have "unat (d_high self) * unat r < unat (d_high self) * 2 ^ 128"
    by (intro mult_strict_left_mono) (simp_all only: unat_gt_0 not_False_eq_True)
  then show "((q, r, double_add x (product_of (d_high self) q), double_add (product_of (d_high self) r) (low_part self)), q, r, x, self)
      \<in> measure (\<lambda>(q, r, x, self). double_val self)"
    by (simp only: in_measure prod.case double_val_round double_val_def[of self] add_less_cancel_right)
qed simp

declare double_div_loop.simps [simp del]

definition double_div :: "Double128 \<Rightarrow> u128 \<Rightarrow> Double128 \<times> u128" where
  "double_div self rhs =
     (if rhs = 1 then (self, 0)
      else let q = div128 rhs; r = mod128 rhs;
               (x, self) = double_div_loop q r double_zero self
           in (double_add x (from_low (d_low self div rhs)), d_low self mod rhs))"

lemma div128_mod128:
  assumes "1 < unat c"
  shows "unat (div128 c) * unat c + unat (mod128 c) = 2 ^ 128"
proof -
  have neg: "unat (neg128 c) = 2 ^ 128 - unat c"
  proof -
    have "neg128 c = 0 - c" by (simp add: neg128_def minus_eq_not_plus_1)
    moreover have "unat (0 - c) = 2 ^ 128 - unat c"
      using assms by (simp only: unat_sub_if' unsigned_0 word_size) simp
    ultimately show ?thesis by (simp only:)
  qed
  have "(2 ^ 128 - unat c) div unat c + 1 = 2 ^ 128 div unat c"
    using assms unat_bound[of c] by (subst (2) le_div_geq) simp_all
  moreover have "2 ^ 128 div unat c < 2 ^ 128" using assms by (intro div_less_dividend) simp_all
  ultimately have q: "unat (div128 c) = 2 ^ 128 div unat c"
    unfolding div128_def by (subst unat_plus_exact) (simp_all only: unat_div neg unsigned_1 len_num1, simp_all)
  have "unat (mod128 c) = 2 ^ 128 mod unat c"
    unfolding mod128_def unat_mod neg using unat_bound[of c] by (intro le_mod_geq[symmetric]) simp
  with q show ?thesis by (simp only: div_mult_mod_eq)
qed

lemma double_div_loop_exact:
  assumes "unat q * c + unat r = 2 ^ 128" "double_val x * c + double_val self < 2 ^ 256" "0 < c"
  shows "case double_div_loop q r x self of (x', self') \<Rightarrow>
    double_val x' * c + double_val self' = double_val x * c + double_val self \<and> d_high self' = 0"
  using assms
proof (induction q r x self rule: double_div_loop.induct)
  case (1 q r x self)
  show ?case
  proof (cases "d_high self = 0")
    case False
    let ?h = "d_high self"
    let ?x = "double_add x (product_of ?h q)" and ?self = "double_add (product_of ?h r) (low_part self)"
    have total: "(double_val x + unat ?h * unat q) * c + (unat ?h * unat r + unat (d_low self)) =
        double_val x * c + double_val self"
      unfolding double_val_def[of self] 1(2)[symmetric] by (simp only: ring_distribs mult.assoc add.assoc mult.commute[of c])
    have "(double_val x + unat ?h * unat q) * 1 \<le> (double_val x + unat ?h * unat q) * c"
      using 1(4) by (intro mult_le_mono2) simp
    moreover have "(double_val x + unat ?h * unat q) * c \<le> double_val x * c + double_val self"
      unfolding total[symmetric] by (rule le_add1)
    ultimately have "double_val x + unat ?h * unat q < 2 ^ 256" using 1(3) by (simp only: mult_1_right)
    then have x: "double_val ?x = double_val x + unat ?h * unat q"
      by (subst double_val_add) (simp_all only: double_val_product)
    have same: "double_val ?x * c + double_val ?self = double_val x * c + double_val self"
      by (simp only: x double_val_round total)
    have step: "double_div_loop q r x self = double_div_loop q r ?x ?self"
      using False by (subst double_div_loop.simps) (simp only: if_True not_False_eq_True)
    have "double_val ?x * c + double_val ?self < 2 ^ 256" unfolding same by (rule 1(3))
    from 1(1)[OF False 1(2) this 1(4)] show ?thesis unfolding same step .
  qed (subst double_div_loop.simps, simp)
qed

lemma double_val_zero [simp]: "double_val double_zero = 0"
  by (simp add: double_val_def double_zero_def)

lemma double_div_exact:
  assumes "c \<noteq> 0" "double_div d c = (quo, rmd)"
  shows "double_val quo = double_val d div unat c \<and> unat rmd = double_val d mod unat c"
proof (cases "c = 1")
  case True
  with assms show ?thesis by (simp add: double_div_def)
next
  case False
  with assms(1) have c: "1 < unat c" by (simp add: word_unat_eq_iff)
  obtain x s where loop: "double_div_loop (div128 c) (mod128 c) double_zero d = (x, s)" by fastforce
  have "double_val x * unat c + double_val s = double_val d \<and> d_high s = 0"
    using double_div_loop_exact[OF div128_mod128[OF c], of double_zero d] c double_val_bound[of d]
    by (simp add: loop)
  then have d: "double_val d = double_val x * unat c + unat (d_low s)" by (auto simp: double_val_def[of s])
  then have q: "double_val x + unat (d_low s) div unat c = double_val d div unat c"
    and r: "unat (d_low s) mod unat c = double_val d mod unat c" using c by simp_all
  have "double_val (from_low (d_low s div c)) = unat (d_low s) div unat c"
    by (simp add: double_val_def from_low_def unat_div)
  moreover have "double_val d div unat c < 2 ^ 256"
    using double_val_bound[of d] div_le_dividend[of "double_val d" "unat c"] by linarith
  ultimately have "double_val (double_add x (from_low (d_low s div c))) = double_val d div unat c"
    using q by (subst double_val_add) simp_all
  with assms(2) False r show ?thesis by (auto simp: double_div_def loop Let_def unat_mod)
qed

section \<open>The rounding product\<close>

datatype Rounding = Up | Down | NearestPrefUp | NearestPrefDown

fun rounds_up :: "Rounding \<Rightarrow> u128 \<Rightarrow> u128 \<Rightarrow> bool" where
  "rounds_up Up remainder c = (remainder > 0)"
| "rounds_up NearestPrefUp remainder c = (remainder \<ge> c div 2 + c mod 2)"
| "rounds_up NearestPrefDown remainder c = (remainder > c div 2)"
| "rounds_up Down remainder c = False"

definition multiply_by_rational_with_rounding :: "u128 \<Rightarrow> u128 \<Rightarrow> u128 \<Rightarrow> Rounding \<Rightarrow> u128 option" where
  "multiply_by_rational_with_rounding a b c r =
     (if c = 0 then None
      else let (result, remainder) = double_div (product_of a b) c
           in case try_into_u128 result of Inl _ \<Rightarrow> None
              | Inr result \<Rightarrow> if rounds_up r remainder c then checked_add result 1 else Some result)"

text \<open>The rounded quotient of natural numbers the routine is to compute.\<close>

fun rounded_div :: "Rounding \<Rightarrow> nat \<Rightarrow> nat \<Rightarrow> nat" where
  "rounded_div Down n c = n div c"
| "rounded_div Up n c = (n + c - 1) div c"
| "rounded_div NearestPrefDown n c = (2 * n + c - 1) div (2 * c)"
| "rounded_div NearestPrefUp n c = (2 * n + c) div (2 * c)"

lemma div_add_small:
  assumes "0 < c" "k < c"
  shows "(n + k) div c = n div c + of_bool (c \<le> n mod c + (k :: nat))"
proof -
  have m: "n mod c < c" using assms(1) by simp
  have "(n mod c + k) div c = of_bool (c \<le> n mod c + k)"
  proof (cases "c \<le> n mod c + k")
    case True
    then have "(n mod c + k) div c = Suc ((n mod c + k - c) div c)" by (rule le_div_geq[OF assms(1)])
    also have "n mod c + k - c < c" using m assms(2) by linarith
    then have "(n mod c + k - c) div c = 0" by (rule div_less)
    finally show ?thesis using True by simp
  qed (simp add: not_le)
  moreover have "(n + k) div c = n div c + (n mod c + k) div c"
    by (subst div_add1_eq) (simp only: div_less[OF assms(2)] mod_less[OF assms(2)] add_0_right)
  ultimately show ?thesis by (simp only:)
qed

lemma rounded_div_cases:
  assumes "0 < (c :: nat)"
  shows "rounded_div r n c = n div c + of_bool (case r of Down \<Rightarrow> False | Up \<Rightarrow> 0 < n mod c
    | NearestPrefDown \<Rightarrow> c < 2 * (n mod c) | NearestPrefUp \<Rightarrow> c \<le> 2 * (n mod c))"
proof (cases r)
  case Up
  have "(n + (c - 1)) div c = n div c + of_bool (c \<le> n mod c + (c - 1))" by (rule div_add_small) (use assms in simp_all)
  moreover have "c \<le> n mod c + (c - 1) \<longleftrightarrow> 0 < n mod c" using assms by linarith
  ultimately show ?thesis using assms by (simp add: Up)
next
  case NearestPrefDown
  have "(2 * n + (c - 1)) div (2 * c) = 2 * n div (2 * c) + of_bool (2 * c \<le> 2 * n mod (2 * c) + (c - 1))"
    by (rule div_add_small) (use assms in simp_all)
  moreover have "2 * c \<le> 2 * (n mod c) + (c - 1) \<longleftrightarrow> c < 2 * (n mod c)" using assms by linarith
  ultimately show ?thesis using assms by (simp add: NearestPrefDown)
next
  case NearestPrefUp
  have "(2 * n + c) div (2 * c) = 2 * n div (2 * c) + of_bool (2 * c \<le> 2 * n mod (2 * c) + c)"
    by (rule div_add_small) (use assms in simp_all)
  moreover have "2 * c \<le> 2 * (n mod c) + c \<longleftrightarrow> c \<le> 2 * (n mod c)" by linarith
  ultimately show ?thesis using assms by (simp add: NearestPrefUp)
qed simp

lemma half_remainder:
  fixes m c :: nat
  assumes "m < c"
  shows "c div 2 < m \<longleftrightarrow> c < 2 * m" "c div 2 + c mod 2 \<le> m \<longleftrightarrow> c \<le> 2 * m"
  by (cases "even c"; auto elim!: evenE oddE)+

lemma unat_half_up: "unat (c div 2 + c mod 2 :: u128) = unat c div 2 + unat c mod 2"
proof -
  have "unat c div 2 + unat c mod 2 < 2 ^ 128" using unat_bound[of c] by simp
  then show ?thesis by (subst unat_plus_exact) (simp_all add: unat_div unat_mod)
qed

lemma rounds_up_iff:
  assumes "c \<noteq> 0" "unat rmd = n mod unat c"
  shows "rounds_up r rmd c \<longleftrightarrow> rounded_div r n (unat c) = Suc (n div unat c)"
proof -
  have c: "0 < unat c" using assms(1) by (simp add: unat_gt_0)
  then have "n mod unat c < unat c" by simp
  note half = half_remainder[OF this]
  show ?thesis
    unfolding rounded_div_cases[OF c]
    by (cases r) (simp_all add: word_less_nat_alt word_le_nat_alt unat_half_up unat_div assms(2) half)
qed

lemma multiply_by_rational_cases:
  assumes "c \<noteq> 0"
  shows "multiply_by_rational_with_rounding a b c r =
    (let v = rounded_div r (unat a * unat b) (unat c) in if v < 2 ^ 128 then Some (of_nat v) else None)"
proof -
  let ?n = "unat a * unat b" and ?c = "unat c"
  have c: "0 < ?c" using assms by (simp add: unat_gt_0)
  obtain quo rmd where d: "double_div (product_of a b) c = (quo, rmd)" by fastforce
  from double_div_exact[OF assms d] have quo: "double_val quo = ?n div ?c" and rmd: "unat rmd = ?n mod ?c"
    by (simp_all only: double_val_product)
  have v: "rounded_div r ?n ?c = ?n div ?c + of_bool (rounds_up r rmd c)"
    using rounds_up_iff[OF assms rmd, of r] rounded_div_cases[OF c, of r ?n] by (auto simp: of_bool_def split: if_splits)
  show ?thesis
  proof (cases "d_high quo = 0")
    case True
    then have low: "unat (d_low quo) = ?n div ?c" using quo by (simp add: double_val_def)
    have "d_low quo = of_nat (?n div ?c)" unfolding low[symmetric] by simp
    moreover have "unat (d_low quo) < 2 ^ 128" using unat_bound[of "d_low quo"] by simp
    ultimately show ?thesis using assms True v low
      by (auto simp: multiply_by_rational_with_rounding_def d try_into_u128_def Let_def checked_add_def)
  next
    case False
    then have "1 * 2 ^ 128 \<le> unat (d_high quo) * 2 ^ 128"
      by (intro mult_le_mono1) (simp add: Suc_le_eq unat_gt_0)
    then have "2 ^ 128 \<le> rounded_div r ?n ?c" unfolding v quo[symmetric] double_val_def by linarith
    with False assms show ?thesis
      by (simp add: multiply_by_rational_with_rounding_def d try_into_u128_def Let_def not_less)
  qed
qed

section \<open>Integer square root\<close>

definition leading_zeros :: "'a::len word \<Rightarrow> u32" where
  "leading_zeros w = of_nat (length (takeWhile Not (map (bit w) (rev [0..<LENGTH('a)]))))"

lemma quarter_less: "b \<noteq> 0 \<Longrightarrow> unat (drop_bit 2 b :: u128) < unat b"
  by (simp only: unat_shift_right) (simp add: unat_gt_0)

function sqrt_loop :: "u128 \<Rightarrow> u128 \<Rightarrow> u128 \<Rightarrow> u128" where
  "sqrt_loop n result b =
     (if b \<noteq> 0
      then (if n \<ge> result + b
            then sqrt_loop (n - (result + b)) (drop_bit 1 result + b) (drop_bit 2 b)
            else sqrt_loop n (drop_bit 1 result) (drop_bit 2 b))
      else result)"
  by pat_completeness auto

termination
  by (relation "measure (\<lambda>(n, result, b). unat b)") (simp_all only: wf_measure in_measure prod.case quarter_less not_False_eq_True)

declare sqrt_loop.simps [simp del]

definition sqrt128 :: "u128 \<Rightarrow> u128" where
  "sqrt128 n = (if n = 0 then 0
     else let max_shift = leading_zeros (0 :: u128) - 1;
              shift = (max_shift - leading_zeros n) AND NOT 1;
              b = push_bit (unat shift) 1
          in sqrt_loop n 0 b)"

lemma highest_bit:
  fixes w :: "'a::len word"
  assumes "w \<noteq> 0"
  obtains m where "m < LENGTH('a)" "length (takeWhile Not (map (bit w) (rev [0..<LENGTH('a)]))) = LENGTH('a) - 1 - m"
    "2 ^ m \<le> unat w" "unat w < 2 ^ Suc m"
proof -
  let ?L = "LENGTH('a)" and ?xs = "map (bit w) (rev [0..<LENGTH('a)])"
  let ?j = "length (takeWhile Not ?xs)"
  have nth: "?xs ! i = bit w (?L - 1 - i)" if "i < ?L" for i using that by (simp add: rev_nth)
  have zero: "\<not> bit w i" if "i < ?L" "?L - 1 - i < ?j" for i
  proof -
    have "?xs ! (?L - 1 - i) = takeWhile Not ?xs ! (?L - 1 - i)" by (rule takeWhile_nth[symmetric, OF that(2)])
    moreover have "takeWhile Not ?xs ! (?L - 1 - i) \<in> set (takeWhile Not ?xs)" by (rule nth_mem[OF that(2)])
    ultimately have "\<not> ?xs ! (?L - 1 - i)" by (metis set_takeWhileD)
    moreover have "?L - 1 - (?L - 1 - i) = i" using that(1) by linarith
    ultimately show ?thesis using nth[of "?L - 1 - i"] that(1) by simp
  qed
  have "?j \<le> ?L" using length_takeWhile_le[of Not ?xs] by simp
  moreover have "?j \<noteq> ?L"
  proof
    assume "?j = ?L"
    with zero have "w = 0" by (intro bit_word_eqI) simp
    with assms show False ..
  qed
  ultimately have j: "?j < ?L" by simp
  define m where "m = ?L - 1 - ?j"
  have m: "m < ?L" "?j = ?L - 1 - m" using j by (simp_all add: m_def)
  have "bit w m" using nth_length_takeWhile[of Not ?xs] j nth[OF j] by (simp add: m_def)
  then have "odd (unat w div 2 ^ m)" by (simp add: bit_unsigned_iff flip: bit_iff_odd)
  then have low: "2 ^ m \<le> unat w" by (metis div_less even_zero not_le)
  have "take_bit (Suc m) w = w"
  proof (rule bit_word_eqI)
    fix i
    assume "i < ?L"
    then show "bit (take_bit (Suc m) w) i = bit w i"
      using zero[of i] m by (cases "m < i") (auto simp: bit_take_bit_iff)
  qed
  then have "unat w = take_bit (Suc m) (unat w)" by (simp flip: unsigned_take_bit_eq)
  then have "unat w < 2 ^ Suc m" by (metis take_bit_nat_less_exp)
  with low m that show ?thesis by blast
qed

text \<open>
  One round on \<open>b = 4 ^ k\<close>: \<open>\<rho>\<close> is the root found so far, \<open>result\<close> is \<open>\<rho> * 2 ^ (k + 1)\<close> and \<open>n\<close> is
  what remains of the radicand.
\<close>

definition sqrt_inv :: "nat \<Rightarrow> nat \<Rightarrow> u128 \<Rightarrow> u128 \<Rightarrow> nat \<Rightarrow> bool" where
  "sqrt_inv N k n result rho \<longleftrightarrow> unat n + rho ^ 2 = N \<and> unat result = rho * 2 ^ k \<and>
     N < (rho + 2 ^ k) ^ 2 \<and> rho + 2 ^ k \<le> 2 ^ 64"

lemma sqrt_step:
  assumes inv: "sqrt_inv N (Suc k) n result rho" and b: "unat b = 4 ^ k"
  shows "\<exists>n' result' rho'. sqrt_loop n result b = sqrt_loop n' result' (drop_bit 2 b) \<and> sqrt_inv N k n' result' rho'"
proof -
  define t :: nat where "t = 2 ^ k"
  have k: "2 ^ Suc k = 2 * t" "(4 :: nat) ^ k = t * t" by (simp_all add: t_def flip: power_mult_distrib)
  from inv have n: "unat n + rho ^ 2 = N" and res: "unat result = rho * (2 * t)" and N: "N < (rho + 2 * t) ^ 2"
    and lim: "rho + 2 * t \<le> 2 ^ 64" by (simp_all only: sqrt_inv_def k)
  have t: "0 < t" "b \<noteq> 0" using b by (auto simp: t_def)
  have sq: "(rho + t) ^ 2 = rho ^ 2 + (rho * (2 * t) + t * t)" by (simp add: power2_eq_square algebra_simps)
  have "(rho + t) ^ 2 < (2 ^ 64) ^ 2" using lim t(1) by (intro power_strict_mono) simp_all
  then have small: "rho * (2 * t) + t * t < 2 ^ 128" unfolding sq by simp
  have sum: "unat (result + b) = rho * (2 * t) + t * t"
    using small by (subst unat_plus_exact) (simp_all add: res b k)
  have half: "unat (drop_bit 1 result) = rho * t" by (simp only: unat_shift_right res power_one_right)
  show ?thesis
  proof (cases "n \<ge> result + b")
    case True
    then have le: "rho * (2 * t) + t * t \<le> unat n" by (simp only: word_le_nat_alt sum)
    have "unat (n - (result + b)) = unat n - (rho * (2 * t) + t * t)"
      using True by (subst unat_minus_exact) (simp_all only: sum word_le_nat_alt)
    moreover have "unat (drop_bit 1 result + b) = (rho + t) * t"
      using small by (subst unat_plus_exact) (simp_all only: half b k ring_distribs, simp)
    ultimately have "sqrt_inv N k (n - (result + b)) (drop_bit 1 result + b) (rho + t)"
      using le n N lim by (simp add: sqrt_inv_def sq flip: t_def) (simp add: mult_2 add.assoc)
    then show ?thesis using True t(2) by (subst sqrt_loop.simps) auto
  next
    case False
    then have "unat n < rho * (2 * t) + t * t" by (simp only: word_le_nat_alt sum not_le)
    with n have "N < (rho + t) ^ 2" unfolding sq by linarith
    with n lim half have "sqrt_inv N k n (drop_bit 1 result) rho" by (simp add: sqrt_inv_def flip: t_def)
    then show ?thesis using False t(2) by (subst sqrt_loop.simps) auto
  qed
qed

lemma sqrt_loop_exact:
  assumes "sqrt_inv N (Suc k) n result rho" "unat b = 4 ^ k"
  shows "unat (sqrt_loop n result b) ^ 2 \<le> N \<and> N < (unat (sqrt_loop n result b) + 1) ^ 2"
  using assms
proof (induction k arbitrary: n result rho b)
  case 0
  from sqrt_step[OF 0] obtain n' result' rho' where *: "sqrt_loop n result b = sqrt_loop n' result' (drop_bit 2 b)"
    "sqrt_inv N 0 n' result' rho'" by blast
  have "unat (drop_bit 2 b) = 0" using 0(2) by (simp only: unat_shift_right) simp
  then have "drop_bit 2 b = 0" by (simp only: unsigned_eq_0_iff)
  then have "sqrt_loop n result b = result'" unfolding *(1) by (subst sqrt_loop.simps) simp
  with *(2) show ?case by (auto simp: sqrt_inv_def)
next
  case (Suc k)
  from sqrt_step[OF Suc.prems] obtain n' result' rho' where *: "sqrt_loop n result b = sqrt_loop n' result' (drop_bit 2 b)"
    "sqrt_inv N (Suc k) n' result' rho'" by blast
  have "unat (drop_bit 2 b) = 4 ^ k" using Suc.prems(2) by (simp only: unat_shift_right) simp
  from Suc.IH[OF *(2) this] show ?case unfolding *(1) .
qed

lemma clear_low_bit: "unat (x AND NOT 1 :: 'a::len word) = unat x - unat x mod 2"
proof -
  have "(x AND NOT 1) + (x AND 1) = (x AND NOT 1) OR (x AND 1)"
    by (rule disjunctive_add) (auto simp: bit_simps)
  also have "\<dots> = x" by (rule bit_word_eqI) (auto simp: bit_simps)
  finally have "x AND NOT 1 = x - (x AND 1)" by (simp add: eq_diff_eq)
  moreover have "x AND 1 \<le> x" by (simp only: word_le_nat_alt unat_low_bit)
  ultimately show ?thesis by (simp only: unat_minus_exact word_le_nat_alt unat_low_bit)
qed

lemma sqrt128_bounds: "unat (sqrt128 n) ^ 2 \<le> unat n \<and> unat n < (unat (sqrt128 n) + 1) ^ 2"
proof (cases "n = 0")
  case False
  obtain m where m: "m < 128" "length (takeWhile Not (map (bit n) (rev [0..<128]))) = 127 - m" "2 ^ m \<le> unat n" "unat n < 2 ^ Suc m"
    using highest_bit[OF False] by auto
  define k where "k = m div 2"
  have lz: "leading_zeros n = of_nat (127 - m)" using m(2) by (simp add: leading_zeros_def)
  have "leading_zeros (0 :: u128) = 128" by code_simp
  then have "leading_zeros (0 :: u128) - 1 - leading_zeros n = of_nat m"
    unfolding lz using m(1) by (simp add: of_nat_diff)
  moreover have "unat (of_nat m :: u32) = m" using m(1) by (simp add: unat_of_nat)
  ultimately have shift: "unat ((leading_zeros (0 :: u128) - 1 - leading_zeros n) AND NOT 1) = 2 * k"
    by (simp only: clear_low_bit k_def minus_mod_eq_mult_div)
  have "(4 :: nat) ^ k = 2 ^ (2 * k)" by (simp add: power_mult)
  moreover have "(2 :: nat) ^ (2 * k) < 2 ^ 128" using m(1) by (intro power_strict_increasing) (simp_all add: k_def)
  ultimately have b: "unat (push_bit (2 * k) 1 :: u128) = 4 ^ k" by (simp only: unat_shift_left unsigned_1) simp
  have "(0 + 2 ^ Suc k) ^ 2 = (2 :: nat) ^ (2 * k + 2)" by (simp add: power_mult_distrib flip: power_mult)
  moreover have "(2 :: nat) ^ Suc m \<le> 2 ^ (2 * k + 2)" by (intro power_increasing) (simp_all add: k_def)
  moreover have "(2 :: nat) ^ Suc k \<le> 2 ^ 64" using m(1) by (intro power_increasing) (simp_all add: k_def)
  ultimately have "sqrt_inv (unat n) (Suc k) n 0 0" using m(4) by (simp add: sqrt_inv_def)
  from sqrt_loop_exact[OF this b] False shift show ?thesis by (simp add: sqrt128_def Let_def)
qed (simp add: sqrt128_def)

section \<open>Properties\<close>

text \<open>C6: the product \<open>a * b / c\<close> that the fixed point types are built on, computed with two 128 bit words and
  a division loop, is the exact 256 bit quotient rounded as asked for: the result is \<^const>\<open>None\<close> exactly for a zero divisor
  or a rounded quotient that does not fit 128 bits.\<close>

theorem multiply_by_rational_exact:
  "multiply_by_rational_with_rounding a b c r =
     (if c = 0 then None
      else let v = rounded_div r (unat a * unat b) (unat c) in if v < 2 ^ 128 then Some (of_nat v) else None)"
  by (cases "c = 0") (simp_all add: multiply_by_rational_cases, simp add: multiply_by_rational_with_rounding_def)

text \<open>C22: the bitwise square root of a 128 bit number is the integer part of its root, for every number: neither the
  sums nor the remainder of the loop overflow.\<close>

theorem sqrt128_exact: "unat (sqrt128 n) ^ 2 \<le> unat n \<and> unat n < (unat (sqrt128 n) + 1) ^ 2"
  by (rule sqrt128_bounds)

text \<open>The binary algorithm for the greatest common divisor returns for every pair of 128 bit numbers, and returns
  their greatest common divisor.\<close>

theorem gcd128_exact: "unat (gcd128 a b) = gcd (unat a) (unat b)"
  by (rule unat_gcd128)

end
