(* ===== verification/Fixed_Point.thy ===== *)
theory Fixed_Point
  imports Arith128
begin

text \<open>
  Fixed point numbers (\<open>substrate/primitives/arithmetic/src/fixed_point.rs\<close> and the rounding modes of
  \<open>per_things.rs\<close>): the type \<open>FixedU128\<close>, an unsigned 128 bit number of units of \<open>1 / DIV\<close>. The macro and the trait
  are generic in the inner type; the model is their instance for \<open>u128\<close>, with \<open>u128\<close> also for the integer operands. A
  panic is \<^const>\<open>None\<close> in the functions that may panic.
\<close>

section \<open>Rounding modes\<close>

datatype SignedRounding = High | Low | NearestPrefHigh | NearestPrefLow | Major | Minor | NearestPrefMajor | NearestPrefMinor

fun from_signed :: "SignedRounding \<Rightarrow> bool \<Rightarrow> Rounding" where
  "from_signed Low negative = (if negative then Up else Down)"
| "from_signed High negative = (if negative then Down else Up)"
| "from_signed Major _ = Up"
| "from_signed Minor _ = Down"
| "from_signed NearestPrefMajor _ = NearestPrefUp"
| "from_signed NearestPrefMinor _ = NearestPrefDown"
| "from_signed NearestPrefHigh negative = (if negative then NearestPrefDown else NearestPrefUp)"
| "from_signed NearestPrefLow negative = (if negative then NearestPrefUp else NearestPrefDown)"

section \<open>The type\<close>

datatype FixedU128 = FixedU128 (into_inner: u128)

instantiation FixedU128 :: linorder
begin

definition less_eq_FixedU128 :: "FixedU128 \<Rightarrow> FixedU128 \<Rightarrow> bool" where
  "less_eq_FixedU128 x y \<longleftrightarrow> into_inner x \<le> into_inner y"

definition less_FixedU128 :: "FixedU128 \<Rightarrow> FixedU128 \<Rightarrow> bool" where
  "less_FixedU128 x y \<longleftrightarrow> into_inner x < into_inner y"

instance
  by standard (auto simp: less_eq_FixedU128_def less_FixedU128_def intro: FixedU128.expand)

end

definition DIV :: u128 where
  "DIV = 1000000000000000000"

text \<open>The intermediate form with a sign; the sign of an unsigned number is never negative.\<close>

record I129 =
  i_value :: u128
  i_negative :: bool

definition into_i129 :: "u128 \<Rightarrow> I129" where
  "into_i129 n = \<lparr>i_value = n, i_negative = False\<rparr>"

definition checked_neg :: "u128 \<Rightarrow> u128 option" where
  "checked_neg n = (if n = 0 then Some 0 else None)"

definition from_i129 :: "I129 \<Rightarrow> u128 option" where
  "from_i129 n = (if i_negative n then checked_neg (i_value n) else Some (i_value n))"

definition to_bound :: "u128 \<Rightarrow> u128 \<Rightarrow> u128" where
  "to_bound n m = (if (n < 0) \<noteq> (m < 0) then 0 else umax)"

text \<open>The common middle of the operations: a signed product \<open>a * b / c\<close>.\<close>

definition i129_mul_rational :: "I129 \<Rightarrow> I129 \<Rightarrow> I129 \<Rightarrow> bool \<Rightarrow> SignedRounding \<Rightarrow> u128 option" where
  "i129_mul_rational a b c negative rounding =
     Option.bind (multiply_by_rational_with_rounding (i_value a) (i_value b) (i_value c) (from_signed rounding negative))
       (\<lambda>v. from_i129 \<lparr>i_value = v, i_negative = negative\<rparr>)"

section \<open>Conversions\<close>

definition fixed_zero :: FixedU128 where "fixed_zero = FixedU128 0"

definition fixed_one :: FixedU128 where "fixed_one = FixedU128 DIV"

definition from_u32 :: "u32 \<Rightarrow> FixedU128" where
  "from_u32 n = FixedU128 (ucast n * DIV)"

definition saturating_from_integer :: "u128 \<Rightarrow> FixedU128" where
  "saturating_from_integer n =
     (let i = (into_i129 n)\<lparr>i_value := saturating_mul (i_value (into_i129 n)) DIV\<rparr>
      in FixedU128 (case from_i129 i of Some v \<Rightarrow> v | None \<Rightarrow> to_bound n 0))"

definition checked_from_integer :: "u128 \<Rightarrow> FixedU128 option" where
  "checked_from_integer n = map_option FixedU128 (checked_mul n DIV)"

definition checked_from_rational :: "u128 \<Rightarrow> u128 \<Rightarrow> FixedU128 option" where
  "checked_from_rational n d =
     (if d = 0 then None
      else let n = into_i129 n; d = into_i129 d; negative = (i_negative n \<noteq> i_negative d)
           in map_option FixedU128 (i129_mul_rational n (into_i129 DIV) d negative Minor))"

definition saturating_from_rational :: "u128 \<Rightarrow> u128 \<Rightarrow> FixedU128 option" where
  "saturating_from_rational n d =
     (if d = 0 then None
      else Some (case checked_from_rational n d of Some x \<Rightarrow> x | None \<Rightarrow> FixedU128 (to_bound n d)))"

definition from_rational_with_rounding :: "u128 \<Rightarrow> u128 \<Rightarrow> Rounding \<Rightarrow> FixedU128 option" where
  "from_rational_with_rounding a b rounding =
     (if b = 0 then None
      else Option.bind (multiply_by_rational_with_rounding DIV a b rounding)
        (\<lambda>v. map_option FixedU128 (from_i129 \<lparr>i_value = v, i_negative = False\<rparr>)))"

definition from_rational :: "u128 \<Rightarrow> u128 \<Rightarrow> FixedU128 option" where
  "from_rational a b = from_rational_with_rounding a b NearestPrefDown"

section \<open>Arithmetic\<close>

definition const_checked_mul_with_rounding :: "FixedU128 \<Rightarrow> FixedU128 \<Rightarrow> SignedRounding \<Rightarrow> FixedU128 option" where
  "const_checked_mul_with_rounding self other rounding =
     (let lhs = into_i129 (into_inner self); rhs = into_i129 (into_inner other); negative = (i_negative lhs \<noteq> i_negative rhs)
      in map_option FixedU128 (i129_mul_rational lhs rhs (into_i129 DIV) negative rounding))"

definition const_checked_mul :: "FixedU128 \<Rightarrow> FixedU128 \<Rightarrow> FixedU128 option" where
  "const_checked_mul self other = const_checked_mul_with_rounding self other NearestPrefLow"

definition checked_rounding_div :: "FixedU128 \<Rightarrow> FixedU128 \<Rightarrow> SignedRounding \<Rightarrow> FixedU128 option" where
  "checked_rounding_div self other rounding =
     (if into_inner other = 0 then None
      else let lhs = into_i129 (into_inner self); rhs = into_i129 (into_inner other); negative = (i_negative lhs \<noteq> i_negative rhs)
           in map_option FixedU128 (i129_mul_rational lhs (into_i129 DIV) rhs negative rounding))"

definition const_checked_div :: "FixedU128 \<Rightarrow> FixedU128 \<Rightarrow> FixedU128 option" where
  "const_checked_div self other = checked_rounding_div self other NearestPrefLow"

definition fixed_checked_mul :: "FixedU128 \<Rightarrow> FixedU128 \<Rightarrow> FixedU128 option" where
  "fixed_checked_mul self other =
     (let lhs = into_i129 (into_inner self); rhs = into_i129 (into_inner other); negative = (i_negative lhs \<noteq> i_negative rhs)
      in map_option FixedU128 (i129_mul_rational lhs rhs (into_i129 DIV) negative Minor))"

definition fixed_checked_div :: "FixedU128 \<Rightarrow> FixedU128 \<Rightarrow> FixedU128 option" where
  "fixed_checked_div self other =
     (if into_inner other = 0 then None
      else let lhs = into_i129 (into_inner self); rhs = into_i129 (into_inner other); negative = (i_negative lhs \<noteq> i_negative rhs)
           in map_option FixedU128 (i129_mul_rational lhs (into_i129 DIV) rhs negative Minor))"

definition fixed_saturating_add :: "FixedU128 \<Rightarrow> FixedU128 \<Rightarrow> FixedU128" where
  "fixed_saturating_add self rhs = FixedU128 (saturating_add (into_inner self) (into_inner rhs))"

definition fixed_saturating_sub :: "FixedU128 \<Rightarrow> FixedU128 \<Rightarrow> FixedU128" where
  "fixed_saturating_sub self rhs = FixedU128 (saturating_sub (into_inner self) (into_inner rhs))"

definition fixed_saturating_mul :: "FixedU128 \<Rightarrow> FixedU128 \<Rightarrow> FixedU128" where
  "fixed_saturating_mul self rhs = (case fixed_checked_mul self rhs of Some x \<Rightarrow> x
     | None \<Rightarrow> FixedU128 (to_bound (into_inner self) (into_inner rhs)))"

text \<open>The operators \<open>*\<close> and \<open>/\<close>, which panic on overflow.\<close>

definition fixed_mul :: "FixedU128 \<Rightarrow> FixedU128 \<Rightarrow> FixedU128 option" where
  "fixed_mul self rhs = fixed_checked_mul self rhs"

definition fixed_div :: "FixedU128 \<Rightarrow> FixedU128 \<Rightarrow> FixedU128 option" where
  "fixed_div self rhs = (if into_inner rhs = 0 then None else fixed_checked_div self rhs)"

definition reciprocal :: "FixedU128 \<Rightarrow> FixedU128 option" where
  "reciprocal self = fixed_checked_div fixed_one self"

definition try_sqrt :: "FixedU128 \<Rightarrow> FixedU128 option" where
  "try_sqrt self =
     (if into_inner self = 0 then Some (FixedU128 0)
      else if into_inner self < 1 then None
      else let v = into_inner self;
               r = (case checked_mul v DIV of Some vd \<Rightarrow> sqrt128 vd | None \<Rightarrow> sqrt128 v * sqrt128 DIV)
           in Some (FixedU128 r))"

section \<open>Integer operands\<close>

definition checked_mul_int :: "FixedU128 \<Rightarrow> u128 \<Rightarrow> u128 option" where
  "checked_mul_int self n =
     (let lhs = into_i129 (into_inner self); rhs = into_i129 n; negative = (i_negative lhs \<noteq> i_negative rhs)
      in i129_mul_rational lhs rhs (into_i129 DIV) negative Minor)"

definition saturating_mul_int :: "FixedU128 \<Rightarrow> u128 \<Rightarrow> u128" where
  "saturating_mul_int self n = (case checked_mul_int self n of Some v \<Rightarrow> v | None \<Rightarrow> to_bound (into_inner self) n)"

definition checked_div_int :: "FixedU128 \<Rightarrow> u128 \<Rightarrow> u128 option" where
  "checked_div_int self d =
     (let lhs = into_i129 (into_inner self); rhs = into_i129 d; negative = (i_negative lhs \<noteq> i_negative rhs)
      in Option.bind (checked_div (i_value lhs) (i_value rhs)) (\<lambda>n.
         Option.bind (checked_div n DIV) (\<lambda>v. from_i129 \<lparr>i_value = v, i_negative = negative\<rparr>)))"

definition saturating_div_int :: "FixedU128 \<Rightarrow> u128 \<Rightarrow> u128 option" where
  "saturating_div_int self d =
     (if d = 0 then None
      else Some (case checked_div_int self d of Some v \<Rightarrow> v | None \<Rightarrow> to_bound (into_inner self) d))"

text \<open>\<open>is_negative\<close> is false for an unsigned number, so the first branch of \<open>saturating_mul_acc_int\<close> is not taken.\<close>

definition is_negative :: "FixedU128 \<Rightarrow> bool" where
  "is_negative self \<longleftrightarrow> into_inner self < 0"

definition is_positive :: "FixedU128 \<Rightarrow> bool" where
  "is_positive self \<longleftrightarrow> into_inner self > 0"

definition saturating_mul_acc_int :: "FixedU128 \<Rightarrow> u128 \<Rightarrow> u128" where
  "saturating_mul_acc_int self n =
     (if is_negative self \<and> n > 0
      then saturating_sub n (saturating_mul_int (fixed_saturating_sub fixed_zero self) n)
      else saturating_add (saturating_mul_int self n) n)"

section \<open>Integer part, fraction and rounding to an integer\<close>

text \<open>\<open>is_one\<close> compares the inner value with the integer one, as the code does.\<close>

definition is_one :: "FixedU128 \<Rightarrow> bool" where
  "is_one self \<longleftrightarrow> into_inner self = 1"

definition saturating_abs :: "FixedU128 \<Rightarrow> FixedU128" where
  "saturating_abs self =
     (if into_inner self \<ge> 0 then self
      else FixedU128 (case checked_neg (into_inner self) of Some v \<Rightarrow> v | None \<Rightarrow> umax))"

definition trunc :: "FixedU128 \<Rightarrow> FixedU128 option" where
  "trunc self = Option.bind (checked_div (into_inner self) DIV) (\<lambda>v. map_option FixedU128 (checked_mul v DIV))"

definition fixed_frac :: "FixedU128 \<Rightarrow> FixedU128 option" where
  "fixed_frac self = map_option (\<lambda>integer.
     let fractional = fixed_saturating_sub self integer
     in if integer = fixed_zero then fractional else saturating_abs fractional) (trunc self)"

definition fixed_ceil :: "FixedU128 \<Rightarrow> FixedU128 option" where
  "fixed_ceil self =
     (if is_negative self then trunc self
      else case fixed_frac self of None \<Rightarrow> None
        | Some f \<Rightarrow> if f = fixed_zero then Some self else trunc (fixed_saturating_add self fixed_one))"

definition fixed_floor :: "FixedU128 \<Rightarrow> FixedU128 option" where
  "fixed_floor self = (if is_negative self then trunc (fixed_saturating_sub self fixed_one) else trunc self)"

definition fixed_round :: "FixedU128 \<Rightarrow> FixedU128 option" where
  "fixed_round self = (case fixed_frac self of None \<Rightarrow> None
     | Some f \<Rightarrow> (let n = fixed_saturating_mul f (saturating_from_integer 10)
         in if n < saturating_from_integer 5 then trunc self
            else if is_positive self then trunc (fixed_saturating_add self fixed_one)
            else trunc (fixed_saturating_sub self fixed_one)))"

section \<open>What the operations compute\<close>

text \<open>The number of units of a fixed point number, and the number of that many units where there is one.\<close>

definition units :: "FixedU128 \<Rightarrow> nat" where
  "units x = unat (into_inner x)"

definition of_units :: "nat \<Rightarrow> FixedU128 option" where
  "of_units n = (if n < 2 ^ 128 then Some (FixedU128 (of_nat n)) else None)"

lemma unat_DIV [simp]: "unat DIV = 10 ^ 18"
  by (simp add: DIV_def)

lemma DIV_nonzero [simp]: "DIV \<noteq> 0"
  by (simp add: DIV_def)

lemma units_bound: "units x < 2 ^ 128"
  using unat_bound[of "into_inner x"] by (simp add: units_def)

lemma units_simps [simp]:
  "units (FixedU128 w) = unat w" "units fixed_zero = 0" "units fixed_one = 10 ^ 18"
  by (simp_all add: units_def fixed_zero_def fixed_one_def)

lemma units_eq_iff: "x = y \<longleftrightarrow> units x = units y"
  by (cases x; cases y) (simp add: word_unat_eq_iff)

lemma units_le_iff: "x \<le> y \<longleftrightarrow> units x \<le> units y"
  by (simp add: less_eq_FixedU128_def units_def word_le_nat_alt)

lemma units_less_iff: "x < y \<longleftrightarrow> units x < units y"
  by (simp add: less_FixedU128_def units_def word_less_nat_alt)

lemma of_units_eq_Some: "of_units n = Some x \<longleftrightarrow> n = units x"
  using units_bound[of x] by (auto simp: of_units_def units_eq_iff unat_of_nat)

lemma i129_mul_rational_exact:
  assumes "c \<noteq> 0"
  shows "map_option FixedU128 (i129_mul_rational (into_i129 a) (into_i129 b) (into_i129 c) False rounding) =
    of_units (rounded_div (from_signed rounding False) (unat a * unat b) (unat c))"
  by (simp add: i129_mul_rational_def into_i129_def multiply_by_rational_cases[OF assms] from_i129_def of_units_def Let_def)

lemmas fixed_op_defs = fixed_checked_mul_def fixed_checked_div_def const_checked_mul_def const_checked_mul_with_rounding_def
  const_checked_div_def checked_rounding_div_def from_rational_def from_rational_with_rounding_def checked_from_rational_def

lemma i_negative_into [simp]: "i_negative (into_i129 n) = False"
  by (simp add: into_i129_def)

lemma fixed_checked_mul_units: "fixed_checked_mul x y = of_units (units x * units y div 10 ^ 18)"
  using i129_mul_rational_exact[OF DIV_nonzero, of "into_inner x" "into_inner y" Minor]
  by (simp add: fixed_checked_mul_def units_def)

lemma fixed_checked_div_units:
  "fixed_checked_div x y = (if units y = 0 then None else of_units (units x * 10 ^ 18 div units y))"
  using i129_mul_rational_exact[of "into_inner y" "into_inner x" DIV Minor]
  by (simp add: fixed_checked_div_def units_def unsigned_eq_0_iff)

lemma const_checked_mul_units:
  "const_checked_mul x y = of_units (rounded_div NearestPrefDown (units x * units y) (10 ^ 18))"
  using i129_mul_rational_exact[OF DIV_nonzero, of "into_inner x" "into_inner y" NearestPrefLow]
  by (simp add: const_checked_mul_def const_checked_mul_with_rounding_def units_def)

lemma const_checked_div_units:
  "const_checked_div x y = (if units y = 0 then None else of_units (rounded_div NearestPrefDown (units x * 10 ^ 18) (units y)))"
  using i129_mul_rational_exact[of "into_inner y" "into_inner x" DIV NearestPrefLow]
  by (simp add: const_checked_div_def checked_rounding_div_def units_def unsigned_eq_0_iff)

lemma from_rational_units:
  "from_rational a b = (if b = 0 then None else of_units (rounded_div NearestPrefDown (10 ^ 18 * unat a) (unat b)))"
  by (simp add: from_rational_def from_rational_with_rounding_def multiply_by_rational_cases from_i129_def of_units_def Let_def)

lemma units_saturating [simp]:
  "units (fixed_saturating_add x y) = min (units x + units y) (2 ^ 128 - 1)"
  "units (fixed_saturating_sub x y) = units x - units y"
  by (simp_all add: fixed_saturating_add_def fixed_saturating_sub_def units_def unat_saturating_add unat_saturating_sub)

lemma units_saturating_mul: "units (fixed_saturating_mul x y) = min (units x * units y div 10 ^ 18) (2 ^ 128 - 1)"
proof (cases "units x * units y div 10 ^ 18 < 2 ^ 128")
  case True
  then show ?thesis by (simp add: fixed_saturating_mul_def fixed_checked_mul_units of_units_def unat_of_nat)
next
  case False
  then show ?thesis by (simp add: fixed_saturating_mul_def fixed_checked_mul_units of_units_def to_bound_def unat_umax)
qed

lemma trunc_units: "trunc x = Some (FixedU128 (of_nat (units x div 10 ^ 18 * 10 ^ 18)))"
  and trunc_bound: "units x div 10 ^ 18 * 10 ^ 18 < 2 ^ 128"
proof -
  have le: "units x div 10 ^ 18 * 10 ^ 18 \<le> units x" by simp
  then show lt: "units x div 10 ^ 18 * 10 ^ 18 < 2 ^ 128" using units_bound[of x] by linarith
  have "unat (into_inner x div DIV) * unat DIV < 2 ^ LENGTH(128)"
    using lt by (simp add: unat_div units_def)
  moreover from this have u: "unat (into_inner x div DIV * DIV) = units x div 10 ^ 18 * 10 ^ 18"
    by (simp only: unat_mult_exact) (simp add: unat_div units_def)
  have "into_inner x div DIV * DIV = of_nat (units x div 10 ^ 18 * 10 ^ 18)" unfolding u[symmetric] by simp
  ultimately show "trunc x = Some (FixedU128 (of_nat (units x div 10 ^ 18 * 10 ^ 18)))"
    by (simp add: trunc_def checked_div_def checked_mul_def)
qed

lemma trunc_eq: "trunc x = of_units (units x div 10 ^ 18 * 10 ^ 18)"
  using trunc_bound[of x] by (simp only: trunc_units of_units_def if_True)

lemma trunc_some: obtains y where "trunc x = Some y" "units y = units x div 10 ^ 18 * 10 ^ 18"
proof
  show "trunc x = Some (FixedU128 (of_nat (units x div 10 ^ 18 * 10 ^ 18)))" by (rule trunc_units)
  show "units (FixedU128 (of_nat (units x div 10 ^ 18 * 10 ^ 18))) = units x div 10 ^ 18 * 10 ^ 18"
    using trunc_bound[of x] by (simp only: units_simps unat_of_nat) simp
qed

lemma frac_some: obtains f where "fixed_frac x = Some f" "units f = units x mod 10 ^ 18"
proof -
  obtain y where y: "trunc x = Some y" "units y = units x div 10 ^ 18 * 10 ^ 18" by (rule trunc_some)
  have "units (fixed_saturating_sub x y) = units x mod 10 ^ 18"
    by (simp only: units_saturating y(2) minus_div_mult_eq_mod)
  moreover have "fixed_frac x = Some (fixed_saturating_sub x y)"
    by (simp add: fixed_frac_def y(1) Let_def saturating_abs_def)
  ultimately show ?thesis using that by blast
qed

lemma units_ten [simp]: "units (saturating_from_integer 10) = 10 * 10 ^ 18" "units (saturating_from_integer 5) = 5 * 10 ^ 18"
  by (simp_all add: saturating_from_integer_def into_i129_def from_i129_def Let_def unat_saturating_mul)

text \<open>The largest integer of the type, \<open>Self::max\<close> truncated.\<close>

definition max_integer :: nat where
  "max_integer = (2 ^ 128 - 1) div 10 ^ 18 * 10 ^ 18"

lemma trunc_below_max: "units x div 10 ^ 18 * 10 ^ 18 \<le> max_integer"
  unfolding max_integer_def using units_bound[of x] by (intro mult_le_mono1 div_le_mono) linarith

lemma min_max_integer [simp]: "min (units x div 10 ^ 18 * 10 ^ 18) max_integer = units x div 10 ^ 18 * 10 ^ 18"
  by (rule min_absorb1) (rule trunc_below_max)

lemma round_up_units:
  "trunc (fixed_saturating_add x fixed_one) = of_units (min ((units x div 10 ^ 18 + 1) * 10 ^ 18) max_integer)"
proof -
  let ?d = "10 ^ 18 :: nat" and ?m = "2 ^ 128 - 1 :: nat"
  have up: "(units x + ?d) div ?d = units x div ?d + 1" by (rule div_add_self2) simp
  have "min (units x + ?d) ?m div ?d * ?d = min ((units x + ?d) div ?d * ?d) (?m div ?d * ?d)"
    by (rule min_of_mono[symmetric]) (simp add: mono_def div_le_mono mult_le_mono1)
  moreover have "units (fixed_saturating_add x fixed_one) = min (units x + ?d) ?m" by simp
  ultimately show ?thesis by (simp only: trunc_eq up max_integer_def)
qed

lemma fixed_round_eq: "fixed_round x = of_units (min ((2 * units x + 10 ^ 18) div (2 * 10 ^ 18) * 10 ^ 18) max_integer)"
proof -
  let ?d = "10 ^ 18 :: nat" and ?f = "units x mod 10 ^ 18"
  obtain f where f: "fixed_frac x = Some f" "units f = ?f" by (rule frac_some)
  have lt: "?f < ?d" by simp
  then have n: "units (fixed_saturating_mul f (saturating_from_integer 10)) = 10 * ?f"
    by (simp add: units_saturating_mul f(2))
  have "rounded_div NearestPrefUp (units x) ?d = units x div ?d + of_bool (?d \<le> 2 * ?f)"
    by (subst rounded_div_cases) simp_all
  then have v: "(2 * units x + ?d) div (2 * ?d) = units x div ?d + of_bool (?d \<le> 2 * ?f)" by (simp only: rounded_div.simps)
  show ?thesis
  proof (cases "?d \<le> 2 * ?f")
    case True
    then have "0 < units x" by (cases "units x") simp_all
    then have "is_positive x" by (simp add: is_positive_def units_def unat_gt_0 word_gt_0)
    moreover have "\<not> fixed_saturating_mul f (saturating_from_integer 10) < saturating_from_integer 5"
      using True by (simp only: units_less_iff n units_ten)
    ultimately show ?thesis unfolding v using True by (simp only: fixed_round_def f option.case Let_def if_False if_True round_up_units of_bool_eq)
  next
    case False
    then have "fixed_saturating_mul f (saturating_from_integer 10) < saturating_from_integer 5"
      by (simp only: units_less_iff n units_ten)
    then show ?thesis unfolding v using False by (simp only: fixed_round_def f option.case Let_def if_True trunc_eq of_bool_eq add_0_right min_max_integer)
  qed
qed

lemma fixed_ceil_eq: "fixed_ceil x = of_units (min ((units x + 10 ^ 18 - 1) div 10 ^ 18 * 10 ^ 18) max_integer)"
proof -
  let ?d = "10 ^ 18 :: nat" and ?f = "units x mod 10 ^ 18"
  obtain f where f: "fixed_frac x = Some f" "units f = ?f" by (rule frac_some)
  have "rounded_div Up (units x) ?d = units x div ?d + of_bool (0 < ?f)"
    by (subst rounded_div_cases) simp_all
  then have v: "(units x + ?d - 1) div ?d = units x div ?d + of_bool (0 < ?f)" by (simp only: rounded_div.simps)
  have neg: "\<not> is_negative x" by (simp add: is_negative_def)
  have z: "f = fixed_zero \<longleftrightarrow> ?f = 0" by (simp add: units_eq_iff f(2))
  show ?thesis
  proof (cases "?f = 0")
    case True
    then have "units x div ?d * ?d = units x" using div_mult_mod_eq[of "units x" ?d] by linarith
    moreover from this have "min (units x) max_integer = units x" using trunc_below_max[of x] by (simp only: min_absorb1)
    moreover have "of_units (units x) = Some x" by (simp only: of_units_eq_Some)
    ultimately show ?thesis unfolding v using True neg z
      by (simp only: fixed_ceil_def f(1) option.case if_False if_True simp_thms of_bool_eq add_0_right less_irrefl min_max_integer)
  next
    case False
    then show ?thesis unfolding v using neg z by (simp only: fixed_ceil_def f(1) option.case if_False if_True round_up_units) simp
  qed
qed

text \<open>An amount that stops at the largest integer is a number of the type.\<close>

lemma integer_some: obtains y where "of_units (min n max_integer) = Some y" "units y = min n max_integer"
proof -
  have "min n max_integer < 2 ^ 128" by (rule le_less_trans[OF min.cobounded2]) (simp add: max_integer_def)
  then have "of_units (min n max_integer) = Some (FixedU128 (of_nat (min n max_integer)))" by (simp only: of_units_def if_True)
  then show ?thesis by (rule that) (metis \<open>of_units _ = _\<close> of_units_eq_Some)
qed

lemma of_units_Suc: "of_units n = of_units (n + 1) \<longleftrightarrow> 2 ^ 128 \<le> n"
proof (cases "of_units n")
  case (Some x)
  then have "n = units x" by (simp only: of_units_eq_Some)
  then show ?thesis using units_bound[of x] Some of_units_eq_Some[of "n + 1" x] by force
qed (simp add: of_units_def split: if_splits)

lemma checked_div_agrees:
  "fixed_checked_div x y = const_checked_div x y \<longleftrightarrow>
     units y = 0 \<or> 2 * (units x * 10 ^ 18 mod units y) \<le> units y \<or> 2 ^ 128 \<le> units x * 10 ^ 18 div units y"
proof (cases "units y = 0")
  case False
  let ?n = "units x * 10 ^ 18" and ?d = "units y"
  have r: "rounded_div NearestPrefDown ?n ?d = ?n div ?d + of_bool (?d < 2 * (?n mod ?d))"
    using False by (subst rounded_div_cases) simp_all
  show ?thesis
  proof (cases "?d < 2 * (?n mod ?d)")
    case True
    then have "\<not> 2 * (?n mod ?d) \<le> ?d" by linarith
    then show ?thesis
      using False True by (simp only: fixed_checked_div_units const_checked_div_units r if_False of_bool_eq of_units_Suc simp_thms)
  next
    case le: False
    then have "2 * (?n mod ?d) \<le> ?d" by linarith
    then show ?thesis
      using False le by (simp only: fixed_checked_div_units const_checked_div_units r if_False of_bool_eq add_0_right simp_thms)
  qed
qed (simp add: fixed_checked_div_units const_checked_div_units)

section \<open>Properties\<close>

text \<open>C23: multiplication and division of \<open>FixedU128\<close> return the exact result rounded to a representable number, and fail
  exactly when that number does not fit or the divisor is zero: the operators and the checked operations round down, the constant
  operations round to the nearest with ties down. The comment of \<open>checked_div\<close> states something else, namely that it rounds to
  the nearest and gives what \<open>const_checked_div\<close> gives on positive results. The two agree exactly when the remainder is at most
  half of the divisor (or both fail).\<close>

theorem fixed_mul_div_exact:
  "fixed_checked_mul x y = of_units (units x * units y div 10 ^ 18) \<and>
   fixed_checked_div x y = (if units y = 0 then None else of_units (units x * 10 ^ 18 div units y)) \<and>
   const_checked_mul x y = of_units ((2 * (units x * units y) + 10 ^ 18 - 1) div (2 * 10 ^ 18)) \<and>
   const_checked_div x y = (if units y = 0 then None
     else of_units ((2 * (units x * 10 ^ 18) + units y - 1) div (2 * units y))) \<and>
   (fixed_checked_div x y = const_checked_div x y \<longleftrightarrow>
      units y = 0 \<or> 2 * (units x * 10 ^ 18 mod units y) \<le> units y \<or> 2 ^ 128 \<le> units x * 10 ^ 18 div units y)"
  using checked_div_agrees[of x y]
  by (simp only: fixed_checked_mul_units fixed_checked_div_units const_checked_mul_units const_checked_div_units rounded_div.simps simp_thms)

text \<open>C40: rounding to integers never panics. \<open>floor\<close>, \<open>ceil\<close> and \<open>round\<close> return the largest integer that is not above, the
  smallest that is not below and the nearest (halves up), where the last two stop at the largest integer of the type, as
  documented; the integer part and the fraction add up to the number.\<close>

theorem fixed_rounding_exact:
  "\<exists>lo hi near i f. fixed_floor x = Some lo \<and> units lo = units x div 10 ^ 18 * 10 ^ 18 \<and>
    fixed_ceil x = Some hi \<and> units hi = min ((units x + 10 ^ 18 - 1) div 10 ^ 18 * 10 ^ 18) max_integer \<and>
    fixed_round x = Some near \<and> units near = min ((2 * units x + 10 ^ 18) div (2 * 10 ^ 18) * 10 ^ 18) max_integer \<and>
    trunc x = Some i \<and> fixed_frac x = Some f \<and> units i + units f = units x \<and> units f < 10 ^ 18"
proof -
  have "fixed_floor x = trunc x" by (simp add: fixed_floor_def is_negative_def)
  moreover obtain i where i: "trunc x = Some i" "units i = units x div 10 ^ 18 * 10 ^ 18" by (rule trunc_some)
  moreover obtain f where f: "fixed_frac x = Some f" "units f = units x mod 10 ^ 18" by (rule frac_some)
  moreover have "units i + units f = units x" by (simp only: i(2) f(2) div_mult_mod_eq)
  moreover have "units f < 10 ^ 18" by (simp add: f(2))
  moreover obtain hi where "fixed_ceil x = Some hi" "units hi = min ((units x + 10 ^ 18 - 1) div 10 ^ 18 * 10 ^ 18) max_integer"
    using integer_some fixed_ceil_eq by metis
  moreover obtain near where "fixed_round x = Some near"
    "units near = min ((2 * units x + 10 ^ 18) div (2 * 10 ^ 18) * 10 ^ 18) max_integer"
    using integer_some fixed_round_eq by metis
  ultimately show ?thesis by metis
qed

section \<open>Divergences\<close>

text \<open>\<open>is_one\<close> is documented to check whether the number is one. It holds of the smallest positive number instead.\<close>

lemma is_one_rejects_one: "\<not> is_one fixed_one \<and> is_one (FixedU128 1)"
  by (simp add: is_one_def fixed_one_def DIV_def)

text \<open>The comment of \<open>checked_div\<close> says that it rounds to the nearest and agrees with \<open>const_checked_div\<close> on positive
  results; two thirds shows that it does not.\<close>

lemma checked_div_differs:
  "fixed_checked_div (FixedU128 2) (FixedU128 3) = Some (FixedU128 666666666666666666) \<and>
   const_checked_div (FixedU128 2) (FixedU128 3) = Some (FixedU128 666666666666666667)"
  by (simp add: fixed_checked_div_units const_checked_div_units of_units_def)

end
