(* ===== verification/Parachain_Data.thy ===== *)
theory Parachain_Data
  imports Relay_State Fixed_Point "HOL-Library.Product_Lexorder"
begin

text \<open>
  The data of the pallet \<open>cumulus-pallet-parachain-system\<close> (\<open>cumulus/pallets/parachain-system/src/lib.rs\<close>): its storage
  with the items of \<open>frame-system\<close> it uses, the inherent data and the message queue chains of
  \<open>cumulus/primitives/parachain-inherent/src/lib.rs\<close>, the checks of the relay parent's number, the consensus hooks, the fee
  factor and the queries of channels. Its hooks and calls are in \<open>Parachain_System\<close>.

  A panic, an \<open>expect\<close> or a failed \<open>assert!\<close> is \<^const>\<open>None\<close>; an error that a call returns is \<open>Inl\<close>. The runtime
  around the pallet is a parameter, the record \<open>para_config\<close>: the handlers of messages act on an environment of
  type \<open>'e\<close>, the hashes, the codec, the trie backend and the version of a runtime blob are functions. Channel lists are
  sorted by para id, as the relay chain promises, so a binary search finds the entry of an id.
\<close>

section \<open>Data\<close>

record InboundDownwardMessage =
  dm_sent_at :: BlockNumber
  dm_msg :: bytes

record InboundHrmpMessage =
  hm_sent_at :: BlockNumber
  hm_data :: bytes

record 'h PersistedValidationData =
  parent_head :: bytes
  relay_parent_number :: BlockNumber
  relay_parent_storage_root :: 'h
  max_pov_size :: u32

record ('h, 'p) ParachainInherentData =
  validation_data :: "'h PersistedValidationData"
  relay_chain_state :: 'p
  downward_messages :: "InboundDownwardMessage list"
  horizontal_messages :: "(ParaId, InboundHrmpMessage list) btree"

datatype ChannelStatus = Closed | Full | Ready nat nat

record ChannelInfo =
  ci_max_capacity :: u32
  ci_max_total_size :: u32
  ci_max_message_size :: u32
  ci_msg_count :: u32
  ci_total_size :: u32

datatype MessageSendError = QueueFull | NoChannel | MessageTooBig | Other

datatype 'b ParaEvent =
    ValidationFunctionStored
  | ValidationFunctionApplied BlockNumber
  | ValidationFunctionDiscarded
  | DownwardMessagesReceived u32
  | DownwardMessagesProcessed Weight 'b
  | UpwardMessageSent "bytes option"

datatype 'h SystemLog = RelayParentStorageRoot 'h BlockNumber | RuntimeEnvironmentUpdated

datatype 'b SystemEvent = CodeUpdated | UpgradeAuthorized 'b bool

datatype ParaError =
    BadOrigin | OverlappingUpgrades | ProhibitedByPolkadot | TooBig | ValidationDataNotAvailable
  | HostConfigurationNotAvailable | NotScheduled | NothingAuthorized | Unauthorized | MultiBlockMigrationsOngoing
  | FailedToExtractRuntimeVersion | InvalidSpecName | SpecVersionNeedsToIncrease

datatype RawOrigin = RootOrigin | SignedOrigin bytes | NoneOrigin

record 'b CodeUpgradeAuthorization =
  code_hash :: 'b
  check_version :: bool

record RuntimeVersion =
  spec_name :: bytes
  spec_version :: u32

text \<open>The storage of the pallet, the items of \<open>frame-system\<close> it uses, and the environment.\<close>

record ('b, 'h, 'p, 'e) para =
  Segment :: "'b segment_state"
  PendingValidationCode :: "bytes option"
  NewValidationCode :: "bytes option"
  ValidationData :: "'h PersistedValidationData option"
  DidSetValidationCode :: bool
  LastRelayChainBlockNumber :: BlockNumber
  UpgradeRestrictionSignal :: "UpgradeRestriction option"
  UpgradeGoAhead :: "UpgradeGoAhead option"
  RelayStateProof :: "'p option"
  RelevantMessagingState :: "'h MessagingStateSnapshot option"
  HostConfiguration :: "AbridgedHostConfiguration option"
  LastDmqMqcHead :: 'h
  LastHrmpMqcHeads :: "(ParaId, 'h) btree"
  ProcessedDownwardMessages :: u32
  HrmpWatermark :: BlockNumber
  HrmpOutboundMessages :: "(ParaId \<times> bytes) list"
  UpwardMessages :: "bytes list"
  PendingUpwardMessages :: "bytes list"
  UpwardDeliveryFeeFactor :: FixedU128
  AnnouncedHrmpMessagesPerCandidate :: u32
  ReservedXcmpWeightOverride :: "Weight option"
  ReservedDmpWeightOverride :: "Weight option"
  CustomValidationHeadData :: "bytes option"
  para_events :: "'h ParaEvent list"
  sys_code :: bytes
  sys_parent_hash :: 'b
  sys_authorized :: "'b CodeUpgradeAuthorization option"
  sys_logs :: "'h SystemLog list"
  sys_events :: "'b SystemEvent list"
  para_env :: 'e

record ('b, 'h, 'p, 'e) para_config =
  SelfParaId :: ParaId
  DbWeight :: RuntimeDbWeight
  ReservedXcmpWeight :: Weight
  max_block_weight :: Weight
  w_enqueue_inbound_downward_messages :: "u32 \<Rightarrow> Weight"
  check_associated_relay_number :: "BlockNumber \<Rightarrow> BlockNumber \<Rightarrow> bool"
  on_state_proof :: "RelayChainStateProof \<Rightarrow> (Weight \<times> UnincludedSegmentCapacity) option"
  on_validation_data :: "'h PersistedValidationData \<Rightarrow> 'e \<Rightarrow> 'e"
  on_validation_code_applied :: "'e \<Rightarrow> 'e"
  dmp_max_message_len :: u32
  dmp_handle_messages :: "bytes list \<Rightarrow> 'e \<Rightarrow> 'e"
  handle_xcmp_messages :: "(ParaId \<times> BlockNumber \<times> bytes) list \<Rightarrow> Weight \<Rightarrow> 'e \<Rightarrow> Weight \<times> 'e"
  take_outbound_messages :: "nat \<Rightarrow> (ParaId \<Rightarrow> ChannelStatus) \<Rightarrow> (ParaId \<Rightarrow> ChannelInfo option) \<Rightarrow> 'e \<Rightarrow> (ParaId \<times> bytes) list \<times> 'e"
  open_proof :: "'p \<Rightarrow> 'h \<Rightarrow> RelayBackend option"
  relay_codec :: "'h RelayCodec"
  hash_link :: "'h \<Rightarrow> BlockNumber \<Rightarrow> 'h \<Rightarrow> 'h"
  hash_data :: "bytes \<Rightarrow> 'h"
  para_hash :: "bytes \<Rightarrow> 'b"
  xcm_hash :: "bytes \<Rightarrow> bytes"
  migrations_ongoing :: "'e \<Rightarrow> bool"
  current_version :: RuntimeVersion
  runtime_version :: "bytes \<Rightarrow> RuntimeVersion option"

definition deposit_para_event :: "'h ParaEvent \<Rightarrow> ('b, 'h, 'p, 'e) para \<Rightarrow> ('b, 'h, 'p, 'e) para" where
  "deposit_para_event e st = st\<lparr>para_events := para_events st @ [e]\<rparr>"

section \<open>Checks of the relay chain's block number and consensus hooks\<close>

definition RelayNumberStrictlyIncreases :: "BlockNumber \<Rightarrow> BlockNumber \<Rightarrow> bool" where
  "RelayNumberStrictlyIncreases current previous \<longleftrightarrow> \<not> current \<le> previous"

definition AnyRelayNumber :: "BlockNumber \<Rightarrow> BlockNumber \<Rightarrow> bool" where
  "AnyRelayNumber current previous \<longleftrightarrow> True"

definition RelayNumberMonotonicallyIncreases :: "BlockNumber \<Rightarrow> BlockNumber \<Rightarrow> bool" where
  "RelayNumberMonotonicallyIncreases current previous \<longleftrightarrow> \<not> current < previous"

definition ExpectParentIncluded_hook :: "RelayChainStateProof \<Rightarrow> (Weight \<times> UnincludedSegmentCapacity) option" where
  "ExpectParentIncluded_hook state_proof = Some (weight_zero, ExpectParentIncluded)"

definition FixedCapacityUnincludedSegment :: "u32 \<Rightarrow> RelayChainStateProof \<Rightarrow> (Weight \<times> UnincludedSegmentCapacity) option" where
  "FixedCapacityUnincludedSegment n state_proof = Some (weight_zero, Value (max n 1))"

section \<open>Message queue chains\<close>

definition extend_hrmp :: "('b, 'h, 'p, 'e) para_config \<Rightarrow> InboundHrmpMessage \<Rightarrow> 'h \<Rightarrow> 'h" where
  "extend_hrmp cfg m prev_head = hash_link cfg prev_head (hm_sent_at m) (hash_data cfg (hm_data m))"

definition extend_downward :: "('b, 'h, 'p, 'e) para_config \<Rightarrow> InboundDownwardMessage \<Rightarrow> 'h \<Rightarrow> 'h" where
  "extend_downward cfg m prev_head = hash_link cfg prev_head (dm_sent_at m) (hash_data cfg (dm_msg m))"

section \<open>Fees of upward messages\<close>

definition THRESHOLD_FACTOR :: u32 where "THRESHOLD_FACTOR = 2"

definition EXPONENTIAL_FEE_BASE :: FixedU128 where
  "EXPONENTIAL_FEE_BASE = (case from_rational 105 100 of Some x \<Rightarrow> x | None \<Rightarrow> fixed_zero)"

definition MESSAGE_SIZE_FEE_BASE :: FixedU128 where
  "MESSAGE_SIZE_FEE_BASE = (case from_rational 1 1000 of Some x \<Rightarrow> x | None \<Rightarrow> fixed_zero)"

definition UpwardInitialDeliveryFeeFactor :: FixedU128 where
  "UpwardInitialDeliveryFeeFactor = from_u32 1"

definition increase_fee_factor :: "FixedU128 \<Rightarrow> ('b, 'h, 'p, 'e) para \<Rightarrow> ('b, 'h, 'p, 'e) para" where
  "increase_fee_factor message_size_factor st = st\<lparr>UpwardDeliveryFeeFactor :=
     fixed_saturating_mul (UpwardDeliveryFeeFactor st) (fixed_saturating_add EXPONENTIAL_FEE_BASE message_size_factor)\<rparr>"

definition decrease_fee_factor :: "('b, 'h, 'p, 'e) para \<Rightarrow> ('b, 'h, 'p, 'e) para option" where
  "decrease_fee_factor st = map_option (\<lambda>f. st\<lparr>UpwardDeliveryFeeFactor := max UpwardInitialDeliveryFeeFactor f\<rparr>)
     (fixed_div (UpwardDeliveryFeeFactor st) EXPONENTIAL_FEE_BASE)"

section \<open>Channels\<close>

definition get_channel_status :: "'h MessagingStateSnapshot option \<Rightarrow> ParaId \<Rightarrow> ChannelStatus" where
  "get_channel_status relevant i = (case relevant of None \<Rightarrow> Closed
     | Some d \<Rightarrow> (case map_of (egress_channels d) i of None \<Rightarrow> Closed
       | Some meta \<Rightarrow>
           if ch_msg_count meta + 1 > max_capacity meta then Full
           else Ready (unat (max_total_size meta - total_size meta)) (unat (max_message_size meta))))"

definition get_channel_info :: "'h MessagingStateSnapshot option \<Rightarrow> ParaId \<Rightarrow> ChannelInfo option" where
  "get_channel_info relevant i = (case relevant of None \<Rightarrow> None
     | Some d \<Rightarrow> map_option (\<lambda>c. \<lparr>ci_max_capacity = max_capacity c, ci_max_total_size = max_total_size c,
         ci_max_message_size = max_message_size c, ci_msg_count = ch_msg_count c, ci_total_size = total_size c\<rparr>)
         (map_of (egress_channels d) i))"

end
