(* ===== verification/Parachain_System.thy ===== *)
theory Parachain_System
  imports Parachain_Data "HOL-Library.Monad_Syntax"
begin

text \<open>
  The hooks and calls of the pallet \<open>cumulus-pallet-parachain-system\<close>: \<open>on_initialize\<close>, the inherent
  \<open>set_validation_data\<close> with everything it does, \<open>on_finalize\<close>, the sending of upward messages, the scheduling and the
  authorization of code upgrades, and what a collator reads afterwards. The unincluded segment is the one of
  \<open>Unincluded_Segment\<close>.
\<close>

section \<open>The inherent: processed messages\<close>

definition drop_processed_messages_from_inherent ::
  "('h, 'p) ParachainInherentData \<Rightarrow> ('b, 'h, 'p, 'e) para \<Rightarrow> ('h, 'p) ParachainInherentData" where
  "drop_processed_messages_from_inherent para_inherent st =
     (let last_relay_block_number = LastRelayChainBlockNumber st;
          dmq_processed_num = length (takeWhile (\<lambda>m. dm_sent_at m \<le> last_relay_block_number) (downward_messages para_inherent))
      in para_inherent\<lparr>downward_messages := drop dmq_processed_num (downward_messages para_inherent),
           horizontal_messages := map (\<lambda>(sender, horizontal).
             (sender, drop (length (takeWhile (\<lambda>m. hm_sent_at m \<le> last_relay_block_number) horizontal)) horizontal))
             (horizontal_messages para_inherent)\<rparr>)"

section \<open>The inherent: inbound messages\<close>

definition enqueue_inbound_downward_messages ::
  "('b, 'h, 'p, 'e) para_config \<Rightarrow> 'h \<Rightarrow> InboundDownwardMessage list \<Rightarrow> ('b, 'h, 'p, 'e) para \<Rightarrow>
   (Weight \<times> ('b, 'h, 'p, 'e) para) option" where
  "enqueue_inbound_downward_messages cfg expected_dmq_mqc_head dms st =
     (let dm_count = of_nat (length dms) :: u32;
          dmq_head = LastDmqMqcHead st;
          weight_used = w_enqueue_inbound_downward_messages cfg dm_count;
          (dmq_head, st) = (if dm_count \<noteq> 0
            then let st = deposit_para_event (DownwardMessagesReceived dm_count) st;
                     dmq_head = fold (extend_downward cfg) dms dmq_head;
                     bounded = filter (\<lambda>m. length m \<le> unat (dmp_max_message_len cfg)) (map dm_msg dms);
                     st = st\<lparr>para_env := dmp_handle_messages cfg bounded (para_env st), LastDmqMqcHead := dmq_head\<rparr>
                 in (dmq_head, deposit_para_event (DownwardMessagesProcessed weight_used dmq_head) st)
            else (dmq_head, st))
      in if dmq_head = expected_dmq_mqc_head
         then Some (weight_used, st\<lparr>ProcessedDownwardMessages := dm_count\<rparr>)
         else None)"

text \<open>The flattening and sorting of the horizontal messages: by block number, then by sender.\<close>

definition sort_horizontal :: "(ParaId, InboundHrmpMessage list) btree \<Rightarrow> (ParaId \<times> InboundHrmpMessage) list" where
  "sort_horizontal hms = sort_key (\<lambda>(sender, m). (hm_sent_at m, sender))
     (concat (map (\<lambda>(sender, channel_contents). map (Pair sender) channel_contents) hms))"

text \<open>\<open>entry(sender).or_insert_with(...)\<close> on the running heads.\<close>

definition mqc_entry :: "'h \<Rightarrow> (ParaId, 'h) btree \<Rightarrow> ParaId \<Rightarrow> (ParaId, 'h) btree \<Rightarrow> 'h" where
  "mqc_entry default_head last_mqc_heads sender running = (case bt_get running sender of Some h \<Rightarrow> h
     | None \<Rightarrow> (case bt_get last_mqc_heads sender of Some h \<Rightarrow> h | None \<Rightarrow> default_head))"

definition extend_running ::
  "('b, 'h, 'p, 'e) para_config \<Rightarrow> (ParaId, 'h) btree \<Rightarrow> ParaId \<times> InboundHrmpMessage \<Rightarrow> (ParaId, 'h) btree \<Rightarrow> (ParaId, 'h) btree" where
  "extend_running cfg last_mqc_heads sm running = (case sm of (sender, m) \<Rightarrow>
     bt_insert sender (extend_hrmp cfg m (mqc_entry (hash_default (relay_codec cfg)) last_mqc_heads sender running)) running)"

definition advance_watermark :: "ParaId \<times> InboundHrmpMessage \<Rightarrow> BlockNumber option \<Rightarrow> BlockNumber option" where
  "advance_watermark sm watermark = (case sm of (sender, m) \<Rightarrow>
     if (case watermark of Some w \<Rightarrow> w < hm_sent_at m | None \<Rightarrow> True) then Some (hm_sent_at m) else watermark)"

text \<open>The final loop over the ingress channels: it carries heads over and compares them with the relay chain's.\<close>

fun check_mqc_heads ::
  "'h \<Rightarrow> (ParaId, 'h) btree \<Rightarrow> (ParaId \<times> 'h AbridgedHrmpChannel) list \<Rightarrow> (ParaId, 'h) btree \<Rightarrow> (ParaId, 'h) btree option" where
  "check_mqc_heads default_head last_mqc_heads [] running = Some running"
| "check_mqc_heads default_head last_mqc_heads ((sender, channel) # rest) running =
     (let cur_head = mqc_entry default_head last_mqc_heads sender running;
          target_head = (case mqc_head channel of Some h \<Rightarrow> h | None \<Rightarrow> default_head)
      in if cur_head = target_head
         then check_mqc_heads default_head last_mqc_heads rest (bt_insert sender cur_head running)
         else None)"

definition enqueue_inbound_horizontal_messages ::
  "('b, 'h, 'p, 'e) para_config \<Rightarrow> (ParaId \<times> 'h AbridgedHrmpChannel) list \<Rightarrow> (ParaId, InboundHrmpMessage list) btree \<Rightarrow>
   BlockNumber \<Rightarrow> ('b, 'h, 'p, 'e) para \<Rightarrow> (Weight \<times> ('b, 'h, 'p, 'e) para) option" where
  "enqueue_inbound_horizontal_messages cfg ingress hms relay_parent st =
     (if \<not> list_all (\<lambda>(sender, _). map_of ingress sender \<noteq> None) hms then None
      else let sorted_messages = sort_horizontal hms;
               last_mqc_heads = LastHrmpMqcHeads st;
               running = fold (extend_running cfg last_mqc_heads) sorted_messages [];
               hrmp_watermark = fold advance_watermark sorted_messages None;
               message_iter = map (\<lambda>(sender, m). (sender, hm_sent_at m, hm_data m)) sorted_messages;
               max_weight = (case ReservedXcmpWeightOverride st of Some w \<Rightarrow> w | None \<Rightarrow> ReservedXcmpWeight cfg);
               (weight_used, e) = handle_xcmp_messages cfg message_iter max_weight (para_env st)
           in case check_mqc_heads (hash_default (relay_codec cfg)) last_mqc_heads ingress running of
                None \<Rightarrow> None
              | Some running \<Rightarrow> Some (weight_used, st\<lparr>para_env := e, LastHrmpMqcHeads := running,
                  HrmpWatermark := (case hrmp_watermark of Some w \<Rightarrow> w | None \<Rightarrow> relay_parent)\<rparr>))"

section \<open>The inherent: code upgrades\<close>

definition update_code_in_storage :: "bytes \<Rightarrow> ('b, 'h, 'p, 'e) para \<Rightarrow> ('b, 'h, 'p, 'e) para" where
  "update_code_in_storage new_code st = st\<lparr>sys_code := new_code, sys_logs := sys_logs st @ [RuntimeEnvironmentUpdated],
     sys_events := sys_events st @ [CodeUpdated]\<rparr>"

definition signal_in_segment :: "('b, 'h, 'p, 'e) para \<Rightarrow> UpgradeGoAhead option" where
  "signal_in_segment st = Option.bind (aggregated_segment (Segment st)) consumed_go_ahead_signal"

definition process_upgrade_signal ::
  "('b, 'h, 'p, 'e) para_config \<Rightarrow> BlockNumber \<Rightarrow> UpgradeGoAhead option \<Rightarrow> ('b, 'h, 'p, 'e) para \<Rightarrow> ('b, 'h, 'p, 'e) para option" where
  "process_upgrade_signal cfg relay_parent upgrade_go_ahead_signal st =
     (let in_segment = signal_in_segment st
      in if in_segment \<noteq> None \<and> upgrade_go_ahead_signal \<noteq> in_segment then None
         else case upgrade_go_ahead_signal of
           None \<Rightarrow> Some st
         | Some signal \<Rightarrow>
             if in_segment \<noteq> None then Some st
             else (case signal of
               GoAhead \<Rightarrow> (case PendingValidationCode st of None \<Rightarrow> None
                 | Some validation_code \<Rightarrow>
                    (let st = update_code_in_storage validation_code (st\<lparr>PendingValidationCode := None\<rparr>);
                         st = st\<lparr>para_env := on_validation_code_applied cfg (para_env st)\<rparr>
                     in Some (deposit_para_event (ValidationFunctionApplied relay_parent) st)))
             | Abort \<Rightarrow> Some (deposit_para_event ValidationFunctionDiscarded (st\<lparr>PendingValidationCode := None\<rparr>))))"

section \<open>The inherent\<close>

definition drop_included :: "('b, 'h, 'p, 'e) para_config \<Rightarrow> RelayChainStateProof \<Rightarrow> UnincludedSegmentCapacity \<Rightarrow>
   ('b, 'h, 'p, 'e) para \<Rightarrow> (Weight \<times> ('b, 'h, 'p, 'e) para) option" where
  "drop_included cfg relay_state_proof capacity st =
     (let para_head = (case read_included_para_head (relay_codec cfg) relay_state_proof of
            Inl _ \<Rightarrow> None | Inr h \<Rightarrow> Some (para_hash cfg h))
      in map_option (\<lambda>(w, seg). (w, st\<lparr>Segment := seg\<rparr>))
           (maybe_drop_included_ancestors (DbWeight cfg) para_head capacity (sys_parent_hash st) (Segment st)))"

text \<open>The part of the inherent that stores the relay chain's data, after the upgrade signal was processed.\<close>

definition store_relay_data ::
  "('b, 'h, 'p, 'e) para_config \<Rightarrow> ('h, 'p) ParachainInherentData \<Rightarrow> RelayChainStateProof \<Rightarrow> UpgradeGoAhead option \<Rightarrow>
   ('b, 'h, 'p, 'e) para \<Rightarrow> ('h MessagingStateSnapshot \<times> ('b, 'h, 'p, 'e) para) option" where
  "store_relay_data cfg data relay_state_proof upgrade_go_ahead_signal st =
     (case read_upgrade_restriction_signal (relay_codec cfg) relay_state_proof of Inl _ \<Rightarrow> None
      | Inr restriction \<Rightarrow>
     (case read_abridged_host_configuration (relay_codec cfg) relay_state_proof of Inl _ \<Rightarrow> None
      | Inr host_config \<Rightarrow>
     (case read_messaging_state_snapshot (relay_codec cfg) relay_state_proof host_config of Inl _ \<Rightarrow> None
      | Inr relevant_messaging_state \<Rightarrow>
          Some (relevant_messaging_state, st\<lparr>UpgradeRestrictionSignal := restriction, UpgradeGoAhead := upgrade_go_ahead_signal,
            ValidationData := Some (validation_data data), RelayStateProof := Some (relay_chain_state data),
            RelevantMessagingState := Some relevant_messaging_state, HostConfiguration := Some host_config,
            para_env := on_validation_data cfg (validation_data data) (para_env st)\<rparr>))))"

definition set_validation_data ::
  "('b, 'h, 'p, 'e) para_config \<Rightarrow> RawOrigin \<Rightarrow> ('h, 'p) ParachainInherentData \<Rightarrow> ('b, 'h, 'p, 'e) para \<Rightarrow>
   (ParaError, Weight \<times> ('b, 'h, 'p, 'e) para) result option" where
  "set_validation_data cfg origin data st =
     (if origin \<noteq> NoneOrigin then Some (Inl BadOrigin)
      else if ValidationData st \<noteq> None then None
      else let vfp = validation_data data
      in if \<not> check_associated_relay_number cfg (relay_parent_number vfp) (LastRelayChainBlockNumber st) then None
      else (case state_proof_new (open_proof cfg) (SelfParaId cfg) (relay_parent_storage_root vfp) (relay_chain_state data) of
        Inl _ \<Rightarrow> None
      | Inr relay_state_proof \<Rightarrow> do {
          (hook_weight, capacity) \<leftarrow> on_state_proof cfg relay_state_proof;
          (drop_weight, st) \<leftarrow> drop_included cfg relay_state_proof capacity st;
          let total_weight = weight_add (weight_add weight_zero hook_weight) drop_weight;
          let st = st\<lparr>sys_logs := sys_logs st @ [RelayParentStorageRoot (relay_parent_storage_root vfp) (relay_parent_number vfp)]\<rparr>;
          upgrade_go_ahead_signal \<leftarrow> (case read_upgrade_go_ahead_signal (relay_codec cfg) relay_state_proof of
            Inl _ \<Rightarrow> None | Inr s \<Rightarrow> Some s);
          st \<leftarrow> process_upgrade_signal cfg (relay_parent_number vfp) upgrade_go_ahead_signal st;
          (relevant, st) \<leftarrow> store_relay_data cfg data relay_state_proof upgrade_go_ahead_signal st;
          (dmp_weight, st) \<leftarrow> enqueue_inbound_downward_messages cfg (dmq_mqc_head relevant) (downward_messages data) st;
          (xcmp_weight, st) \<leftarrow> enqueue_inbound_horizontal_messages cfg (ingress_channels relevant) (horizontal_messages data)
            (relay_parent_number vfp) st;
          Some (Inr (saturating_accrue (saturating_accrue total_weight dmp_weight) xcmp_weight, st))
        }))"

section \<open>Block hooks\<close>

definition on_initialize_weight :: "('b, 'h, 'p, 'e) para_config \<Rightarrow> ('b, 'h, 'p, 'e) para \<Rightarrow> Weight" where
  "on_initialize_weight cfg st =
     (let db = DbWeight cfg;
          w = (if \<not> DidSetValidationCode st then weight_add weight_zero (db_writes db 1) else weight_zero);
          w = weight_add (weight_add w (db_reads_writes db 1 1)) (db_reads_writes db 3 2);
          w = weight_add w (db_writes db 6);
          w = weight_add w (db_reads_writes db 1 1);
          n = (case HostConfiguration st of Some c \<Rightarrow> ucast (hrmp_max_message_num_per_candidate c) | None \<Rightarrow> 0) :: u64;
          w = weight_add w (db_reads_writes db (3 + n) (4 + n));
          w = weight_add w (db_reads_writes db 1 1);
          w = weight_add w (db_reads_writes db 6 3)
      in weight_add w (db_reads db 1))"

definition para_on_initialize :: "('b, 'h, 'p, 'e) para_config \<Rightarrow> ('b, 'h, 'p, 'e) para \<Rightarrow> Weight \<times> ('b, 'h, 'p, 'e) para" where
  "para_on_initialize cfg st =
     (on_initialize_weight cfg st,
      st\<lparr>NewValidationCode := (if \<not> DidSetValidationCode st then None else NewValidationCode st),
        Segment := update_parent_hash (sys_parent_hash st) (Segment st),
        ValidationData := None, ProcessedDownwardMessages := 0, HrmpWatermark := 0, UpwardMessages := [],
        HrmpOutboundMessages := [], CustomValidationHeadData := None,
        AnnouncedHrmpMessagesPerCandidate := (case HostConfiguration st of
          Some c \<Rightarrow> hrmp_max_message_num_per_candidate c | None \<Rightarrow> 0)\<rparr>)"

text \<open>The closure of \<open>on_finalize\<close> that moves pending upward messages.\<close>

definition finalize_upward ::
  "AbridgedHostConfiguration \<Rightarrow> ('b, 'h, 'p, 'e) para \<Rightarrow> ((u32 \<times> u32) \<times> ('b, 'h, 'p, 'e) para) option" where
  "finalize_upward host_config st = (case RelevantMessagingState st of None \<Rightarrow> Some ((0, 0), st)
     | Some limits \<Rightarrow>
        (let ((num, total), sent, pending) = take_upward_messages (relay_dispatch_queue_remaining_capacity limits)
               (max_upward_message_num_per_candidate host_config) (PendingUpwardMessages st);
             st = st\<lparr>UpwardMessages := sent, PendingUpwardMessages := pending\<rparr>;
             threshold = max_upward_queue_size host_config div THRESHOLD_FACTOR;
             remaining_total_size = sum_list (map length pending)
         in map_option (Pair (num, total)) (if remaining_total_size \<le> unat threshold then decrease_fee_factor st else Some st)))"

definition para_on_finalize :: "('b, 'h, 'p, 'e) para_config \<Rightarrow> ('b, 'h, 'p, 'e) para \<Rightarrow> ('b, 'h, 'p, 'e) para option" where
  "para_on_finalize cfg st =
     (let relay_upgrade_go_ahead = UpgradeGoAhead st;
          st = st\<lparr>DidSetValidationCode := False, UpgradeRestrictionSignal := None, UpgradeGoAhead := None\<rparr>
      in case ValidationData st of None \<Rightarrow> None
         | Some vfp \<Rightarrow>
           (let st = st\<lparr>LastRelayChainBlockNumber := relay_parent_number vfp\<rparr>
            in case HostConfiguration st of None \<Rightarrow> Some st
               | Some host_config \<Rightarrow>
             (case RelevantMessagingState st of None \<Rightarrow> Some st
              | Some s \<Rightarrow> do {
                  let total_bandwidth_out = from_relay_chain_state s;
                  let st = st\<lparr>RelevantMessagingState :=
                    adjust_egress_bandwidth_limits (aggregated_segment (Segment st)) (RelevantMessagingState st)\<rparr>;
                  (ump, st) \<leftarrow> finalize_upward host_config st;
                  let maximum_channels = unat (min (hrmp_max_message_num_per_candidate host_config) (AnnouncedHrmpMessagesPerCandidate st));
                  let st = st\<lparr>AnnouncedHrmpMessagesPerCandidate := 0\<rparr>;
                  let (outbound_messages, e) = take_outbound_messages cfg maximum_channels
                    (get_channel_status (RelevantMessagingState st)) (get_channel_info (RelevantMessagingState st)) (para_env st);
                  seg \<leftarrow> finalize_segment ump outbound_messages relay_upgrade_go_ahead (HrmpWatermark st)
                    (relay_parent_number vfp) total_bandwidth_out (Segment st);
                  Some (st\<lparr>para_env := e, Segment := seg, HrmpOutboundMessages := outbound_messages\<rparr>)
                })))"

section \<open>Upward messages\<close>

definition send_upward_message ::
  "('b, 'h, 'p, 'e) para_config \<Rightarrow> bytes \<Rightarrow> ('b, 'h, 'p, 'e) para \<Rightarrow>
   (MessageSendError, u32 \<times> bytes) result \<times> ('b, 'h, 'p, 'e) para" where
  "send_upward_message cfg message st =
     (let message_len = length message;
          sent = (\<lambda>st. let h = xcm_hash cfg message in (Inr (0, h), deposit_para_event (UpwardMessageSent (Some h)) st));
          appended = st\<lparr>PendingUpwardMessages := PendingUpwardMessages st @ [message]\<rparr>
      in case HostConfiguration st of
           Some c \<Rightarrow>
             if message_len > unat (max_upward_message_size c) then (Inl MessageTooBig, st)
             else let threshold = max_upward_queue_size c div THRESHOLD_FACTOR;
                      total_len = sum_list (map length (PendingUpwardMessages appended))
                  in if total_len > unat threshold
                     then let message_size_factor = fixed_saturating_mul (saturating_from_integer (of_nat (message_len div 1024)))
                            MESSAGE_SIZE_FEE_BASE
                          in sent (increase_fee_factor message_size_factor appended)
                     else sent appended
         | None \<Rightarrow> sent appended)"

definition sudo_send_upward_message ::
  "('b, 'h, 'p, 'e) para_config \<Rightarrow> RawOrigin \<Rightarrow> bytes \<Rightarrow> ('b, 'h, 'p, 'e) para \<Rightarrow> (ParaError, ('b, 'h, 'p, 'e) para) result" where
  "sudo_send_upward_message cfg origin message st =
     (if origin \<noteq> RootOrigin then Inl BadOrigin else Inr (snd (send_upward_message cfg message st)))"

section \<open>Scheduling and authorizing code\<close>

definition notify_polkadot_of_pending_upgrade :: "bytes \<Rightarrow> ('b, 'h, 'p, 'e) para \<Rightarrow> ('b, 'h, 'p, 'e) para" where
  "notify_polkadot_of_pending_upgrade new_code st = st\<lparr>NewValidationCode := Some new_code, DidSetValidationCode := True\<rparr>"

definition schedule_code_upgrade :: "bytes \<Rightarrow> ('b, 'h, 'p, 'e) para \<Rightarrow> (ParaError, ('b, 'h, 'p, 'e) para) result" where
  "schedule_code_upgrade validation_function st =
     (if ValidationData st = None then Inl ValidationDataNotAvailable
      else if UpgradeRestrictionSignal st \<noteq> None then Inl ProhibitedByPolkadot
      else if PendingValidationCode st \<noteq> None then Inl OverlappingUpgrades
      else case HostConfiguration st of None \<Rightarrow> Inl HostConfigurationNotAvailable
        | Some c \<Rightarrow>
          if length validation_function > unat (max_code_size c) then Inl TooBig
          else let st = notify_polkadot_of_pending_upgrade validation_function st;
                   st = st\<lparr>PendingValidationCode := Some validation_function\<rparr>
               in Inr (deposit_para_event ValidationFunctionStored st))"

text \<open>\<open>ParachainSetCode::set_code\<close>, which \<open>frame-system\<close> calls.\<close>

definition set_code :: "bytes \<Rightarrow> ('b, 'h, 'p, 'e) para \<Rightarrow> (ParaError, ('b, 'h, 'p, 'e) para) result" where
  "set_code new_code st = schedule_code_upgrade new_code st"

definition can_set_code :: "('b, 'h, 'p, 'e) para_config \<Rightarrow> bytes \<Rightarrow> ('b, 'h, 'p, 'e) para \<Rightarrow> (ParaError, unit) result" where
  "can_set_code cfg new_code st =
     (if migrations_ongoing cfg (para_env st) then Inl MultiBlockMigrationsOngoing
      else case runtime_version cfg new_code of None \<Rightarrow> Inl FailedToExtractRuntimeVersion
        | Some new_version \<Rightarrow>
          if spec_name new_version \<noteq> spec_name (current_version cfg) then Inl InvalidSpecName
          else if spec_version new_version \<le> spec_version (current_version cfg) then Inl SpecVersionNeedsToIncrease
          else Inr ())"

definition do_authorize_upgrade :: "'b \<Rightarrow> bool \<Rightarrow> ('b, 'h, 'p, 'e) para \<Rightarrow> ('b, 'h, 'p, 'e) para" where
  "do_authorize_upgrade h check st = st\<lparr>sys_authorized := Some \<lparr>code_hash = h, check_version = check\<rparr>,
     sys_events := sys_events st @ [UpgradeAuthorized h check]\<rparr>"

definition validate_authorized_upgrade ::
  "('b, 'h, 'p, 'e) para_config \<Rightarrow> bytes \<Rightarrow> ('b, 'h, 'p, 'e) para \<Rightarrow> (ParaError, 'b) result" where
  "validate_authorized_upgrade cfg new_code st = (case sys_authorized st of None \<Rightarrow> Inl NothingAuthorized
     | Some authorization \<Rightarrow>
        (let actual_hash = para_hash cfg new_code
         in if actual_hash \<noteq> code_hash authorization then Inl Unauthorized
            else if check_version authorization
                 then (case can_set_code cfg new_code st of Inl e \<Rightarrow> Inl e | Inr _ \<Rightarrow> Inr actual_hash)
                 else Inr actual_hash))"

definition do_apply_authorize_upgrade ::
  "('b, 'h, 'p, 'e) para_config \<Rightarrow> bytes \<Rightarrow> ('b, 'h, 'p, 'e) para \<Rightarrow> (ParaError, Weight \<times> ('b, 'h, 'p, 'e) para) result" where
  "do_apply_authorize_upgrade cfg new_code st = (case validate_authorized_upgrade cfg new_code st of Inl e \<Rightarrow> Inl e
     | Inr _ \<Rightarrow> (case set_code new_code st of Inl e \<Rightarrow> Inl e
        | Inr st \<Rightarrow> Inr (max_block_weight cfg, st\<lparr>sys_authorized := None\<rparr>)))"

definition authorize_upgrade ::
  "RawOrigin \<Rightarrow> 'b \<Rightarrow> bool \<Rightarrow> ('b, 'h, 'p, 'e) para \<Rightarrow> (ParaError, ('b, 'h, 'p, 'e) para) result" where
  "authorize_upgrade origin h check st = (if origin \<noteq> RootOrigin then Inl BadOrigin else Inr (do_authorize_upgrade h check st))"

definition enact_authorized_upgrade ::
  "('b, 'h, 'p, 'e) para_config \<Rightarrow> RawOrigin \<Rightarrow> bytes \<Rightarrow> ('b, 'h, 'p, 'e) para \<Rightarrow> (ParaError, Weight \<times> ('b, 'h, 'p, 'e) para) result" where
  "enact_authorized_upgrade cfg origin new_code st = do_apply_authorize_upgrade cfg new_code st"

section \<open>Calls as transactions\<close>

datatype ('b, 'h, 'p) ParaCall =
    set_validation_data_call "('h, 'p) ParachainInherentData"
  | sudo_send_upward_message_call bytes
  | authorize_upgrade_call 'b bool
  | enact_authorized_upgrade_call bytes

fun is_inherent :: "('b, 'h, 'p) ParaCall \<Rightarrow> bool" where
  "is_inherent (set_validation_data_call _) = True"
| "is_inherent _ = False"

definition create_inherent :: "('h, 'p) ParachainInherentData option \<Rightarrow> ('b, 'h, 'p, 'e) para \<Rightarrow> ('b, 'h, 'p) ParaCall option" where
  "create_inherent data st = map_option (\<lambda>d. set_validation_data_call (drop_processed_messages_from_inherent d st)) data"

text \<open>A valid unsigned transaction: the priority and the tag it provides, where it is an upgrade.\<close>

fun validate_unsigned ::
  "('b, 'h, 'p, 'e) para_config \<Rightarrow> ('b, 'h, 'p) ParaCall \<Rightarrow> ('b, 'h, 'p, 'e) para \<Rightarrow> (unit, (u64 \<times> 'b) option) result" where
  "validate_unsigned cfg (enact_authorized_upgrade_call new_code) st = (case validate_authorized_upgrade cfg new_code st of
     Inr h \<Rightarrow> Inr (Some (100, h)) | Inl _ \<Rightarrow> Inl ())"
| "validate_unsigned cfg (set_validation_data_call _) st = Inr None"
| "validate_unsigned cfg _ st = Inl ()"

section \<open>What the collator and other pallets read\<close>

record CollationInfo =
  co_upward_messages :: "bytes list"
  co_horizontal_messages :: "(ParaId \<times> bytes) list"
  co_new_validation_code :: "bytes option"
  co_processed_downward_messages :: u32
  co_hrmp_watermark :: BlockNumber
  co_head_data :: bytes

definition collect_collation_info :: "bytes \<Rightarrow> ('b, 'h, 'p, 'e) para \<Rightarrow> CollationInfo" where
  "collect_collation_info encoded_header st = \<lparr>co_upward_messages = UpwardMessages st,
     co_horizontal_messages = HrmpOutboundMessages st, co_new_validation_code = NewValidationCode st,
     co_processed_downward_messages = ProcessedDownwardMessages st, co_hrmp_watermark = HrmpWatermark st,
     co_head_data = (case CustomValidationHeadData st of Some v \<Rightarrow> v | None \<Rightarrow> encoded_header)\<rparr>"

definition set_custom_validation_head_data :: "bytes \<Rightarrow> ('b, 'h, 'p, 'e) para \<Rightarrow> ('b, 'h, 'p, 'e) para" where
  "set_custom_validation_head_data head_data st = st\<lparr>CustomValidationHeadData := Some head_data\<rparr>"

definition unincluded_segment_size_after :: "'b \<Rightarrow> ('b, 'h, 'p, 'e) para \<Rightarrow> u32" where
  "unincluded_segment_size_after included_hash st = size_after_included included_hash (unincluded_segment (Segment st))"

definition max_code_size_of :: "('b, 'h, 'p, 'e) para \<Rightarrow> u32 option" where
  "max_code_size_of st = map_option max_code_size (HostConfiguration st)"

definition last_relay_block_number :: "('b, 'h, 'p, 'e) para \<Rightarrow> BlockNumber" where
  "last_relay_block_number st = LastRelayChainBlockNumber st"

definition current_block_number :: "('b, 'h, 'p, 'e) para \<Rightarrow> BlockNumber" where
  "current_block_number st = (case ValidationData st of Some d \<Rightarrow> relay_parent_number d | None \<Rightarrow> last_relay_block_number st)"

definition current_relay_chain_state :: "('b, 'h, 'p, 'e) para_config \<Rightarrow> ('b, 'h, 'p, 'e) para \<Rightarrow> BlockNumber \<times> 'h" where
  "current_relay_chain_state cfg st = (case ValidationData st of
     Some d \<Rightarrow> (relay_parent_number d, relay_parent_storage_root d) | None \<Rightarrow> (0, hash_default (relay_codec cfg)))"

text \<open>The storage before the first block.\<close>

definition para_genesis :: "('b, 'h, 'p, 'e) para_config \<Rightarrow> bytes \<Rightarrow> 'b \<Rightarrow> 'e \<Rightarrow> ('b, 'h, 'p, 'e) para" where
  "para_genesis cfg genesis_code parent e = \<lparr>Segment = \<lparr>unincluded_segment = [], aggregated_segment = None\<rparr>,
     PendingValidationCode = None, NewValidationCode = None, ValidationData = None, DidSetValidationCode = False,
     LastRelayChainBlockNumber = 0, UpgradeRestrictionSignal = None, UpgradeGoAhead = None, RelayStateProof = None,
     RelevantMessagingState = None, HostConfiguration = None, LastDmqMqcHead = hash_default (relay_codec cfg),
     LastHrmpMqcHeads = [], ProcessedDownwardMessages = 0, HrmpWatermark = 0, HrmpOutboundMessages = [],
     UpwardMessages = [], PendingUpwardMessages = [], UpwardDeliveryFeeFactor = UpwardInitialDeliveryFeeFactor,
     AnnouncedHrmpMessagesPerCandidate = 0, ReservedXcmpWeightOverride = None, ReservedDmpWeightOverride = None,
     CustomValidationHeadData = None, para_events = [], sys_code = genesis_code, sys_parent_hash = parent,
     sys_authorized = None, sys_logs = [], sys_events = [], para_env = e\<rparr>"

end
