(* ===== verification/Segment_Bandwidth.thy ===== *)
theory Segment_Bandwidth
  imports Unincluded_Segment
begin

text \<open>
  What the bandwidth tracker of \<open>Unincluded_Segment\<close> promises. The abstract view of a
  \<open>UsedBandwidth\<close> is the amount used of each resource (upward messages and bytes, messages and bytes
  per channel): \<open>append\<close> adds the amounts and \<open>subtract\<close> takes them away again. On the states the pallet
  can reach, the tracker is the sum over the blocks of the segment, so dropping included blocks never
  meets one of the code's \<open>expect\<close>s.
\<close>

section \<open>The abstract view\<close>

datatype bw_key = UmpCount | UmpBytes | ChanCount ParaId | ChanBytes ParaId

definition chan_of :: "(ParaId, HrmpChannelUpdate) btree \<Rightarrow> ParaId \<Rightarrow> HrmpChannelUpdate" where
  "chan_of m p = (case bt_get m p of Some c \<Rightarrow> c | None \<Rightarrow> hrmp_default)"

fun abs_used :: "UsedBandwidth \<Rightarrow> bw_key \<Rightarrow> nat" where
  "abs_used u UmpCount = unat (ump_msg_count u)"
| "abs_used u UmpBytes = unat (ump_total_bytes u)"
| "abs_used u (ChanCount p) = unat (msg_count (chan_of (hrmp_outgoing u) p))"
| "abs_used u (ChanBytes p) = unat (total_bytes (chan_of (hrmp_outgoing u) p))"

fun abs_limit :: "OutboundBandwidthLimits \<Rightarrow> bw_key \<Rightarrow> nat" where
  "abs_limit l UmpCount = unat (ump_messages_remaining l)"
| "abs_limit l UmpBytes = unat (ump_bytes_remaining l)"
| "abs_limit l (ChanCount p) =
     (case bt_get (limits_hrmp_outgoing l) p of Some h \<Rightarrow> unat (messages_remaining h) | None \<Rightarrow> 0)"
| "abs_limit l (ChanBytes p) =
     (case bt_get (limits_hrmp_outgoing l) p of Some h \<Rightarrow> unat (bytes_remaining h) | None \<Rightarrow> 0)"

definition used_wf :: "UsedBandwidth \<Rightarrow> bool" where
  "used_wf u \<longleftrightarrow> bt_wf (hrmp_outgoing u) \<and>
     list_all (\<lambda>(_, c). \<not> hrmp_is_empty c) (hrmp_outgoing u)"

text \<open>No limit is \<open>u32::MAX\<close>, where the saturating sums of \<open>append\<close> would pass the check.\<close>

definition limits_below_max :: "OutboundBandwidthLimits \<Rightarrow> bool" where
  "limits_below_max l \<longleftrightarrow> ump_messages_remaining l < umax \<and> ump_bytes_remaining l < umax \<and>
     list_all (\<lambda>(_, h). messages_remaining h < umax \<and> bytes_remaining h < umax)
       (limits_hrmp_outgoing l)"

lemma used_wf_entry: "used_wf u \<Longrightarrow> bt_get (hrmp_outgoing u) p = Some c \<Longrightarrow> \<not> hrmp_is_empty c"
  by (auto simp: used_wf_def list_all_iff dest!: map_of_SomeD)

lemma limits_below_max_abs: "limits_below_max l \<Longrightarrow> abs_limit l k < 2 ^ 32 - 1"
  by (cases k)
     (auto simp: limits_below_max_def list_all_iff u_arith unat_umax split: option.splits
       dest!: map_of_SomeD)

lemma used_ext:
  assumes "\<And>k. abs_used u k = abs_used v k" "used_wf u" "used_wf v"
  shows "ump_msg_count u = ump_msg_count v \<and> ump_total_bytes u = ump_total_bytes v \<and>
    bt_get (hrmp_outgoing u) = bt_get (hrmp_outgoing v)"
proof -
  have "bt_get (hrmp_outgoing u) p = bt_get (hrmp_outgoing v) p" for p
    using assms(1)[of "ChanCount p"] assms(1)[of "ChanBytes p"]
      used_wf_entry[OF assms(2), of p] used_wf_entry[OF assms(3), of p]
    by (auto simp: chan_of_def hrmp_is_empty_def hrmp_default_def unsigned_eq_0_iff
        simp flip: word_unat_eq_iff split: option.splits intro: HrmpChannelUpdate.equality)
  moreover from assms(1)[of UmpCount] assms(1)[of UmpBytes]
  have "ump_msg_count u = ump_msg_count v" "ump_total_bytes u = ump_total_bytes v"
    by (auto simp: word_unat_eq_iff)
  ultimately show ?thesis by auto
qed

section \<open>Append adds, subtract takes away\<close>

definition hrmp_sum :: "HrmpChannelUpdate \<Rightarrow> HrmpChannelUpdate \<Rightarrow> HrmpChannelUpdate" where
  "hrmp_sum a b = \<lparr>msg_count = saturating_add (msg_count a) (msg_count b),
     total_bytes = saturating_add (total_bytes a) (total_bytes b)\<rparr>"

definition chan_within :: "OutboundBandwidthLimits \<Rightarrow> ParaId \<Rightarrow> HrmpChannelUpdate \<Rightarrow> bool" where
  "chan_within l p c \<longleftrightarrow> (case bt_get (limits_hrmp_outgoing l) p of None \<Rightarrow> False
     | Some h \<Rightarrow> msg_count c \<le> messages_remaining h \<and> total_bytes c \<le> bytes_remaining h)"

lemma hrmp_append_Inr_iff:
  "hrmp_append a b p l = Some (Inr c) \<longleftrightarrow> c = hrmp_sum a b \<and> chan_within l p c"
  by (auto simp: hrmp_append_def hrmp_sum_def chan_within_def Let_def not_less
      split: option.splits)

lemma saturating_add_0: "saturating_add a 0 = a" "saturating_add 0 a = a"
  by (simp_all add: word_unat_eq_iff unat_saturating_add unat_le_umax min_def)
     (use unat_bound[of a] in linarith)+

lemma chan_of_insert: "chan_of (bt_insert p c m) q = (if q = p then c else chan_of m q)"
  by (simp add: chan_of_def map_of_bt_insert)

lemma current_chan: "(case bt_get m p of Some c \<Rightarrow> c | None \<Rightarrow> hrmp_default) = chan_of m p"
  by (simp add: chan_of_def)

lemma append_channels_sound:
  assumes "append_channels os l acc = Some (Inr r)" "distinct (map fst os)" "bt_wf acc"
  shows "bt_wf r \<and> (\<forall>p. bt_get r p = (case bt_get os p of None \<Rightarrow> bt_get acc p
    | Some o' \<Rightarrow> Some (hrmp_sum (chan_of acc p) o'))) \<and>
    (\<forall>p o'. bt_get os p = Some o' \<longrightarrow> chan_within l p (hrmp_sum (chan_of acc p) o'))"
  using assms
proof (induction os l acc rule: append_channels.induct)
  case (1 l acc)
  then show ?case by auto
next
  case (2 p c rest l acc)
  let ?c = "hrmp_sum (chan_of acc p) c"
  have c': "hrmp_append (chan_of acc p) c p l = Some (Inr ?c)"
    and step: "append_channels rest l (bt_insert p ?c acc) = Some (Inr r)"
    and within: "chan_within l p ?c"
    using "2.prems"(1)
    by (auto simp: Let_def current_chan hrmp_append_Inr_iff split: option.splits sum.splits)
  have p: "bt_get rest p = None" using "2.prems"(2) by (simp add: map_of_eq_None_iff)
  note IH = "2.IH"[OF refl, unfolded current_chan, OF c' refl step]
  have IH': "bt_wf r"
      "bt_get r q = (case bt_get rest q of None \<Rightarrow> bt_get (bt_insert p ?c acc) q
        | Some o' \<Rightarrow> Some (hrmp_sum (chan_of (bt_insert p ?c acc) q) o'))"
      "bt_get rest q = Some o' \<Longrightarrow> chan_within l q (hrmp_sum (chan_of (bt_insert p ?c acc) q) o')"
    for q o'
    using IH "2.prems"(2,3) by (simp_all add: bt_wf_insert)
  show ?case
  proof (intro conjI allI impI)
    fix q
    show "bt_get r q = (case bt_get ((p, c) # rest) q of None \<Rightarrow> bt_get acc q
        | Some o' \<Rightarrow> Some (hrmp_sum (chan_of acc q) o'))"
      using IH'(2)[of q] p
      by (cases "q = p"; cases "bt_get rest q") (simp_all add: chan_of_insert map_of_bt_insert)
    fix o'
    assume "bt_get ((p, c) # rest) q = Some o'"
    then show "chan_within l q (hrmp_sum (chan_of acc q) o')"
      using IH'(3)[of q o'] within by (cases "q = p") (simp_all add: chan_of_insert)
  qed (rule IH'(1))
qed

lemma append_channels_complete:
  assumes "distinct (map fst os)"
    and "\<And>p o'. bt_get os p = Some o' \<Longrightarrow> chan_within l p (hrmp_sum (chan_of acc p) o')"
  shows "\<exists>r. append_channels os l acc = Some (Inr r)"
  using assms
proof (induction os l acc rule: append_channels.induct)
  case (2 p c rest l acc)
  let ?c = "hrmp_sum (chan_of acc p) c"
  have c': "hrmp_append (chan_of acc p) c p l = Some (Inr ?c)"
    using "2.prems"(2)[of p c] by (simp add: hrmp_append_Inr_iff)
  have p: "bt_get rest p = None" using "2.prems"(1) by (simp add: map_of_eq_None_iff)
  have "\<exists>r. append_channels rest l (bt_insert p ?c acc) = Some (Inr r)"
  proof (rule "2.IH"[OF refl, unfolded current_chan, OF c' refl])
    fix q o'
    assume q: "bt_get rest q = Some o'"
    with p have "q \<noteq> p" by auto
    with q "2.prems"(2)[of q o'] show "chan_within l q (hrmp_sum (chan_of (bt_insert p ?c acc) q) o')"
      by (simp add: chan_of_insert)
  qed (use "2.prems"(1) in simp)
  then show ?case by (simp add: Let_def current_chan c')
qed simp

lemma hrmp_sum_nonempty: "\<not> hrmp_is_empty b \<Longrightarrow> \<not> hrmp_is_empty (hrmp_sum a b)"
  by (auto simp: hrmp_is_empty_def hrmp_sum_def saturating_add_eq_0)

lemma used_append_sound:
  assumes app: "used_append u v l = Some (Inr w)" and u: "used_wf u" and v: "used_wf v"
  shows "used_wf w" "abs_used w k = min (abs_used u k + abs_used v k) (2 ^ 32 - 1)"
    "abs_used v k \<noteq> 0 \<Longrightarrow> abs_used w k \<le> abs_limit l k"
proof -
  from app have chans: "append_channels (hrmp_outgoing v) l (hrmp_outgoing u) = Some (Inr (hrmp_outgoing w))"
    and w: "ump_msg_count w = saturating_add (ump_msg_count u) (ump_msg_count v)"
      "ump_total_bytes w = saturating_add (ump_total_bytes u) (ump_total_bytes v)"
      "ump_msg_count w \<le> ump_messages_remaining l" "ump_total_bytes w \<le> ump_bytes_remaining l"
    by (auto simp: used_append_def Let_def split: if_splits option.splits sum.splits)
  from append_channels_sound[OF chans] u v
  have wf: "bt_wf (hrmp_outgoing w)"
    and get: "bt_get (hrmp_outgoing w) p = (case bt_get (hrmp_outgoing v) p of
      None \<Rightarrow> bt_get (hrmp_outgoing u) p
      | Some o' \<Rightarrow> Some (hrmp_sum (chan_of (hrmp_outgoing u) p) o'))"
    and within: "bt_get (hrmp_outgoing v) p = Some o' \<Longrightarrow>
      chan_within l p (hrmp_sum (chan_of (hrmp_outgoing u) p) o')" for p o'
    by (auto simp: used_wf_def bt_wf_distinct)
  have "\<not> hrmp_is_empty c" if "(p, c) \<in> set (hrmp_outgoing w)" for p c
  proof -
    have "bt_get (hrmp_outgoing w) p = Some c" using that wf by (simp add: bt_wf_distinct)
    then show ?thesis
      using used_wf_entry[OF u, of p] used_wf_entry[OF v, of p]
      by (auto simp: get hrmp_sum_nonempty split: option.splits)
  qed
  with wf show "used_wf w" by (auto simp: used_wf_def list_all_iff)
  have chan: "chan_of (hrmp_outgoing w) p =
      hrmp_sum (chan_of (hrmp_outgoing u) p) (chan_of (hrmp_outgoing v) p)" for p
    using get[of p]
    by (auto simp: chan_of_def hrmp_sum_def hrmp_default_def saturating_add_0 split: option.splits)
  show "abs_used w k = min (abs_used u k + abs_used v k) (2 ^ 32 - 1)"
    by (cases k) (simp_all add: w chan hrmp_sum_def unat_saturating_add)
  have within': "chan_within l p (chan_of (hrmp_outgoing w) p)"
    if "abs_used v (ChanCount p) \<noteq> 0 \<or> abs_used v (ChanBytes p) \<noteq> 0" for p
    using that within[of p]
    by (auto simp: chan chan_of_def[of "hrmp_outgoing v"] hrmp_default_def split: option.splits)
  assume "abs_used v k \<noteq> 0"
  then show "abs_used w k \<le> abs_limit l k"
  proof (cases k)
    case (ChanCount p)
    with \<open>abs_used v k \<noteq> 0\<close> within'[of p] show ?thesis
      by (auto simp: chan_within_def word_le_nat_alt split: option.splits)
  next
    case (ChanBytes p)
    with \<open>abs_used v k \<noteq> 0\<close> within'[of p] show ?thesis
      by (auto simp: chan_within_def word_le_nat_alt split: option.splits)
  qed (use w(3,4) in \<open>simp_all add: word_le_nat_alt\<close>)
qed

lemma u32_bound: "unat (a :: u32) \<le> 4294967295"
  using unat_bound[of a] by simp

lemma abs_used_bound: "abs_used u k \<le> 2 ^ 32 - 1"
  by (cases k) (simp_all add: u32_bound)

lemma used_append_exact:
  assumes "used_append u v l = Some (Inr w)" "used_wf u" "used_wf v" "limits_below_max l"
  shows "abs_used w k = abs_used u k + abs_used v k"
  using used_append_sound(2,3)[OF assms(1-3), of k] limits_below_max_abs[OF assms(4), of k]
    abs_used_bound[of u k]
  by (cases "abs_used v k = 0") (auto simp: min_def split: if_splits)

lemma used_append_complete:
  assumes u: "used_wf u" and v: "used_wf v"
    and room: "\<And>k. abs_used u k + abs_used v k \<le> abs_limit l k"
  shows "\<exists>w. used_append u v l = Some (Inr w)"
proof -
  have "chan_within l p (hrmp_sum (chan_of (hrmp_outgoing u) p) c)"
    if c: "bt_get (hrmp_outgoing v) p = Some c" for p c
    using room[of "ChanCount p"] room[of "ChanBytes p"] used_wf_entry[OF v c] c
    by (auto simp: chan_within_def hrmp_sum_def chan_of_def[of "hrmp_outgoing v"] word_le_nat_alt
        unat_saturating_add hrmp_is_empty_def unsigned_eq_0_iff split: option.splits)
  then obtain r where "append_channels (hrmp_outgoing v) l (hrmp_outgoing u) = Some (Inr r)"
    using append_channels_complete[of "hrmp_outgoing v" l "hrmp_outgoing u"] v
    by (auto simp: used_wf_def bt_wf_distinct)
  then show ?thesis
    using room[of UmpCount] room[of UmpBytes]
    by (auto simp: used_append_def Let_def word_less_nat_alt unat_saturating_add)
qed

lemma subtract_channels_spec:
  assumes "distinct (map fst os)" "bt_wf acc" "\<And>p. bt_get os p \<noteq> None \<Longrightarrow> bt_get acc p \<noteq> None"
  shows "\<exists>r. subtract_channels os acc = Some r \<and> bt_wf r \<and>
    (\<forall>p. bt_get r p = (case bt_get os p of None \<Rightarrow> bt_get acc p
      | Some c \<Rightarrow> Some (hrmp_subtract (chan_of acc p) c)))"
  using assms
proof (induction os acc rule: subtract_channels.induct)
  case (2 p c rest acc)
  obtain e where e: "bt_get acc p = Some e" using "2.prems"(3)[of p] by auto
  have p: "bt_get rest p = None" using "2.prems"(1) by (simp add: map_of_eq_None_iff)
  let ?acc = "bt_insert p (hrmp_subtract e c) acc"
  have "\<exists>r. subtract_channels rest ?acc = Some r \<and> bt_wf r \<and>
    (\<forall>q. bt_get r q = (case bt_get rest q of None \<Rightarrow> bt_get ?acc q
      | Some c \<Rightarrow> Some (hrmp_subtract (chan_of ?acc q) c)))"
  proof (rule "2.IH"[OF e])
    fix q
    assume "bt_get rest q \<noteq> None"
    then show "bt_get ?acc q \<noteq> None"
      using "2.prems"(3)[of q] by (cases "q = p") (auto simp: map_of_bt_insert)
  qed (use "2.prems"(1,2) in \<open>auto simp: bt_wf_insert\<close>)
  then obtain r where r: "subtract_channels rest ?acc = Some r" "bt_wf r"
    and get: "\<And>q. bt_get r q = (case bt_get rest q of None \<Rightarrow> bt_get ?acc q
      | Some c \<Rightarrow> Some (hrmp_subtract (chan_of ?acc q) c))" by blast
  have "bt_get r q = (case bt_get ((p, c) # rest) q of None \<Rightarrow> bt_get acc q
      | Some c \<Rightarrow> Some (hrmp_subtract (chan_of acc q) c))" for q
    using get[of q] p e
    by (cases "q = p"; cases "bt_get rest q")
       (simp_all add: chan_of_insert map_of_bt_insert chan_of_def[of acc])
  then show ?case using r e by auto
qed simp

lemma used_subtract_exact:
  assumes u: "used_wf u" and v: "used_wf v" and le: "\<And>k. abs_used v k \<le> abs_used u k"
  shows "\<exists>w. used_subtract u v = Some w \<and> used_wf w \<and> (\<forall>k. abs_used w k = abs_used u k - abs_used v k)"
proof -
  have dom: "bt_get (hrmp_outgoing u) p \<noteq> None" if "bt_get (hrmp_outgoing v) p \<noteq> None" for p
    using that le[of "ChanCount p"] le[of "ChanBytes p"] used_wf_entry[OF v, of p]
    by (auto simp: chan_of_def hrmp_default_def hrmp_is_empty_def unsigned_eq_0_iff
        split: option.splits)
  from u v have "distinct (map fst (hrmp_outgoing v))" "bt_wf (hrmp_outgoing u)"
    by (simp_all add: used_wf_def bt_wf_distinct)
  from subtract_channels_spec[OF this dom]
  obtain r where r: "subtract_channels (hrmp_outgoing v) (hrmp_outgoing u) = Some r"
    and wf: "bt_wf r" and get: "\<And>p. bt_get r p = (case bt_get (hrmp_outgoing v) p of
        None \<Rightarrow> bt_get (hrmp_outgoing u) p
      | Some c \<Rightarrow> Some (hrmp_subtract (chan_of (hrmp_outgoing u) p) c))"
    by blast
  define w where "w = \<lparr>ump_msg_count = ump_msg_count u - ump_msg_count v,
    ump_total_bytes = ump_total_bytes u - ump_total_bytes v,
    hrmp_outgoing = bt_retain (\<lambda>_ c. \<not> hrmp_is_empty c) r\<rparr>"
  have chan: "chan_of (hrmp_outgoing w) p =
      hrmp_subtract (chan_of (hrmp_outgoing u) p) (chan_of (hrmp_outgoing v) p)" for p
    using get[of p] used_wf_entry[OF u, of p]
    by (cases "bt_get (hrmp_outgoing v) p"; cases "bt_get (hrmp_outgoing u) p")
       (simp_all add: w_def chan_of_def map_of_bt_retain wf hrmp_subtract_def hrmp_default_def
         hrmp_is_empty_def)
  have ump: "ump_msg_count w = ump_msg_count u - ump_msg_count v"
    "ump_total_bytes w = ump_total_bytes u - ump_total_bytes v"
    by (simp_all add: w_def)
  have "used_wf w"
    using wf by (auto simp: used_wf_def w_def bt_wf_retain list_all_iff) (auto simp: bt_retain_def)
  moreover have "abs_used w k = abs_used u k - abs_used v k" for k
    using le[of k]
    by (cases k)
       (simp_all add: chan hrmp_subtract_def unat_minus_exact word_le_nat_alt ump)
  moreover have "used_subtract u v = Some w" by (simp add: used_subtract_def r w_def)
  ultimately show ?thesis by blast
qed

lemma used_eqI:
  assumes "\<And>k. abs_used u k = abs_used v k" "used_wf u" "used_wf v"
  shows "u = v"
proof (rule UsedBandwidth.equality)
  show "hrmp_outgoing u = hrmp_outgoing v"
    using used_ext[OF assms] assms(2,3) by (intro bt_ext) (simp_all add: used_wf_def)
qed (use used_ext[OF assms] in simp_all)

end
