(* ===== verification/Segment_Invariant.thy ===== *)
theory Segment_Invariant
  imports Segment_Bandwidth
begin

text \<open>
  The unincluded segment over the life of a parachain: the states reached by importing blocks, the
  invariant that ties the tracker to the blocks of the segment, and what follows from it for the
  panics of \<open>maybe_drop_included_ancestors\<close> and \<open>on_finalize\<close>.
\<close>

section \<open>Blocks\<close>

text \<open>
  One block as it acts on the segment: \<open>on_initialize\<close> records the parent's hash,
  \<open>set_validation_data\<close> drops the included ancestors, and \<open>on_finalize\<close> appends the block.
\<close>

definition segment_block ::
  "RuntimeDbWeight \<Rightarrow> 'h option \<Rightarrow> UnincludedSegmentCapacity \<Rightarrow> 'h \<Rightarrow> u32 \<times> u32 \<Rightarrow>
   (ParaId \<times> bytes) list \<Rightarrow> UpgradeGoAhead option \<Rightarrow> BlockNumber \<Rightarrow> BlockNumber \<Rightarrow>
   OutboundBandwidthLimits \<Rightarrow> 'h segment_state \<Rightarrow> 'h segment_state option" where
  "segment_block db para_head capacity parent ump out signal watermark relay_parent limits st =
     (case maybe_drop_included_ancestors db para_head capacity parent (update_parent_hash parent st) of
        None \<Rightarrow> None
      | Some (_, st') \<Rightarrow> finalize_segment ump out signal watermark relay_parent limits st')"

inductive segment_reachable :: "'h segment_state \<Rightarrow> bool" where
  genesis: "segment_reachable \<lparr>unincluded_segment = [], aggregated_segment = None\<rparr>"
| block: "segment_reachable st \<Longrightarrow> limits_below_max limits \<Longrightarrow>
    segment_block db para_head capacity parent ump out signal watermark relay_parent limits st = Some st' \<Longrightarrow>
    segment_reachable st'"

section \<open>The invariant\<close>

definition tracker_of :: "'h segment_state \<Rightarrow> SegmentTracker" where
  "tracker_of st = (case aggregated_segment st of None \<Rightarrow> tracker_default | Some a \<Rightarrow> a)"

definition seg_sum :: "'h Ancestor list \<Rightarrow> bw_key \<Rightarrow> nat" where
  "seg_sum seg k = sum_list (map (\<lambda>b. abs_used (anc_used_bandwidth b) k) seg)"

definition signal_list :: "'a option \<Rightarrow> 'a list" where
  "signal_list s = (case s of None \<Rightarrow> [] | Some x \<Rightarrow> [x])"

definition seg_signals :: "'h Ancestor list \<Rightarrow> UpgradeGoAhead list" where
  "seg_signals seg = concat (map (\<lambda>b. signal_list (anc_consumed_go_ahead_signal b)) seg)"

definition blocks_wf :: "'h Ancestor list \<Rightarrow> bool" where
  "blocks_wf seg \<longleftrightarrow> list_all (\<lambda>b. used_wf (anc_used_bandwidth b)) seg"

definition tracks :: "SegmentTracker \<Rightarrow> (bw_key \<Rightarrow> nat) \<Rightarrow> UpgradeGoAhead list \<Rightarrow> bool" where
  "tracks a amounts signals \<longleftrightarrow> used_wf (used_bandwidth a) \<and> abs_used (used_bandwidth a) = amounts \<and>
     signal_list (consumed_go_ahead_signal a) = signals"

definition seg_inv :: "'h segment_state \<Rightarrow> bool" where
  "seg_inv st \<longleftrightarrow> (let seg = unincluded_segment st in
     blocks_wf seg \<and> tracks (tracker_of st) (seg_sum seg) (seg_signals seg) \<and>
     (aggregated_segment st = None \<longrightarrow> seg = []) \<and>
     list_all (\<lambda>b. para_head_hash b \<noteq> None) (butlast seg))"

lemma seg_simps [simp]:
  "seg_sum [] = (\<lambda>_. 0)" "seg_sum (b # s) = (\<lambda>k. abs_used (anc_used_bandwidth b) k + seg_sum s k)"
  "seg_sum (s @ t) = (\<lambda>k. seg_sum s k + seg_sum t k)"
  "seg_signals [] = []"
  "seg_signals (b # s) = signal_list (anc_consumed_go_ahead_signal b) @ seg_signals s"
  "seg_signals (s @ t) = seg_signals s @ seg_signals t"
  "blocks_wf []" "blocks_wf (b # s) \<longleftrightarrow> used_wf (anc_used_bandwidth b) \<and> blocks_wf s"
  "blocks_wf (s @ t) \<longleftrightarrow> blocks_wf s \<and> blocks_wf t"
  by (auto simp: seg_sum_def seg_signals_def blocks_wf_def fun_eq_iff)

lemma signal_list_simps [simp]:
  "signal_list None = []" "signal_list (Some x) = [x]" "signal_list s = [] \<longleftrightarrow> s = None"
  by (auto simp: signal_list_def split: option.splits)

lemma abs_used_default [simp]: "abs_used used_default k = 0"
  by (cases k) (simp_all add: used_default_def chan_of_def hrmp_default_def)

lemma tracks_default: "tracks tracker_default (\<lambda>_. 0) []"
  by (auto simp: tracks_def tracker_default_def used_wf_def) (simp_all add: used_default_def)

lemma tracker_subtract_ok:
  assumes "tracks a (\<lambda>k. abs_used (anc_used_bandwidth b) k + r k)
      (signal_list (anc_consumed_go_ahead_signal b) @ sg)"
    and "used_wf (anc_used_bandwidth b)"
  shows "\<exists>a'. tracker_subtract a b = Some a' \<and> tracks a' r sg"
proof -
  from assms obtain w where w: "used_subtract (used_bandwidth a) (anc_used_bandwidth b) = Some w"
    "used_wf w" "\<forall>k. abs_used w k = abs_used (used_bandwidth a) k - abs_used (anc_used_bandwidth b) k"
    using used_subtract_exact[of "used_bandwidth a" "anc_used_bandwidth b"] by (auto simp: tracks_def)
  with assms(1) have "abs_used w = r" by (auto simp: tracks_def)
  with assms w show ?thesis
    by (auto simp: tracker_subtract_def tracks_def signal_list_def split: option.splits if_splits)
qed

lemma subtract_all_ok:
  "tracks a (\<lambda>k. seg_sum pre k + r k) (seg_signals pre @ sg) \<Longrightarrow> blocks_wf pre \<Longrightarrow>
     \<exists>a'. subtract_all pre a = Some a' \<and> tracks a' r sg"
proof (induction pre arbitrary: a)
  case (Cons b pre)
  from Cons.prems obtain a1 where "tracker_subtract a b = Some a1"
    "tracks a1 (\<lambda>k. seg_sum pre k + r k) (seg_signals pre @ sg)"
    using tracker_subtract_ok[of a b "\<lambda>k. seg_sum pre k + r k" "seg_signals pre @ sg"]
    by (auto simp: add.assoc)
  with Cons show ?case by simp
qed simp

lemma tracker_append_ok:
  assumes "tracker_append a b w l = Some (Inr a')" "tracks a r sg"
    and "used_wf (anc_used_bandwidth b)" "limits_below_max l"
  shows "tracks a' (\<lambda>k. r k + abs_used (anc_used_bandwidth b) k)
      (sg @ signal_list (anc_consumed_go_ahead_signal b))"
proof -
  from assms(1) have app: "used_append (used_bandwidth a) (anc_used_bandwidth b) l =
      Some (Inr (used_bandwidth a'))"
    and sig: "consumed_go_ahead_signal a' = (case anc_consumed_go_ahead_signal b of
      Some s \<Rightarrow> Some s | None \<Rightarrow> consumed_go_ahead_signal a)"
      "consumed_go_ahead_signal a = None \<or> anc_consumed_go_ahead_signal b = None"
    by (auto simp: tracker_append_def split: if_splits option.splits sum.splits)
  have wf: "used_wf (used_bandwidth a)" using assms(2) by (simp add: tracks_def)
  have "abs_used (used_bandwidth a') k =
      abs_used (used_bandwidth a) k + abs_used (anc_used_bandwidth b) k" for k
    by (rule used_append_exact[OF app wf assms(3,4)])
  with sig assms(2) used_append_sound(1)[OF app wf assms(3)] show ?thesis
    by (auto simp: tracks_def split: option.splits)
qed

section \<open>Every block keeps the invariant\<close>

lemma update_parent_hash_seg:
  "unincluded_segment (update_parent_hash h st) = (let seg = unincluded_segment st in
     if seg = [] then [] else butlast seg @ [replace_para_head_hash (last seg) h])"
  by (cases "unincluded_segment st" rule: rev_cases) (auto simp: update_parent_hash_def)

lemma update_parent_hash_agg [simp]:
  "aggregated_segment (update_parent_hash h st) = aggregated_segment st"
  by (auto simp: update_parent_hash_def split: list.splits)

lemma replace_simps [simp]:
  "anc_used_bandwidth (replace_para_head_hash b h) = anc_used_bandwidth b"
  "anc_consumed_go_ahead_signal (replace_para_head_hash b h) = anc_consumed_go_ahead_signal b"
  "para_head_hash (replace_para_head_hash b h) = Some h"
  by (simp_all add: replace_para_head_hash_def)

definition all_hashed :: "'h segment_state \<Rightarrow> bool" where
  "all_hashed st \<longleftrightarrow> list_all (\<lambda>b. para_head_hash b \<noteq> None) (unincluded_segment st)"

lemma update_parent_hash_inv:
  assumes "seg_inv st"
  shows "seg_inv (update_parent_hash h st)" "all_hashed (update_parent_hash h st)"
  using assms
  by (cases "unincluded_segment st" rule: rev_cases;
      simp add: seg_inv_def Let_def tracker_of_def update_parent_hash_seg all_hashed_def)+

lemma included_position_hashed:
  "list_all (\<lambda>b. para_head_hash b \<noteq> None) seg \<Longrightarrow>
     included_position h seg = Some (position (\<lambda>b. para_head_hash b = Some h) seg)"
  by (induction seg) auto

lemma position_less: "position p xs = Some i \<Longrightarrow> i < length xs"
  by (induction xs arbitrary: i) (auto split: if_splits)

definition included_count :: "'h \<Rightarrow> 'h Ancestor list \<Rightarrow> nat" where
  "included_count h seg = (case position (\<lambda>b. para_head_hash b = Some h) seg of
     Some i \<Rightarrow> i + 1 | None \<Rightarrow> 0)"

lemma included_count_le: "included_count h seg \<le> length seg"
  using position_less by (fastforce simp: included_count_def Suc_le_eq split: option.splits)

lemma seg_inv_split:
  assumes "seg_inv st" "unincluded_segment st = pre @ suf" "pre \<noteq> []"
  obtains a a' where "aggregated_segment st = Some a" "subtract_all pre a = Some a'"
    "tracks a' (seg_sum suf) (seg_signals suf)"
proof -
  from assms obtain a where a: "aggregated_segment st = Some a"
    by (auto simp: seg_inv_def Let_def)
  with assms have "tracks a (\<lambda>k. seg_sum pre k + seg_sum suf k) (seg_signals pre @ seg_signals suf)"
    "blocks_wf pre"
    by (auto simp: seg_inv_def Let_def tracker_of_def)
  from subtract_all_ok[OF this] a that show ?thesis by blast
qed

text \<open>
  On a state of the invariant, dropping the included blocks goes through exactly if the included
  head is known and the segment has room for one more block.
\<close>

lemma maybe_drop_cases:
  assumes inv: "seg_inv st" and hashed: "all_hashed st"
  shows "case select_included_head para_head capacity parent of
      None \<Rightarrow> maybe_drop_included_ancestors db para_head capacity parent st = None
    | Some h \<Rightarrow> if size_after_included h (unincluded_segment st) < capacity_get capacity
        then \<exists>w st'. maybe_drop_included_ancestors db para_head capacity parent st = Some (w, st') \<and>
          unincluded_segment st' = drop (included_count h (unincluded_segment st)) (unincluded_segment st) \<and>
          seg_inv st' \<and> all_hashed st'
        else maybe_drop_included_ancestors db para_head capacity parent st = None"
proof (cases "select_included_head para_head capacity parent")
  case (Some h)
  let ?seg = "unincluded_segment st" and ?n = "included_count h (unincluded_segment st)"
  have pos: "included_position h ?seg = Some (position (\<lambda>b. para_head_hash b = Some h) ?seg)"
    using hashed by (simp add: all_hashed_def included_position_hashed)
  have n: "(case position (\<lambda>b. para_head_hash b = Some h) ?seg of None \<Rightarrow> 0 | Some i \<Rightarrow> i + 1) = ?n"
    by (simp add: included_count_def split: option.splits)
  have size: "size_after_included h ?seg = of_nat (length ?seg - length (take ?n ?seg))"
    using included_count_le[of h ?seg]
    by (simp add: size_after_included_def Let_def included_count_def split: option.splits)
  have keep: "seg_inv \<lparr>unincluded_segment = drop ?n ?seg, aggregated_segment = a'\<rparr> \<and>
      all_hashed \<lparr>unincluded_segment = drop ?n ?seg, aggregated_segment = a'\<rparr>"
    if "a' = None \<longrightarrow> drop ?n ?seg = []"
      "tracks (case a' of None \<Rightarrow> tracker_default | Some a \<Rightarrow> a) (seg_sum (drop ?n ?seg)) (seg_signals (drop ?n ?seg))"
    for a'
    using that inv hashed in_set_dropD[of _ ?n ?seg] in_set_butlastD[of _ "drop ?n ?seg"]
    by (auto simp: seg_inv_def all_hashed_def Let_def tracker_of_def blocks_wf_def list_all_iff)
  show ?thesis
  proof (cases "take ?n ?seg = []")
    case True
    then have "?n = 0 \<or> ?seg = []" by simp
    with inv have "aggregated_segment st = None \<longrightarrow> drop ?n ?seg = []"
      "tracks (tracker_of st) (seg_sum (drop ?n ?seg)) (seg_signals (drop ?n ?seg))"
      by (auto simp: seg_inv_def Let_def)
    with keep[of "aggregated_segment st"] True show ?thesis
      by (simp add: Some maybe_drop_included_ancestors_def Let_def pos n size tracker_of_def)
  next
    case False
    obtain a a' where "aggregated_segment st = Some a" "subtract_all (take ?n ?seg) a = Some a'"
      "tracks a' (seg_sum (drop ?n ?seg)) (seg_signals (drop ?n ?seg))"
      by (rule seg_inv_split[OF inv _ False, of "drop ?n ?seg"]) auto
    with keep[of "Some a'"] False show ?thesis
      by (simp add: Some maybe_drop_included_ancestors_def Let_def pos n size)
  qed
qed (simp add: maybe_drop_included_ancestors_def)

definition outgoing_of :: "(ParaId \<times> bytes) list \<Rightarrow> (ParaId, HrmpChannelUpdate) btree" where
  "outgoing_of out = bt_collect (map (\<lambda>(recipient, data).
     (recipient, \<lparr>msg_count = 1, total_bytes = of_nat (length data)\<rparr>)) out)"

definition block_used :: "u32 \<times> u32 \<Rightarrow> (ParaId \<times> bytes) list \<Rightarrow> UsedBandwidth" where
  "block_used ump out = \<lparr>ump_msg_count = fst ump, ump_total_bytes = snd ump,
     hrmp_outgoing = outgoing_of out\<rparr>"

lemma block_used_wf: "used_wf (block_used ump out)"
  by (auto simp: used_wf_def block_used_def outgoing_of_def bt_wf_collect list_all_iff
      hrmp_is_empty_def dest!: set_bt_collect)

lemma finalize_segment_unfold:
  "finalize_segment ump out signal watermark relay_parent limits st =
     (let b = new_unchecked (block_used ump out)
         (if consumed_go_ahead_signal (tracker_of st) \<noteq> None then None else signal)
      in case tracker_append (tracker_of st) b (watermark_update_new watermark relay_parent) limits of
           Some (Inr a) \<Rightarrow> Some \<lparr>unincluded_segment = unincluded_segment st @ [b], aggregated_segment = Some a\<rparr>
         | _ \<Rightarrow> None)"
  by (simp add: finalize_segment_def Let_def block_used_def outgoing_of_def tracker_of_def
      cong: option.case_cong)

lemma finalize_segment_inv:
  assumes "finalize_segment ump out signal watermark relay_parent limits st = Some st'"
    and "seg_inv st" "all_hashed st" "limits_below_max limits"
  shows "seg_inv st'"
proof -
  define b :: "'a Ancestor" where "b = new_unchecked (block_used ump out)
    (if consumed_go_ahead_signal (tracker_of st) \<noteq> None then None else signal)"
  from assms(1) obtain a where
    a: "tracker_append (tracker_of st) b (watermark_update_new watermark relay_parent) limits = Some (Inr a)"
    and st': "st' = \<lparr>unincluded_segment = unincluded_segment st @ [b], aggregated_segment = Some a\<rparr>"
    by (auto simp: finalize_segment_unfold Let_def b_def split: option.splits sum.splits)
  have b: "used_wf (anc_used_bandwidth b)" by (simp add: b_def new_unchecked_def block_used_wf)
  from assms(2) have "tracks (tracker_of st) (seg_sum (unincluded_segment st)) (seg_signals (unincluded_segment st))"
    by (simp add: seg_inv_def Let_def)
  from tracker_append_ok[OF a this b assms(4)] assms(2,3) b show ?thesis
    by (simp add: seg_inv_def Let_def st' tracker_of_def all_hashed_def)
qed

lemma segment_block_inv:
  assumes "segment_block db para_head capacity parent ump out signal watermark relay_parent limits st = Some st'"
    and "seg_inv st" "limits_below_max limits"
  shows "seg_inv st'"
proof -
  from assms(1) obtain w st1 where drop:
      "maybe_drop_included_ancestors db para_head capacity parent (update_parent_hash parent st) = Some (w, st1)"
    and fin: "finalize_segment ump out signal watermark relay_parent limits st1 = Some st'"
    by (auto simp: segment_block_def split: option.splits)
  have "seg_inv st1 \<and> all_hashed st1"
    using maybe_drop_cases[OF update_parent_hash_inv[OF assms(2), of parent], where para_head = para_head
        and capacity = capacity and parent = parent and db = db] drop
    by (auto split: option.splits if_splits)
  with finalize_segment_inv[OF fin] assms(3) show ?thesis by blast
qed

lemma segment_reachable_inv: "segment_reachable st \<Longrightarrow> seg_inv st"
proof (induction rule: segment_reachable.induct)
  case genesis
  show ?case using tracks_default by (simp add: seg_inv_def tracker_of_def)
next
  case (block st limits db para_head capacity parent ump out signal watermark relay_parent st')
  show ?case by (rule segment_block_inv[OF block(3,4,2)])
qed

section \<open>Properties\<close>

text \<open>C24: appending the bandwidth of a block to a segment and subtracting it again gives back the
  very same bandwidth record, whatever block and segment they are, as long as no limit is
  \<open>u32::MAX\<close> (where the saturating additions could lose bytes unnoticed).\<close>

theorem used_append_subtract:
  assumes "used_append u v l = Some (Inr w)" "used_wf u" "used_wf v" "limits_below_max l"
  shows "used_subtract w v = Some u"
proof -
  have w: "used_wf w" and sum: "\<And>k. abs_used w k = abs_used u k + abs_used v k"
    using used_append_sound(1) used_append_exact assms by blast+
  then obtain u' where "used_subtract w v = Some u'" "used_wf u'" "\<And>k. abs_used u' k = abs_used u k"
    using used_subtract_exact[OF w assms(3)] by auto
  with used_eqI[of u' u] assms(2) show ?thesis by blast
qed

text \<open>C8: on every state the parachain reaches, the tracker holds exactly the sum of the bandwidth of
  the blocks of the unincluded segment, for upward messages and for every channel, and the go-ahead
  signal it stores is the one signal that a block of the segment consumed. The limits of the blocks are below
  \<open>u32::MAX\<close>.\<close>

theorem segment_tracker_exact:
  assumes "segment_reachable st"
  shows "abs_used (used_bandwidth (tracker_of st)) k = seg_sum (unincluded_segment st) k \<and>
    seg_signals (unincluded_segment st) = signal_list (consumed_go_ahead_signal (tracker_of st))"
  using segment_reachable_inv[OF assms] by (simp add: seg_inv_def Let_def tracks_def)

text \<open>C10: on every state the parachain reaches, once the parent's hash is recorded, dropping the
  included ancestors panics only when the included head is not available or when the blocks after
  the included one already fill the capacity: none of the \<open>expect\<close>s on head hashes and channel
  entries, and no assertion on the go-ahead signal, can fail.\<close>

theorem maybe_drop_panics_iff:
  assumes "segment_reachable st"
  shows "maybe_drop_included_ancestors db para_head capacity parent (update_parent_hash parent st) = None \<longleftrightarrow>
    (case select_included_head para_head capacity parent of None \<Rightarrow> True
     | Some h \<Rightarrow> capacity_get capacity \<le>
         size_after_included h (unincluded_segment (update_parent_hash parent st)))"
  using maybe_drop_cases[OF update_parent_hash_inv[OF segment_reachable_inv[OF assms], of parent],
      where para_head = para_head and capacity = capacity and parent = parent and db = db]
  by (auto simp: not_le not_less split: option.splits if_splits)

section \<open>Room for the next block\<close>

lemma map_of_adjust_channel:
  "map_of (adjust_channel (p, used) chans) q = map_option (\<lambda>c. if q = p
     then c\<lparr>total_size := min (total_size c + total_bytes used) (max_total_size c),
            ch_msg_count := min (ch_msg_count c + msg_count used) (max_capacity c)\<rparr>
     else c) (map_of chans q)"
  by (induction chans) (auto simp: adjust_channel_def)

lemma map_of_adjust_channels:
  assumes "distinct (map fst us)"
  shows "map_of (fold adjust_channel us chans) q = (case map_of us q of None \<Rightarrow> map_of chans q
     | Some used \<Rightarrow> map_option (\<lambda>c.
         c\<lparr>total_size := min (total_size c + total_bytes used) (max_total_size c),
           ch_msg_count := min (ch_msg_count c + msg_count used) (max_capacity c)\<rparr>) (map_of chans q))"
  using assms
proof (induction us arbitrary: chans)
  case (Cons x us)
  obtain p used where x: "x = (p, used)" by (cases x)
  have "map_of us p = None" using Cons.prems by (simp add: x map_of_eq_None_iff)
  with Cons show ?case
    by (cases "q = p"; cases "map_of us q"; cases "map_of chans q")
       (simp_all add: x map_of_adjust_channel)
qed simp

lemma ump_scan_spec:
  assumes "(n, t) = ump_scan cap sz msgs (c, s)" "unat c + length msgs < 2 ^ 32"
    "unat s + sum_list (map length msgs) < 2 ^ 32" "c \<le> cap" "s \<le> sz"
  shows "\<exists>m \<le> length msgs. unat n = unat c + m \<and> unat t = unat s + sum_list (map length (take m msgs)) \<and>
    n \<le> cap \<and> t \<le> sz \<and> (m < length msgs \<longrightarrow> unat cap < unat n + 1 \<or> unat sz < unat t + length (msgs ! m))"
  using assms
proof (induction msgs arbitrary: c s)
  case (Cons msg msgs)
  let ?c = "saturating_add c 1" and ?s = "saturating_add s (of_nat (length msg))"
  have c: "unat ?c = unat c + 1" and s: "unat ?s = unat s + length msg"
    using Cons.prems(2,3) by (simp_all add: unat_saturating_add unat_of_nat)
  show ?case
  proof (cases "?c \<le> cap \<and> ?s \<le> sz")
    case True
    then have "(n, t) = ump_scan cap sz msgs (?c, ?s)"
      using Cons.prems(1) by (simp add: Let_def checked_sub_def)
    from Cons.IH[OF this] True Cons.prems(2,3) obtain m where m: "m \<le> length msgs"
      "unat n = unat ?c + m" "unat t = unat ?s + sum_list (map length (take m msgs))" "n \<le> cap" "t \<le> sz"
      "m < length msgs \<longrightarrow> unat cap < unat n + 1 \<or> unat sz < unat t + length (msgs ! m)"
      by (auto simp: c s)
    then show ?thesis by (intro exI[of _ "Suc m"]) (auto simp: c s)
  next
    case False
    then have "(n, t) = (c, s)"
      using Cons.prems(1) by (auto simp: Let_def checked_sub_def)
    with False Cons.prems show ?thesis
      by (intro exI[of _ 0]) (auto simp: word_le_nat_alt c s)
  qed
qed auto

text \<open>C25: the upward messages taken in \<open>on_finalize\<close> are the longest prefix of the pending messages
  that respects the queue's remaining count and size and the limit per candidate; the recorded
  number and size are those of the prefix, and the rest stays pending in order.\<close>

theorem take_upward_longest_prefix:
  assumes "length up < 2 ^ 32" "sum_list (map length up) < 2 ^ 32"
    and "((num, sz), sent, pending) = take_upward_messages limits max_num up"
  shows "sent @ pending = up \<and> unat num = length sent \<and> unat sz = sum_list (map length sent) \<and>
    num \<le> remaining_count limits \<and> num \<le> max_num \<and> sz \<le> remaining_size limits \<and>
    (pending \<noteq> [] \<longrightarrow> unat (min (remaining_count limits) max_num) < length sent + 1 \<or>
       unat (remaining_size limits) < unat sz + length (hd pending))"
proof -
  let ?cap = "min (remaining_count limits) max_num"
  from assms(3) have scan: "(num, sz) = ump_scan ?cap (remaining_size limits) up (0, 0)"
    and sp: "sent = take (unat num) up" "pending = drop (unat num) up"
    by (auto simp: take_upward_messages_def Let_def split: prod.splits)
  from ump_scan_spec[OF scan] assms(1,2) obtain m where "m \<le> length up" "unat num = m"
    "unat sz = sum_list (map length (take m up))" "num \<le> ?cap" "sz \<le> remaining_size limits"
    "m < length up \<longrightarrow> unat ?cap < m + 1 \<or> unat (remaining_size limits) < unat sz + length (up ! m)"
    by auto
  then show ?thesis by (auto simp: sp hd_drop_conv_nth)
qed

lemma map_of_rev_distinct: "distinct (map fst kvs) \<Longrightarrow> map_of (rev kvs) = map_of kvs"
proof (induction kvs)
  case (Cons y kvs)
  then show ?case
    by (cases y) (auto simp: map_add_def fun_eq_iff split: option.splits
        dest!: map_of_SomeD intro: rev_image_eqI)
qed simp

lemma map_of_collect_distinct:
  assumes "distinct (map fst kvs)"
  shows "map_of (bt_collect (map (\<lambda>(k, v). (k, f v)) kvs)) k = map_option f (map_of kvs k)"
proof -
  have "map fst (map (\<lambda>(k, v). (k, f v)) kvs) = map fst kvs" by auto
  with assms have "map_of (rev (map (\<lambda>(k, v). (k, f v)) kvs)) = map_of (map (\<lambda>(k, v). (k, f v)) kvs)"
    by (intro map_of_rev_distinct) (simp only:)
  then show ?thesis by (simp only: map_of_bt_collect map_of_map comp_def)
qed

lemma abs_block_used:
  assumes "distinct (map fst out)"
  shows "abs_used (block_used ump out) (ChanCount p) = (if map_of out p = None then 0 else 1)"
    "abs_used (block_used ump out) (ChanBytes p) = (case map_of out p of None \<Rightarrow> 0
       | Some d \<Rightarrow> length d mod 2 ^ 32)"
  using map_of_collect_distinct[OF assms, where k = p and
      f = "\<lambda>d. \<lparr>msg_count = 1, total_bytes = of_nat (length d)\<rparr>"]
  by (auto simp: block_used_def outgoing_of_def chan_of_def hrmp_default_def unat_of_nat
      split: option.splits)

lemma limit_of_channel:
  assumes "bt_wf (egress_channels ms)" "map_of (egress_channels ms) p = Some c"
  shows "abs_limit (from_relay_chain_state ms) (ChanCount p) = unat (max_capacity c) - unat (ch_msg_count c)"
    "abs_limit (from_relay_chain_state ms) (ChanBytes p) = unat (max_total_size c) - unat (total_size c)"
  using map_of_collect_distinct[OF bt_wf_distinct[OF assms(1)], where k = p and
      f = "\<lambda>c. \<lparr>bytes_remaining = saturating_sub (max_total_size c) (total_size c),
        messages_remaining = saturating_sub (max_capacity c) (ch_msg_count c)\<rparr>"] assms(2)
  by (simp_all add: from_relay_chain_state_def Let_def unat_saturating_sub)

text \<open>A message fits a channel of the adjusted snapshot.\<close>

definition message_fits :: "'h MessagingStateSnapshot \<Rightarrow> ParaId \<times> bytes \<Rightarrow> bool" where
  "message_fits ms m = (case m of (p, data) \<Rightarrow> (case map_of (egress_channels ms) p of None \<Rightarrow> False
     | Some c \<Rightarrow> unat (ch_msg_count c) + 1 \<le> unat (max_capacity c) \<and>
         unat (total_size c) + length data \<le> unat (max_total_size c)))"

lemma min_plus_exact:
  fixes a b m :: u32
  assumes "unat b \<le> unat m - unat a" "unat (min (a + b) m) + n \<le> unat m"
  shows "unat b + n \<le> unat m - unat a"
proof (cases "unat a \<le> unat m")
  case True
  with assms(1) u32_bound[of m] have "unat (a + b) = unat a + unat b"
    by (intro unat_plus_exact) simp
  with True assms show ?thesis by (simp add: min_def word_le_nat_alt split: if_splits)
next
  case False
  with assms(1) have "b = 0" by (simp add: unsigned_eq_0_iff)
  with False assms(2) show ?thesis by (auto simp: min_def word_le_nat_alt split: if_splits)
qed

lemma channel_room:
  assumes wf: "bt_wf (egress_channels ms)" "used_wf u"
    and le: "\<And>k. abs_used u k \<le> abs_limit (from_relay_chain_state ms) k"
    and egress: "egress_channels ms' = fold adjust_channel (hrmp_outgoing u) (egress_channels ms)"
    and fits: "message_fits ms' (p, data)"
  shows "abs_used u (ChanCount p) + 1 \<le> abs_limit (from_relay_chain_state ms) (ChanCount p)"
    "abs_used u (ChanBytes p) + length data \<le> abs_limit (from_relay_chain_state ms) (ChanBytes p)"
proof -
  have *: "map_of (egress_channels ms') p = (case map_of (hrmp_outgoing u) p of
      None \<Rightarrow> map_of (egress_channels ms) p
    | Some used \<Rightarrow> map_option (\<lambda>c.
         c\<lparr>total_size := min (total_size c + total_bytes used) (max_total_size c),
           ch_msg_count := min (ch_msg_count c + msg_count used) (max_capacity c)\<rparr>)
        (map_of (egress_channels ms) p))"
    using wf(2) by (simp add: egress map_of_adjust_channels used_wf_def bt_wf_distinct)
  have "map_of (egress_channels ms) p \<noteq> None"
    using fits *
    by (cases "map_of (hrmp_outgoing u) p"; cases "map_of (egress_channels ms) p")
       (simp_all add: message_fits_def)
  then obtain c where c: "map_of (egress_channels ms) p = Some c" by blast
  note lim = limit_of_channel[OF wf(1) c]
  let ?u = "chan_of (hrmp_outgoing u) p"
  have fit: "unat (min (ch_msg_count c + msg_count ?u) (max_capacity c)) + 1 \<le> unat (max_capacity c)"
    "unat (min (total_size c + total_bytes ?u) (max_total_size c)) + length data \<le> unat (max_total_size c)"
  proof (atomize (full), cases "map_of (hrmp_outgoing u) p")
    case None
    have min: "unat (min x y) \<le> unat x" for x y :: u32 by (simp add: min_def word_le_nat_alt)
    have "unat (ch_msg_count c) + 1 \<le> unat (max_capacity c) \<and>
        unat (total_size c) + length data \<le> unat (max_total_size c)"
      using fits None c by (simp add: message_fits_def *)
    then show "unat (min (ch_msg_count c + msg_count ?u) (max_capacity c)) + 1 \<le> unat (max_capacity c) \<and>
      unat (min (total_size c + total_bytes ?u) (max_total_size c)) + length data \<le> unat (max_total_size c)"
      using min[of "ch_msg_count c" "max_capacity c"] min[of "total_size c" "max_total_size c"]
      by (simp add: chan_of_def None hrmp_default_def)
  next
    case (Some used)
    then show "unat (min (ch_msg_count c + msg_count ?u) (max_capacity c)) + 1 \<le> unat (max_capacity c) \<and>
      unat (min (total_size c + total_bytes ?u) (max_total_size c)) + length data \<le> unat (max_total_size c)"
      using fits c by (simp add: message_fits_def * chan_of_def)
  qed
  show "abs_used u (ChanCount p) + 1 \<le> abs_limit (from_relay_chain_state ms) (ChanCount p)"
    using min_plus_exact[OF _ fit(1)] le[of "ChanCount p"] by (simp only: lim abs_used.simps)
  show "abs_used u (ChanBytes p) + length data \<le> abs_limit (from_relay_chain_state ms) (ChanBytes p)"
    using min_plus_exact[OF _ fit(2)] le[of "ChanBytes p"] by (simp only: lim abs_used.simps)
qed

lemma block_room:
  assumes "bt_wf (egress_channels ms)" "used_wf u"
    and le: "\<And>k. abs_used u k \<le> abs_limit (from_relay_chain_state ms) k"
    and "egress_channels ms' = fold adjust_channel (hrmp_outgoing u) (egress_channels ms)"
    and ump: "unat (fst ump) \<le> abs_limit (from_relay_chain_state ms) UmpCount - abs_used u UmpCount"
      "unat (snd ump) \<le> abs_limit (from_relay_chain_state ms) UmpBytes - abs_used u UmpBytes"
    and out: "distinct (map fst out)" "list_all (message_fits ms') out"
  shows "abs_used u k + abs_used (block_used ump out) k \<le> abs_limit (from_relay_chain_state ms) k"
proof -
  have fits: "message_fits ms' (p, d)" if "map_of out p = Some d" for p d
    using that out(2) by (auto simp: list_all_iff dest: map_of_SomeD)
  note room = channel_room[OF assms(1,2) le assms(4) fits]
  show ?thesis
  proof (cases k)
    case (ChanCount p)
    show ?thesis
    proof (cases "map_of out p")
      case None
      then show ?thesis using le[of k] by (simp only: ChanCount abs_block_used[OF out(1)]) simp
    next
      case (Some d)
      then show ?thesis using room(1)[OF Some] by (simp only: ChanCount abs_block_used[OF out(1)]) simp
    qed
  next
    case (ChanBytes p)
    show ?thesis
    proof (cases "map_of out p")
      case None
      then show ?thesis using le[of k] by (simp only: ChanBytes abs_block_used[OF out(1)]) simp
    next
      case (Some d)
      have "length d mod 2 ^ 32 \<le> length d" by simp
      with room(2)[OF Some] have
        "abs_used u (ChanBytes p) + length d mod 2 ^ 32 \<le> abs_limit (from_relay_chain_state ms) (ChanBytes p)"
        by linarith
      with Some show ?thesis by (simp only: ChanBytes abs_block_used[OF out(1)] option.case)
    qed
  qed (use ump le[of UmpCount] le[of UmpBytes] in \<open>simp_all add: block_used_def le_diff_conv2 add.commute\<close>)
qed

text \<open>A segment without a tracker counts as one with the default tracker.\<close>

lemma adjust_tracker_of:
  "adjust_egress_bandwidth_limits (aggregated_segment st) (Some ms) = adjust_egress_bandwidth_limits (Some (tracker_of st)) (Some ms)"
  by (cases "aggregated_segment st")
     (simp_all add: tracker_of_def adjust_egress_bandwidth_limits_def tracker_default_def used_default_def Let_def saturating_sub_def)

lemma finalize_room:
  assumes "bt_wf (egress_channels ms)" "tracker_of st = a" "used_wf (used_bandwidth a)"
    and "\<And>k. abs_used (used_bandwidth a) k \<le> abs_limit (from_relay_chain_state ms) k"
    and "adjust_egress_bandwidth_limits (Some a) (Some ms) = Some ms'"
    and "take_upward_messages (relay_dispatch_queue_remaining_capacity ms') max_num up = (ump, sent, rest)"
    and "length up < 2 ^ 32" "sum_list (map length up) < 2 ^ 32"
    and "distinct (map fst out)" "list_all (message_fits ms') out"
    and "watermark_conflict (hrmp_watermark a) (watermark_update_new watermark relay_parent) = None"
  shows "finalize_segment ump out signal watermark relay_parent (from_relay_chain_state ms) st \<noteq> None"
proof -
  let ?l = "from_relay_chain_state ms" and ?u = "used_bandwidth a"
  obtain num sz where ump: "ump = (num, sz)" by (cases ump)
  from assms(5) have egress: "egress_channels ms' = fold adjust_channel (hrmp_outgoing ?u) (egress_channels ms)"
    and cap: "remaining_count (relay_dispatch_queue_remaining_capacity ms') =
        saturating_sub (remaining_count (relay_dispatch_queue_remaining_capacity ms)) (ump_msg_count ?u)"
      "remaining_size (relay_dispatch_queue_remaining_capacity ms') =
        saturating_sub (remaining_size (relay_dispatch_queue_remaining_capacity ms)) (ump_total_bytes ?u)"
    by (auto simp: adjust_egress_bandwidth_limits_def Let_def)
  have "(num, sz) = ump_scan (min (remaining_count (relay_dispatch_queue_remaining_capacity ms')) max_num)
      (remaining_size (relay_dispatch_queue_remaining_capacity ms')) up (0, 0)"
    using assms(6) by (auto simp: ump take_upward_messages_def Let_def split: prod.splits)
  from ump_scan_spec[OF this] assms(7,8) have
    "num \<le> remaining_count (relay_dispatch_queue_remaining_capacity ms')"
    "sz \<le> remaining_size (relay_dispatch_queue_remaining_capacity ms')" by auto
  then have room: "unat (fst ump) \<le> abs_limit ?l UmpCount - abs_used ?u UmpCount"
    "unat (snd ump) \<le> abs_limit ?l UmpBytes - abs_used ?u UmpBytes"
    by (simp_all add: ump cap word_le_nat_alt unat_saturating_sub from_relay_chain_state_def Let_def)
  obtain w where "used_append ?u (block_used ump out) ?l = Some (Inr w)"
    using used_append_complete[OF assms(3) block_used_wf
        block_room[OF assms(1,3,4) egress room assms(9,10)]] by blast
  then show ?thesis
    by (simp add: finalize_segment_unfold Let_def assms(2,11) tracker_append_def
        new_unchecked_def)
qed

text \<open>A block that sends what \<open>on_finalize\<close> lets it send never exceeds the limits of the segment.
  Where the segment's bandwidth is within the limits of the relay chain's snapshot, the upward
  messages taken under the adjusted snapshot together with at most one fitting message per adjusted
  channel are accepted by \<open>append\<close>: the \<open>expect("unincluded segment limits exceeded")\<close> does not panic.\<close>

theorem finalize_within_limits:
  assumes "bt_wf (egress_channels ms)" "aggregated_segment st = Some a" "used_wf (used_bandwidth a)"
    and "\<And>k. abs_used (used_bandwidth a) k \<le> abs_limit (from_relay_chain_state ms) k"
    and "adjust_egress_bandwidth_limits (Some a) (Some ms) = Some ms'"
    and "take_upward_messages (relay_dispatch_queue_remaining_capacity ms') max_num up = (ump, sent, rest)"
    and "length up < 2 ^ 32" "sum_list (map length up) < 2 ^ 32"
    and "distinct (map fst out)" "list_all (message_fits ms') out"
    and "watermark_conflict (hrmp_watermark a) (watermark_update_new watermark relay_parent) = None"
  shows "finalize_segment ump out signal watermark relay_parent (from_relay_chain_state ms) st \<noteq> None"
  by (rule finalize_room[where a = a]) (use assms in \<open>simp_all add: tracker_of_def\<close>)

section \<open>Examples\<close>

definition ex_limits :: OutboundBandwidthLimits where
  "ex_limits = \<lparr>ump_messages_remaining = 10, ump_bytes_remaining = 100,
     limits_hrmp_outgoing = [(5, \<lparr>bytes_remaining = 50, messages_remaining = 4\<rparr>)]\<rparr>"

definition ex_block :: UsedBandwidth where
  "ex_block = \<lparr>ump_msg_count = 1, ump_total_bytes = 3,
     hrmp_outgoing = [(5, \<lparr>msg_count = 1, total_bytes = 2\<rparr>)]\<rparr>"

definition ex_used :: UsedBandwidth where
  "ex_used = \<lparr>ump_msg_count = 2, ump_total_bytes = 6,
     hrmp_outgoing = [(5, \<lparr>msg_count = 2, total_bytes = 4\<rparr>)]\<rparr>"

theorem used_append_subtract_witness: "used_subtract ex_used ex_block = Some ex_block"
proof (rule used_append_subtract)
  show "used_append ex_block ex_block ex_limits = Some (Inr ex_used)" by code_simp
  show "used_wf ex_block" by code_simp
  show "used_wf ex_block" by code_simp
  show "limits_below_max ex_limits" by code_simp
qed

definition ex_db :: RuntimeDbWeight where "ex_db = \<lparr>db_read = 1, db_write = 2\<rparr>"

definition ex_state :: "nat segment_state" where
  "ex_state = \<lparr>unincluded_segment = [new_unchecked ex_block (Some GoAhead)],
     aggregated_segment = Some \<lparr>used_bandwidth = ex_block, hrmp_watermark = Some 7,
       consumed_go_ahead_signal = Some GoAhead\<rparr>\<rparr>"

lemma ex_state_reachable: "segment_reachable ex_state"
proof (rule segment_reachable.block[OF segment_reachable.genesis])
  show "limits_below_max ex_limits" by code_simp
  show "segment_block ex_db (Some 0) (Value 2) 0 (1, 3) [(5, [8, 9])] (Some GoAhead) 7 7 ex_limits
    \<lparr>unincluded_segment = [], aggregated_segment = None\<rparr> = Some ex_state" by code_simp
qed

theorem segment_tracker_exact_witness:
  "segment_reachable ex_state \<and> abs_used (used_bandwidth (tracker_of ex_state)) (ChanBytes 5) = 2 \<and>
   seg_sum (unincluded_segment ex_state) (ChanBytes 5) = 2"
  using segment_tracker_exact[OF ex_state_reachable, of "ChanBytes 5"] ex_state_reachable
  by (simp add: ex_state_def seg_sum_def new_unchecked_def ex_block_def chan_of_def tracker_of_def)

theorem maybe_drop_panics_iff_witness:
  "maybe_drop_included_ancestors ex_db (Some 0) (Value 1) 4 (update_parent_hash 4 ex_state) = None \<and>
   maybe_drop_included_ancestors ex_db (Some 4) (Value 1) 4 (update_parent_hash 4 ex_state) \<noteq> None"
proof
  have "(case select_included_head (Some 0) (Value 1) (4 :: nat) of None \<Rightarrow> True
     | Some h \<Rightarrow> capacity_get (Value 1) \<le>
         size_after_included h (unincluded_segment (update_parent_hash 4 ex_state)))" by code_simp
  then show "maybe_drop_included_ancestors ex_db (Some 0) (Value 1) 4 (update_parent_hash 4 ex_state) = None"
    by (simp only: maybe_drop_panics_iff[OF ex_state_reachable])
  have "\<not> (case select_included_head (Some 4) (Value 1) (4 :: nat) of None \<Rightarrow> True
     | Some h \<Rightarrow> capacity_get (Value 1) \<le>
         size_after_included h (unincluded_segment (update_parent_hash 4 ex_state)))" by code_simp
  then show "maybe_drop_included_ancestors ex_db (Some 4) (Value 1) 4 (update_parent_hash 4 ex_state) \<noteq> None"
    by (simp only: maybe_drop_panics_iff[OF ex_state_reachable] simp_thms)
qed

definition ex_up :: "bytes list" where
  "ex_up = [[1, 2], [3], [4, 5, 6, 7]]"

theorem take_upward_longest_prefix_witness:
  "take_upward_messages \<lparr>remaining_count = 5, remaining_size = 4\<rparr> 9 ex_up =
     ((2, 3), [[1, 2], [3]], [[4, 5, 6, 7]]) \<and> [[1, 2], [3]] @ [[4, 5, 6, 7]] = ex_up"
proof -
  have e: "((2, 3), [[1, 2], [3]], [[4, 5, 6, 7]]) =
      take_upward_messages \<lparr>remaining_count = 5, remaining_size = 4\<rparr> 9 ex_up" by code_simp
  show ?thesis using take_upward_longest_prefix[OF _ _ e] e by (simp add: ex_up_def)
qed

definition ex_channel :: "nat AbridgedHrmpChannel" where
  "ex_channel = \<lparr>max_capacity = 4, max_total_size = 50, max_message_size = 20, ch_msg_count = 1,
     total_size = 5, mqc_head = None\<rparr>"

definition ex_snapshot :: "nat MessagingStateSnapshot" where
  "ex_snapshot = \<lparr>dmq_mqc_head = 0,
     relay_dispatch_queue_remaining_capacity = \<lparr>remaining_count = 10, remaining_size = 100\<rparr>,
     ingress_channels = [], egress_channels = [(5, ex_channel)]\<rparr>"

lemma ex_used_within: "abs_used ex_block k \<le> abs_limit (from_relay_chain_state ex_snapshot) k"
  by (cases k)
     (simp_all add: ex_block_def ex_snapshot_def ex_channel_def from_relay_chain_state_def chan_of_def
       hrmp_default_def bt_collect_def saturating_sub_def)

definition ex_adjusted :: "nat MessagingStateSnapshot" where
  "ex_adjusted = ex_snapshot\<lparr>
     relay_dispatch_queue_remaining_capacity := \<lparr>remaining_count = 9, remaining_size = 97\<rparr>,
     egress_channels := [(5, ex_channel\<lparr>total_size := 7, ch_msg_count := 2\<rparr>)]\<rparr>"

theorem finalize_within_limits_witness:
  "finalize_segment (3, 7) [(5, [1, 2, 3])] None 8 9 (from_relay_chain_state ex_snapshot) ex_state \<noteq> None"
proof (rule finalize_within_limits)
  show "bt_wf (egress_channels ex_snapshot)" by code_simp
  show "aggregated_segment ex_state = Some \<lparr>used_bandwidth = ex_block, hrmp_watermark = Some 7,
       consumed_go_ahead_signal = Some GoAhead\<rparr>" by (simp add: ex_state_def)
  show "used_wf (used_bandwidth \<lparr>used_bandwidth = ex_block, hrmp_watermark = Some 7,
       consumed_go_ahead_signal = Some GoAhead\<rparr>)" by code_simp
  show "abs_used (used_bandwidth \<lparr>used_bandwidth = ex_block, hrmp_watermark = Some 7,
       consumed_go_ahead_signal = Some GoAhead\<rparr>) k \<le> abs_limit (from_relay_chain_state ex_snapshot) k" for k
    by (simp add: ex_used_within)
  show "adjust_egress_bandwidth_limits (Some \<lparr>used_bandwidth = ex_block, hrmp_watermark = Some 7,
       consumed_go_ahead_signal = Some GoAhead\<rparr>) (Some ex_snapshot) = Some ex_adjusted" by code_simp
  show "take_upward_messages (relay_dispatch_queue_remaining_capacity ex_adjusted) 5 ex_up =
      ((3, 7), ex_up, [])" by code_simp
  show "length ex_up < 2 ^ 32" "sum_list (map length ex_up) < 2 ^ 32" by (simp_all add: ex_up_def)
  show "distinct (map fst [(5 :: u32, [1, 2, 3] :: bytes)])" by simp
  show "list_all (message_fits ex_adjusted) [(5, [1, 2, 3])]" by code_simp
  show "watermark_conflict (hrmp_watermark \<lparr>used_bandwidth = ex_block, hrmp_watermark = Some 7,
       consumed_go_ahead_signal = Some GoAhead\<rparr>) (watermark_update_new 8 9) = None" by code_simp
qed

end
