(* ===== verification/Parachain_Blocks.thy ===== *)
theory Parachain_Blocks
  imports Parachain_System Segment_Invariant
begin

text \<open>
  Blocks of a parachain as the pallet \<open>parachain-system\<close> sees them: \<open>on_initialize\<close>, the operations of other pallets before
  the inherent, the inherent, the operations after it, \<open>on_finalize\<close>. A chain of blocks is logged, and the lemmas say
  what each phase keeps and changes.
\<close>

section \<open>Operations between the hooks\<close>

text \<open>One operation with the upward message it accepts and the code it schedules.\<close>

inductive para_op ::
  "('b, 'h, 'p, 'e) para_config \<Rightarrow> bytes list \<Rightarrow> bytes list \<Rightarrow> ('b, 'h, 'p, 'e) para \<Rightarrow> ('b, 'h, 'p, 'e) para \<Rightarrow> bool"
  for cfg :: "('b, 'h, 'p, 'e) para_config" where
  op_send: "send_upward_message cfg m st = (Inr r, st') \<Longrightarrow> para_op cfg [m] [] st st'"
| op_send_refused: "send_upward_message cfg m st = (Inl err, st') \<Longrightarrow> para_op cfg [] [] st st'"
| op_sudo_send: "sudo_send_upward_message cfg origin m st = Inr st' \<Longrightarrow> send_upward_message cfg m st = (Inr r, st'') \<Longrightarrow>
    para_op cfg [m] [] st st'"
| op_set_code: "set_code c st = Inr st' \<Longrightarrow> para_op cfg [] [c] st st'"
| op_authorize: "authorize_upgrade origin h check st = Inr st' \<Longrightarrow> para_op cfg [] [] st st'"
| op_enact: "enact_authorized_upgrade cfg origin c st = Inr (w, st') \<Longrightarrow> para_op cfg [] [c] st st'"
| op_head_data: "para_op cfg [] [] st (set_custom_validation_head_data v st)"
| op_runtime: "para_op cfg [] [] st (st\<lparr>para_env := e\<rparr>)"

inductive para_ops ::
  "('b, 'h, 'p, 'e) para_config \<Rightarrow> bytes list \<Rightarrow> bytes list \<Rightarrow> ('b, 'h, 'p, 'e) para \<Rightarrow> ('b, 'h, 'p, 'e) para \<Rightarrow> bool"
  for cfg :: "('b, 'h, 'p, 'e) para_config" where
  ops_none: "para_ops cfg [] [] st st"
| ops_more: "para_ops cfg up codes st st' \<Longrightarrow> para_op cfg up' codes' st' st'' \<Longrightarrow>
    para_ops cfg (up @ up') (codes @ codes') st st''"

section \<open>Blocks\<close>

text \<open>\<open>frame_system::initialize\<close>, as far as the pallet reads it.\<close>

definition new_block :: "'b \<Rightarrow> ('b, 'h, 'p, 'e) para \<Rightarrow> ('b, 'h, 'p, 'e) para" where
  "new_block parent st = st\<lparr>sys_parent_hash := parent, sys_logs := []\<rparr>"

text \<open>The log of a block: the inherent, the relay chain's snapshot, the upward messages it accepted and sent, the code
  it scheduled, and the scheduled code that the relay chain's signal resolved, with whether it was applied.\<close>

record ('h, 'p) block_log =
  lg_data :: "('h, 'p) ParachainInherentData"
  lg_snapshot :: "'h MessagingStateSnapshot"
  lg_accepted :: "bytes list"
  lg_upward :: "bytes list"
  lg_scheduled :: "bytes list"
  lg_resolved :: "(bytes \<times> bool) list"

definition resolved_by :: "('b, 'h, 'p, 'e) para \<Rightarrow> ('b, 'h, 'p, 'e) para \<Rightarrow> (bytes \<times> bool) list" where
  "resolved_by before after = (case PendingValidationCode before of None \<Rightarrow> []
     | Some c \<Rightarrow> if PendingValidationCode after = None then [(c, UpgradeGoAhead after = Some GoAhead)] else [])"

text \<open>A block up to \<open>on_finalize\<close>. A vector has fewer than \<open>2 ^ 32\<close> elements in the runtime's memory.\<close>

inductive para_open ::
  "('b, 'h, 'p, 'e) para_config \<Rightarrow> ('h, 'p) block_log \<Rightarrow> ('b, 'h, 'p, 'e) para \<Rightarrow> ('b, 'h, 'p, 'e) para \<Rightarrow> bool"
  for cfg :: "('b, 'h, 'p, 'e) para_config" where
  open_block: "para_on_initialize cfg (new_block parent st) = (w1, st1) \<Longrightarrow> para_ops cfg up1 codes1 st1 st2 \<Longrightarrow>
    set_validation_data cfg NoneOrigin data st2 = Some (Inr (w2, st3)) \<Longrightarrow> length (downward_messages data) < 2 ^ 32 \<Longrightarrow>
    RelevantMessagingState st3 = Some s \<Longrightarrow> para_ops cfg up2 codes2 st3 st4 \<Longrightarrow>
    para_open cfg \<lparr>lg_data = data, lg_snapshot = s, lg_accepted = up1 @ up2, lg_upward = [], lg_scheduled = codes1 @ codes2,
      lg_resolved = resolved_by st2 st3\<rparr> st st4"

inductive para_chain ::
  "('b, 'h, 'p, 'e) para_config \<Rightarrow> bytes \<Rightarrow> ('h, 'p) block_log list \<Rightarrow> ('b, 'h, 'p, 'e) para \<Rightarrow> bool"
  for cfg :: "('b, 'h, 'p, 'e) para_config" and code0 :: bytes where
  chain_genesis: "para_chain cfg code0 [] (para_genesis cfg code0 parent e)"
| chain_block: "para_chain cfg code0 logs st \<Longrightarrow> para_open cfg lg st st' \<Longrightarrow> para_on_finalize cfg st' = Some st'' \<Longrightarrow>
    para_chain cfg code0 (logs @ [lg\<lparr>lg_upward := UpwardMessages st''\<rparr>]) st''"

section \<open>What the operations keep\<close>

definition keeps_relay :: "('b, 'h, 'p, 'e) para \<Rightarrow> ('b, 'h, 'p, 'e) para \<Rightarrow> bool" where
  "keeps_relay st st' \<longleftrightarrow> Segment st' = Segment st \<and> ValidationData st' = ValidationData st \<and>
     HostConfiguration st' = HostConfiguration st \<and> RelevantMessagingState st' = RelevantMessagingState st \<and>
     LastDmqMqcHead st' = LastDmqMqcHead st \<and> LastHrmpMqcHeads st' = LastHrmpMqcHeads st \<and>
     HrmpWatermark st' = HrmpWatermark st \<and> UpgradeGoAhead st' = UpgradeGoAhead st \<and>
     LastRelayChainBlockNumber st' = LastRelayChainBlockNumber st \<and> sys_code st' = sys_code st \<and>
     sys_parent_hash st' = sys_parent_hash st"

definition pending_list :: "('b, 'h, 'p, 'e) para \<Rightarrow> bytes list" where
  "pending_list st = (case PendingValidationCode st of None \<Rightarrow> [] | Some c \<Rightarrow> [c])"

lemma keeps_relay_refl [simp]: "keeps_relay st st"
  by (simp add: keeps_relay_def)

lemma keeps_relay_trans: "keeps_relay a b \<Longrightarrow> keeps_relay b c \<Longrightarrow> keeps_relay a c"
  by (simp add: keeps_relay_def)

lemma deposit_para_event_simps [simp]:
  "keeps_relay st (deposit_para_event ev st)" "PendingUpwardMessages (deposit_para_event ev st) = PendingUpwardMessages st"
  "PendingValidationCode (deposit_para_event ev st) = PendingValidationCode st"
  "UpwardDeliveryFeeFactor (deposit_para_event ev st) = UpwardDeliveryFeeFactor st"
  by (simp_all add: deposit_para_event_def keeps_relay_def)

definition fee_ok :: "('b, 'h, 'p, 'e) para \<Rightarrow> bool" where
  "fee_ok st \<longleftrightarrow> UpwardInitialDeliveryFeeFactor \<le> UpwardDeliveryFeeFactor st"

lemma fee_constants [simp]:
  "units EXPONENTIAL_FEE_BASE = 1050000000000000000" "units MESSAGE_SIZE_FEE_BASE = 1000000000000000"
  "units UpwardInitialDeliveryFeeFactor = 1000000000000000000"
  by (simp_all add: EXPONENTIAL_FEE_BASE_def MESSAGE_SIZE_FEE_BASE_def UpwardInitialDeliveryFeeFactor_def from_rational_units
      of_units_def from_u32_def DIV_def)

lemma fee_ok_iff: "fee_ok st \<longleftrightarrow> 10 ^ 18 \<le> units (UpwardDeliveryFeeFactor st)"
  by (simp add: fee_ok_def units_le_iff)

lemma increase_fee_factor_ge:
  "units (UpwardDeliveryFeeFactor st) \<le> units (UpwardDeliveryFeeFactor (increase_fee_factor x st))"
proof -
  let ?f = "units (UpwardDeliveryFeeFactor st)" and ?b = "units (fixed_saturating_add EXPONENTIAL_FEE_BASE x)"
  have "10 ^ 18 \<le> ?b" by simp
  then have "?f * 10 ^ 18 \<le> ?f * ?b" by (rule mult_le_mono2)
  then have "?f * 10 ^ 18 div 10 ^ 18 \<le> ?f * ?b div 10 ^ 18" by (rule div_le_mono)
  moreover have "?f * 10 ^ 18 div 10 ^ 18 = ?f" by (rule nonzero_mult_div_cancel_right) simp
  ultimately have "?f \<le> ?f * ?b div 10 ^ 18" by (simp only:)
  moreover have "?f \<le> 2 ^ 128 - 1" using units_bound[of "UpwardDeliveryFeeFactor st"] by linarith
  moreover have "UpwardDeliveryFeeFactor (increase_fee_factor x st) =
      fixed_saturating_mul (UpwardDeliveryFeeFactor st) (fixed_saturating_add EXPONENTIAL_FEE_BASE x)"
    by (simp add: increase_fee_factor_def)
  ultimately show ?thesis by (simp only: units_saturating_mul min.bounded_iff simp_thms)
qed

lemma decrease_fee_factor_some:
  obtains f where "decrease_fee_factor st = Some (st\<lparr>UpwardDeliveryFeeFactor := max UpwardInitialDeliveryFeeFactor f\<rparr>)"
    "units f = units (UpwardDeliveryFeeFactor st) * 10 ^ 18 div 1050000000000000000"
proof -
  let ?f = "units (UpwardDeliveryFeeFactor st)"
  have "?f * 10 ^ 18 div 1050000000000000000 \<le> ?f * 1050000000000000000 div 1050000000000000000"
    by (intro div_le_mono mult_le_mono2) simp
  then have "?f * 10 ^ 18 div 1050000000000000000 \<le> ?f" by simp
  with units_bound[of "UpwardDeliveryFeeFactor st"] have "?f * 10 ^ 18 div 1050000000000000000 < 2 ^ 128" by linarith
  then obtain f where "of_units (?f * 10 ^ 18 div 1050000000000000000) = Some f" by (simp only: of_units_def if_True)
  moreover from this have "units f = ?f * 10 ^ 18 div 1050000000000000000" by (simp only: of_units_eq_Some)
  moreover have "into_inner EXPONENTIAL_FEE_BASE \<noteq> 0" using fee_constants(1) by (auto simp: units_def)
  ultimately show ?thesis
    using that by (simp add: decrease_fee_factor_def fixed_div_def fixed_checked_div_units del: of_units_eq_Some)
qed

text \<open>Code equations that spare the evaluation of long divisions.\<close>

lemma units_eqI: "units x = units y \<Longrightarrow> x = y"
  by (cases x; cases y) (simp add: units_def word_unat_eq_iff)

lemma fee_constants_code [code]:
  "EXPONENTIAL_FEE_BASE = FixedU128 1050000000000000000" "MESSAGE_SIZE_FEE_BASE = FixedU128 1000000000000000"
  "UpwardInitialDeliveryFeeFactor = FixedU128 1000000000000000000"
  by (rule units_eqI; simp; simp add: units_def)+

lemma decrease_fee_factor_code [code]:
  "decrease_fee_factor st = (if UpwardDeliveryFeeFactor st = FixedU128 1000000000000000000 then Some st
     else map_option (\<lambda>f. st\<lparr>UpwardDeliveryFeeFactor := max UpwardInitialDeliveryFeeFactor f\<rparr>)
       (fixed_div (UpwardDeliveryFeeFactor st) EXPONENTIAL_FEE_BASE))"
proof (cases "UpwardDeliveryFeeFactor st = FixedU128 1000000000000000000")
  case True
  obtain f where f: "decrease_fee_factor st = Some (st\<lparr>UpwardDeliveryFeeFactor := max UpwardInitialDeliveryFeeFactor f\<rparr>)"
    "units f = units (UpwardDeliveryFeeFactor st) * 10 ^ 18 div 1050000000000000000"
    by (rule decrease_fee_factor_some)
  have "f \<le> UpwardInitialDeliveryFeeFactor" using f(2) by (simp add: units_le_iff True units_def fee_constants_code(3))
  then show ?thesis using f(1) True by (simp add: max_def fee_constants_code(3))
qed (simp add: decrease_fee_factor_def)

lemma send_upward_message_cases:
  assumes "send_upward_message cfg m st = (r, st')"
  shows "case r of Inl _ \<Rightarrow> st' = st
    | Inr _ \<Rightarrow> keeps_relay st st' \<and> PendingUpwardMessages st' = PendingUpwardMessages st @ [m] \<and>
        PendingValidationCode st' = PendingValidationCode st \<and> (fee_ok st \<longrightarrow> fee_ok st')"
proof -
  have inc: "fee_ok st \<longrightarrow> fee_ok (increase_fee_factor x (st\<lparr>PendingUpwardMessages := ms\<rparr>))" for x ms
    using increase_fee_factor_ge[of "st\<lparr>PendingUpwardMessages := ms\<rparr>" x] by (simp add: fee_ok_iff)
  have dep: "fee_ok (deposit_para_event ev s) = fee_ok s" for ev and s :: "('a, 'b, 'c, 'd) para" by (simp add: fee_ok_def)
  from assms inc show ?thesis
    by (auto simp: send_upward_message_def Let_def dep keeps_relay_def deposit_para_event_def increase_fee_factor_def fee_ok_def
        split: option.splits if_splits)
qed

lemma schedule_code_upgrade_cases:
  assumes "schedule_code_upgrade c st = Inr st'"
  shows "keeps_relay st st' \<and> PendingUpwardMessages st' = PendingUpwardMessages st \<and> ValidationData st \<noteq> None \<and>
    PendingValidationCode st = None \<and> PendingValidationCode st' = Some c \<and> fee_ok st' = fee_ok st"
  using assms
  by (auto simp: schedule_code_upgrade_def notify_polkadot_of_pending_upgrade_def Let_def keeps_relay_def fee_ok_def
      deposit_para_event_def split: if_splits option.splits)

text \<open>The effect of operations: nothing of the relay chain's data, accepted messages appended, scheduled code pending.\<close>

definition op_effect :: "bytes list \<Rightarrow> bytes list \<Rightarrow> ('b, 'h, 'p, 'e) para \<Rightarrow> ('b, 'h, 'p, 'e) para \<Rightarrow> bool" where
  "op_effect up codes st st' \<longleftrightarrow> keeps_relay st st' \<and> PendingUpwardMessages st' = PendingUpwardMessages st @ up \<and>
     pending_list st' = pending_list st @ codes \<and> (codes \<noteq> [] \<longrightarrow> ValidationData st \<noteq> None) \<and> (fee_ok st \<longrightarrow> fee_ok st')"

lemma para_op_effect: "para_op cfg up codes st st' \<Longrightarrow> op_effect up codes st st'"
proof (induction rule: para_op.induct)
  case (op_send m st r st')
  then show ?case using send_upward_message_cases[OF op_send] by (simp add: op_effect_def pending_list_def)
next
  case (op_send_refused m st err st')
  then show ?case using send_upward_message_cases[OF op_send_refused] by (simp add: op_effect_def)
next
  case (op_sudo_send origin m st st' r st'')
  then have "st' = st''" by (auto simp: sudo_send_upward_message_def split: if_splits)
  then show ?case using send_upward_message_cases[OF op_sudo_send(2)] by (simp add: op_effect_def pending_list_def)
next
  case (op_set_code c st st')
  then show ?case using schedule_code_upgrade_cases[of c st st'] by (simp add: op_effect_def set_code_def pending_list_def)
next
  case (op_authorize origin h check st st')
  then show ?case by (auto simp: authorize_upgrade_def do_authorize_upgrade_def op_effect_def keeps_relay_def fee_ok_def
        pending_list_def split: if_splits)
next
  case (op_enact origin c st w st')
  then obtain st1 where "schedule_code_upgrade c st = Inr st1" "st' = st1\<lparr>sys_authorized := None\<rparr>"
    by (auto simp: enact_authorized_upgrade_def do_apply_authorize_upgrade_def set_code_def split: sum.splits)
  then show ?case using schedule_code_upgrade_cases[of c st st1]
    by (simp add: op_effect_def pending_list_def keeps_relay_def fee_ok_def)
next
  case (op_head_data st v)
  show ?case by (simp add: set_custom_validation_head_data_def op_effect_def keeps_relay_def fee_ok_def pending_list_def)
next
  case (op_runtime st e)
  show ?case by (simp add: op_effect_def keeps_relay_def fee_ok_def pending_list_def)
qed

lemma para_ops_effect: "para_ops cfg up codes st st' \<Longrightarrow> op_effect up codes st st'"
proof (induction rule: para_ops.induct)
  case (ops_none st)
  show ?case by (simp add: op_effect_def)
next
  case (ops_more up codes st st' up' codes' st'')
  from ops_more.IH para_op_effect[OF ops_more.hyps(2)] show ?case
    by (auto simp: op_effect_def keeps_relay_def)
qed

section \<open>What the inherent does\<close>

lemma downward_effect:
  assumes "enqueue_inbound_downward_messages cfg expected dms st = Some (w, st')" "length dms < 2 ^ 32"
  obtains e evs where "fold (extend_downward cfg) dms (LastDmqMqcHead st) = expected"
    "st' = st\<lparr>para_env := e, LastDmqMqcHead := expected, para_events := evs, ProcessedDownwardMessages := of_nat (length dms)\<rparr>"
proof (cases "dms = []")
  case True
  with assms(1) show ?thesis
    by (intro that[where e = "para_env st" and evs = "para_events st"])
       (auto simp: enqueue_inbound_downward_messages_def Let_def split: if_splits)
next
  case False
  with assms(2) have "(of_nat (length dms) :: u32) \<noteq> 0"
    by (simp add: word_unat_eq_iff unat_of_nat)
  with assms(1) show ?thesis
    by (intro that) (auto simp: enqueue_inbound_downward_messages_def Let_def deposit_para_event_def split: if_splits)
qed

lemma horizontal_effect:
  assumes "enqueue_inbound_horizontal_messages cfg ingress hms relay_parent st = Some (w, st')"
  obtains e running where "list_all (\<lambda>(sender, _). map_of ingress sender \<noteq> None) hms"
    "check_mqc_heads (hash_default (relay_codec cfg)) (LastHrmpMqcHeads st) ingress
       (fold (extend_running cfg (LastHrmpMqcHeads st)) (sort_horizontal hms) []) = Some running"
    "st' = st\<lparr>para_env := e, LastHrmpMqcHeads := running, HrmpWatermark :=
       (case fold advance_watermark (sort_horizontal hms) None of Some w \<Rightarrow> w | None \<Rightarrow> relay_parent)\<rparr>"
  using assms that
  by (auto simp: enqueue_inbound_horizontal_messages_def Let_def split: if_splits option.splits prod.splits)

lemma upgrade_signal_effect:
  assumes "process_upgrade_signal cfg n signal st = Some st'"
  obtains e evs logs sevs where "st' = st\<lparr>para_env := e, para_events := evs, sys_logs := logs, sys_events := sevs,
      PendingValidationCode := PendingValidationCode st', sys_code := sys_code st'\<rparr>"
    "signal_in_segment st \<noteq> None \<or> signal = None \<Longrightarrow> PendingValidationCode st' = PendingValidationCode st \<and> sys_code st' = sys_code st"
    "signal_in_segment st = None \<Longrightarrow> signal = Some Abort \<Longrightarrow> PendingValidationCode st' = None \<and> sys_code st' = sys_code st"
    "signal_in_segment st = None \<Longrightarrow> signal = Some GoAhead \<Longrightarrow> PendingValidationCode st' = None \<and> PendingValidationCode st = Some (sys_code st')"
    "signal_in_segment st \<noteq> None \<Longrightarrow> signal = signal_in_segment st"
proof -
  let ?applied = "\<lambda>c. deposit_para_event (ValidationFunctionApplied n)
    ((update_code_in_storage c (st\<lparr>PendingValidationCode := None\<rparr>))\<lparr>para_env := on_validation_code_applied cfg (para_env st)\<rparr>)"
  have env: "para_env (update_code_in_storage c (st\<lparr>PendingValidationCode := None\<rparr>)) = para_env st" for c
    by (simp add: update_code_in_storage_def)
  consider "signal_in_segment st \<noteq> None" "signal = signal_in_segment st" "st' = st" | "signal_in_segment st = None" "signal = None" "st' = st"
    | "signal_in_segment st = None" "signal = Some Abort"
        "st' = deposit_para_event ValidationFunctionDiscarded (st\<lparr>PendingValidationCode := None\<rparr>)"
    | c where "signal_in_segment st = None" "signal = Some GoAhead" "PendingValidationCode st = Some c" "st' = ?applied c"
  proof (cases "signal_in_segment st")
    case (Some x)
    with assms have "signal = Some x \<and> st' = st" by (cases signal) (simp_all add: process_upgrade_signal_def split: if_splits)
    then show ?thesis by (intro that(1)) (simp_all add: Some)
  next
    case None
    show ?thesis
    proof (cases signal)
      case N: None
      with assms None have "st' = st" by (simp add: process_upgrade_signal_def)
      then show ?thesis by (rule that(2)[OF None N])
    next
      case (Some x)
      show ?thesis
      proof (cases x)
        case Abort
        with assms None Some have "st' = deposit_para_event ValidationFunctionDiscarded (st\<lparr>PendingValidationCode := None\<rparr>)"
          by (simp add: process_upgrade_signal_def)
        then show ?thesis using Some Abort by (intro that(3)[OF None]) simp_all
      next
        case GoAhead
        with assms None Some obtain c where "PendingValidationCode st = Some c" "st' = ?applied c"
          by (cases "PendingValidationCode st") (simp_all add: process_upgrade_signal_def Let_def env)
        then show ?thesis using Some GoAhead by (intro that(4)[OF None]) simp_all
      qed
    qed
  qed
  then show ?thesis
  proof cases
    case 1
    then show ?thesis by (intro that[where e = "para_env st" and evs = "para_events st" and logs = "sys_logs st" and sevs = "sys_events st"]) auto
  next
    case 2
    then show ?thesis by (intro that[where e = "para_env st" and evs = "para_events st" and logs = "sys_logs st" and sevs = "sys_events st"]) auto
  next
    case 3
    then show ?thesis
      by (intro that[where e = "para_env st" and evs = "para_events st @ [ValidationFunctionDiscarded]" and logs = "sys_logs st" and sevs = "sys_events st"])
         (auto simp: deposit_para_event_def)
  next
    case 4
    then show ?thesis
      by (intro that[where e = "on_validation_code_applied cfg (para_env st)" and evs = "para_events st @ [ValidationFunctionApplied n]"
            and logs = "sys_logs st @ [RuntimeEnvironmentUpdated]" and sevs = "sys_events st @ [CodeUpdated]"])
         (auto simp: deposit_para_event_def update_code_in_storage_def)
  qed
qed

lemma store_relay_data_effect:
  assumes "store_relay_data cfg data rsp signal st = Some (s, st')"
  obtains restriction hc e where "st' = st\<lparr>UpgradeRestrictionSignal := restriction, UpgradeGoAhead := signal,
      ValidationData := Some (validation_data data), RelayStateProof := Some (relay_chain_state data),
      RelevantMessagingState := Some s, HostConfiguration := Some hc, para_env := e\<rparr>"
    "read_messaging_state_snapshot (relay_codec cfg) rsp hc = Inr s"
  using assms that by (auto simp: store_relay_data_def split: sum.splits)

text \<open>What the relay chain's signal does to the pending code: nothing while an unincluded ancestor consumed it, else it is
  discarded or becomes the runtime's code.\<close>

definition upgrade_step :: "('b, 'h, 'p, 'e) para \<Rightarrow> ('b, 'h, 'p, 'e) para \<Rightarrow> bool" where
  "upgrade_step st st' \<longleftrightarrow> (case (signal_in_segment st', UpgradeGoAhead st') of
     (None, Some Abort) \<Rightarrow> PendingValidationCode st' = None \<and> sys_code st' = sys_code st
   | (None, Some GoAhead) \<Rightarrow> PendingValidationCode st' = None \<and> PendingValidationCode st = Some (sys_code st')
   | (in_segment, signal) \<Rightarrow> PendingValidationCode st' = PendingValidationCode st \<and> sys_code st' = sys_code st \<and>
       (in_segment \<noteq> None \<longrightarrow> signal = in_segment))"

lemma drop_included_effect:
  assumes "drop_included cfg rsp capacity st = Some (w, st')"
  obtains para_head where "st' = st\<lparr>Segment := Segment st'\<rparr>"
    "maybe_drop_included_ancestors (DbWeight cfg) para_head capacity (sys_parent_hash st) (Segment st) = Some (w, Segment st')"
  using assms that by (auto simp: drop_included_def Let_def split: sum.splits)

lemma upgrade_step_of:
  assumes "process_upgrade_signal cfg n signal st = Some st1" "Segment st' = Segment st" "UpgradeGoAhead st' = signal"
    and "PendingValidationCode st' = PendingValidationCode st1" "sys_code st' = sys_code st1"
    and "PendingValidationCode st0 = PendingValidationCode st" "sys_code st0 = sys_code st"
  shows "upgrade_step st0 st'"
proof -
  have seg: "signal_in_segment st' = signal_in_segment st" using assms(2) by (simp add: signal_in_segment_def)
  show ?thesis
    by (rule upgrade_signal_effect[OF assms(1)])
       (auto simp: upgrade_step_def seg assms(3-7) split: option.splits UpgradeGoAhead.splits)
qed

lemma inherent_effect:
  assumes "set_validation_data cfg NoneOrigin data st = Some (Inr (w, st'))" "length (downward_messages data) < 2 ^ 32"
    and "RelevantMessagingState st' = Some s"
  obtains para_head capacity w1 hc rsp where
    "ValidationData st = None" "ValidationData st' = Some (validation_data data)" "HostConfiguration st' = Some hc"
    "check_associated_relay_number cfg (relay_parent_number (validation_data data)) (LastRelayChainBlockNumber st)"
    "read_messaging_state_snapshot (relay_codec cfg) rsp hc = Inr s"
    "maybe_drop_included_ancestors (DbWeight cfg) para_head capacity (sys_parent_hash st) (Segment st) = Some (w1, Segment st')"
    "fold (extend_downward cfg) (downward_messages data) (LastDmqMqcHead st) = dmq_mqc_head s" "LastDmqMqcHead st' = dmq_mqc_head s"
    "list_all (\<lambda>(sender, _). map_of (ingress_channels s) sender \<noteq> None) (horizontal_messages data)"
    "check_mqc_heads (hash_default (relay_codec cfg)) (LastHrmpMqcHeads st) (ingress_channels s)
       (fold (extend_running cfg (LastHrmpMqcHeads st)) (sort_horizontal (horizontal_messages data)) []) = Some (LastHrmpMqcHeads st')"
    "HrmpWatermark st' = (case fold advance_watermark (sort_horizontal (horizontal_messages data)) None of
       Some w \<Rightarrow> w | None \<Rightarrow> relay_parent_number (validation_data data))"
    "PendingUpwardMessages st' = PendingUpwardMessages st" "UpwardDeliveryFeeFactor st' = UpwardDeliveryFeeFactor st"
    "LastRelayChainBlockNumber st' = LastRelayChainBlockNumber st" "upgrade_step st st'"
proof -
  let ?vfp = "validation_data data"
  from assms(1) obtain rsp hook_w capacity drop_w sta signal stb s0 stc dmp_w std xcmp_w where
    none: "ValidationData st = None" and num: "check_associated_relay_number cfg (relay_parent_number ?vfp) (LastRelayChainBlockNumber st)"
    and drop: "drop_included cfg rsp capacity st = Some (drop_w, sta)"
    and up: "process_upgrade_signal cfg (relay_parent_number ?vfp) signal
       (sta\<lparr>sys_logs := sys_logs sta @ [RelayParentStorageRoot (relay_parent_storage_root ?vfp) (relay_parent_number ?vfp)]\<rparr>) = Some stb"
    and store: "store_relay_data cfg data rsp signal stb = Some (s0, stc)"
    and dmp: "enqueue_inbound_downward_messages cfg (dmq_mqc_head s0) (downward_messages data) stc = Some (dmp_w, std)"
    and xcmp: "enqueue_inbound_horizontal_messages cfg (ingress_channels s0) (horizontal_messages data) (relay_parent_number ?vfp) std =
       Some (xcmp_w, st')"
    by (auto simp: set_validation_data_def Let_def bind_eq_Some_conv split: if_splits sum.splits)
  obtain para_head where da: "sta = st\<lparr>Segment := Segment sta\<rparr>"
    "maybe_drop_included_ancestors (DbWeight cfg) para_head capacity (sys_parent_hash st) (Segment st) = Some (drop_w, Segment sta)"
    by (rule drop_included_effect[OF drop])
  obtain e evs logs sevs where sb: "stb = (sta\<lparr>sys_logs := sys_logs sta @ [RelayParentStorageRoot (relay_parent_storage_root ?vfp) (relay_parent_number ?vfp)]\<rparr>)
      \<lparr>para_env := e, para_events := evs, sys_logs := logs, sys_events := sevs, PendingValidationCode := PendingValidationCode stb, sys_code := sys_code stb\<rparr>"
    by (rule upgrade_signal_effect[OF up])
  obtain r hc e2 where sc: "stc = stb\<lparr>UpgradeRestrictionSignal := r, UpgradeGoAhead := signal,
      ValidationData := Some ?vfp, RelayStateProof := Some (relay_chain_state data),
      RelevantMessagingState := Some s0, HostConfiguration := Some hc, para_env := e2\<rparr>"
    "read_messaging_state_snapshot (relay_codec cfg) rsp hc = Inr s0"
    by (rule store_relay_data_effect[OF store])
  obtain e3 evs3 where sd: "fold (extend_downward cfg) (downward_messages data) (LastDmqMqcHead stc) = dmq_mqc_head s0"
    "std = stc\<lparr>para_env := e3, LastDmqMqcHead := dmq_mqc_head s0, para_events := evs3,
       ProcessedDownwardMessages := of_nat (length (downward_messages data))\<rparr>"
    by (rule downward_effect[OF dmp assms(2)])
  obtain e4 running where se: "list_all (\<lambda>(sender, _). map_of (ingress_channels s0) sender \<noteq> None) (horizontal_messages data)"
    "check_mqc_heads (hash_default (relay_codec cfg)) (LastHrmpMqcHeads std) (ingress_channels s0)
       (fold (extend_running cfg (LastHrmpMqcHeads std)) (sort_horizontal (horizontal_messages data)) []) = Some running"
    "st' = std\<lparr>para_env := e4, LastHrmpMqcHeads := running, HrmpWatermark :=
       (case fold advance_watermark (sort_horizontal (horizontal_messages data)) None of Some w \<Rightarrow> w | None \<Rightarrow> relay_parent_number ?vfp)\<rparr>"
    by (rule horizontal_effect[OF xcmp])
  have s: "s0 = s" using assms(3) se(3) sd(2) sc(1) by simp
  have segb: "Segment stb = Segment sta" "LastDmqMqcHead stb = LastDmqMqcHead st" "LastHrmpMqcHeads stb = LastHrmpMqcHeads st"
    "PendingUpwardMessages stb = PendingUpwardMessages st" "UpwardDeliveryFeeFactor stb = UpwardDeliveryFeeFactor st"
    "LastRelayChainBlockNumber stb = LastRelayChainBlockNumber st"
    using arg_cong[OF sb, of Segment]
      arg_cong[OF sb, of LastDmqMqcHead] arg_cong[OF da(1), of LastDmqMqcHead]
      arg_cong[OF sb, of LastHrmpMqcHeads] arg_cong[OF da(1), of LastHrmpMqcHeads]
      arg_cong[OF sb, of PendingUpwardMessages] arg_cong[OF da(1), of PendingUpwardMessages]
      arg_cong[OF sb, of UpwardDeliveryFeeFactor] arg_cong[OF da(1), of UpwardDeliveryFeeFactor]
      arg_cong[OF sb, of LastRelayChainBlockNumber] arg_cong[OF da(1), of LastRelayChainBlockNumber]
    by simp_all
  have pa: "PendingValidationCode sta = PendingValidationCode st" "sys_code sta = sys_code st"
    using arg_cong[OF da(1), of PendingValidationCode] arg_cong[OF da(1), of sys_code] by simp_all
  have "upgrade_step st st'"
    by (rule upgrade_step_of[OF up]) (simp_all add: se(3) sd(2) sc(1) segb(1) pa)
  then show ?thesis
    using none num da(2) sc(2) sd(1) se(1,2) segb
    by (intro that[where hc = hc and rsp = rsp]) (simp_all add: se(3) sd(2) sc(1) s)
qed

section \<open>What finalization does\<close>

lemma take_upward_split:
  "take_upward_messages limits n up = (ump, sent, pending) \<Longrightarrow> sent @ pending = up"
  by (auto simp: take_upward_messages_def Let_def split: prod.splits)

lemma finalize_upward_effect:
  assumes "finalize_upward hc st = Some (ump, st')" "RelevantMessagingState st = Some s"
  obtains f sent pending where "st' = st\<lparr>UpwardMessages := sent, PendingUpwardMessages := pending, UpwardDeliveryFeeFactor := f\<rparr>"
    "take_upward_messages (relay_dispatch_queue_remaining_capacity s) (max_upward_message_num_per_candidate hc)
       (PendingUpwardMessages st) = (ump, sent, pending)"
    "f = UpwardDeliveryFeeFactor st \<or> UpwardInitialDeliveryFeeFactor \<le> f"
proof -
  obtain num sz sent pending where t: "take_upward_messages (relay_dispatch_queue_remaining_capacity s)
      (max_upward_message_num_per_candidate hc) (PendingUpwardMessages st) = ((num, sz), sent, pending)"
    by (metis prod.exhaust)
  let ?st = "st\<lparr>UpwardMessages := sent, PendingUpwardMessages := pending\<rparr>"
  obtain f where f: "decrease_fee_factor ?st = Some (?st\<lparr>UpwardDeliveryFeeFactor := max UpwardInitialDeliveryFeeFactor f\<rparr>)"
    by (rule decrease_fee_factor_some)
  have "?st = ?st\<lparr>UpwardDeliveryFeeFactor := UpwardDeliveryFeeFactor st\<rparr>" by simp
  with assms t f show ?thesis
    by (cases "sum_list (map length pending) \<le> unat (max_upward_queue_size hc div THRESHOLD_FACTOR)")
       (auto simp: finalize_upward_def Let_def intro: that)
qed

lemma finalize_effect:
  assumes "para_on_finalize cfg st = Some st'" "ValidationData st = Some v" "HostConfiguration st = Some hc"
    and "RelevantMessagingState st = Some s"
  obtains ump out where
    "finalize_segment ump out (UpgradeGoAhead st) (HrmpWatermark st) (relay_parent_number v) (from_relay_chain_state s) (Segment st) =
       Some (Segment st')"
    "UpwardMessages st' @ PendingUpwardMessages st' = PendingUpwardMessages st"
    "LastRelayChainBlockNumber st' = relay_parent_number v" "LastDmqMqcHead st' = LastDmqMqcHead st"
    "LastHrmpMqcHeads st' = LastHrmpMqcHeads st" "PendingValidationCode st' = PendingValidationCode st"
    "sys_code st' = sys_code st" "fee_ok st \<longrightarrow> fee_ok st'"
proof -
  obtain s' where s': "adjust_egress_bandwidth_limits (aggregated_segment (Segment st)) (Some s) = Some s'"
    by (cases "aggregated_segment (Segment st)") (simp_all add: adjust_egress_bandwidth_limits_def Let_def)
  define sta where "sta = st\<lparr>DidSetValidationCode := False, UpgradeRestrictionSignal := None, UpgradeGoAhead := None,
    LastRelayChainBlockNumber := relay_parent_number v, RelevantMessagingState := Some s'\<rparr>"
  from assms s' obtain ump stb out e seg where up: "finalize_upward hc sta = Some (ump, stb)"
    and seg: "finalize_segment ump out (UpgradeGoAhead st) (HrmpWatermark stb) (relay_parent_number v) (from_relay_chain_state s) (Segment stb) = Some seg"
    and st': "st' = stb\<lparr>AnnouncedHrmpMessagesPerCandidate := 0, para_env := e, Segment := seg, HrmpOutboundMessages := out\<rparr>"
    by (auto simp: para_on_finalize_def Let_def sta_def bind_eq_Some_conv split_beta)
  have "RelevantMessagingState sta = Some s'" by (simp add: sta_def)
  from finalize_upward_effect[OF up this] obtain f sent pending where
    b: "stb = sta\<lparr>UpwardMessages := sent, PendingUpwardMessages := pending, UpwardDeliveryFeeFactor := f\<rparr>"
      "take_upward_messages (relay_dispatch_queue_remaining_capacity s') (max_upward_message_num_per_candidate hc)
         (PendingUpwardMessages sta) = (ump, sent, pending)"
      "f = UpwardDeliveryFeeFactor sta \<or> UpwardInitialDeliveryFeeFactor \<le> f" .
  show ?thesis
    using seg b(3) take_upward_split[OF b(2)] by (intro that[of ump out]) (auto simp: st' b(1) sta_def fee_ok_def)
qed

section \<open>What a block does\<close>

text \<open>A block up to \<open>on_finalize\<close>: from the end of its parent to the state \<open>on_finalize\<close> runs on.\<close>

lemma open_effect:
  assumes "para_open cfg lg st st'"
  obtains parent para_head capacity wd hc rsp where
    "ValidationData st' = Some (validation_data (lg_data lg))" "HostConfiguration st' = Some hc"
    "RelevantMessagingState st' = Some (lg_snapshot lg)"
    "check_associated_relay_number cfg (relay_parent_number (validation_data (lg_data lg))) (LastRelayChainBlockNumber st)"
    "read_messaging_state_snapshot (relay_codec cfg) rsp hc = Inr (lg_snapshot lg)"
    "maybe_drop_included_ancestors (DbWeight cfg) para_head capacity parent (update_parent_hash parent (Segment st)) = Some (wd, Segment st')"
    "fold (extend_downward cfg) (downward_messages (lg_data lg)) (LastDmqMqcHead st) = dmq_mqc_head (lg_snapshot lg)"
    "LastDmqMqcHead st' = dmq_mqc_head (lg_snapshot lg)"
    "list_all (\<lambda>(sender, _). map_of (ingress_channels (lg_snapshot lg)) sender \<noteq> None) (horizontal_messages (lg_data lg))"
    "check_mqc_heads (hash_default (relay_codec cfg)) (LastHrmpMqcHeads st) (ingress_channels (lg_snapshot lg))
       (fold (extend_running cfg (LastHrmpMqcHeads st)) (sort_horizontal (horizontal_messages (lg_data lg))) []) = Some (LastHrmpMqcHeads st')"
    "HrmpWatermark st' = (case fold advance_watermark (sort_horizontal (horizontal_messages (lg_data lg))) None of
       Some w \<Rightarrow> w | None \<Rightarrow> relay_parent_number (validation_data (lg_data lg)))"
    "PendingUpwardMessages st' = PendingUpwardMessages st @ lg_accepted lg" "fee_ok st \<longrightarrow> fee_ok st'"
    "LastRelayChainBlockNumber st' = LastRelayChainBlockNumber st"
    "pending_list st @ lg_scheduled lg = map fst (lg_resolved lg) @ pending_list st'"
    "sys_code st' = last (sys_code st # map fst (filter snd (lg_resolved lg)))"
  using assms
proof (cases rule: para_open.cases)
  case (open_block parent w1 st1 up1 codes1 st2 data w2 st3 s up2 codes2)
  have init: "Segment st1 = update_parent_hash parent (Segment st)" "sys_parent_hash st1 = parent" "ValidationData st1 = None"
    "PendingUpwardMessages st1 = PendingUpwardMessages st" "pending_list st1 = pending_list st" "sys_code st1 = sys_code st"
    "fee_ok st1 = fee_ok st" "LastRelayChainBlockNumber st1 = LastRelayChainBlockNumber st"
    "LastDmqMqcHead st1 = LastDmqMqcHead st" "LastHrmpMqcHeads st1 = LastHrmpMqcHeads st"
    using open_block(2) by (auto simp: para_on_initialize_def new_block_def pending_list_def fee_ok_def)
  have ops1: "op_effect up1 codes1 st1 st2" and ops2: "op_effect up2 codes2 st3 st'"
    using open_block(3,7) by (auto dest: para_ops_effect)
  have codes1: "codes1 = []" using ops1 init(3) by (auto simp: op_effect_def)
  from open_block(4-6) obtain para_head capacity wd hc rsp where inh:
    "ValidationData st3 = Some (validation_data data)" "HostConfiguration st3 = Some hc"
    "check_associated_relay_number cfg (relay_parent_number (validation_data data)) (LastRelayChainBlockNumber st2)"
    "read_messaging_state_snapshot (relay_codec cfg) rsp hc = Inr s"
    "maybe_drop_included_ancestors (DbWeight cfg) para_head capacity (sys_parent_hash st2) (Segment st2) = Some (wd, Segment st3)"
    "fold (extend_downward cfg) (downward_messages data) (LastDmqMqcHead st2) = dmq_mqc_head s" "LastDmqMqcHead st3 = dmq_mqc_head s"
    "list_all (\<lambda>(sender, _). map_of (ingress_channels s) sender \<noteq> None) (horizontal_messages data)"
    "check_mqc_heads (hash_default (relay_codec cfg)) (LastHrmpMqcHeads st2) (ingress_channels s)
       (fold (extend_running cfg (LastHrmpMqcHeads st2)) (sort_horizontal (horizontal_messages data)) []) = Some (LastHrmpMqcHeads st3)"
    "HrmpWatermark st3 = (case fold advance_watermark (sort_horizontal (horizontal_messages data)) None of
       Some w \<Rightarrow> w | None \<Rightarrow> relay_parent_number (validation_data data))"
    "PendingUpwardMessages st3 = PendingUpwardMessages st2" "UpwardDeliveryFeeFactor st3 = UpwardDeliveryFeeFactor st2"
    "LastRelayChainBlockNumber st3 = LastRelayChainBlockNumber st2" "upgrade_step st2 st3"
    by (auto elim!: inherent_effect)
  have res: "pending_list st2 = map fst (resolved_by st2 st3) @ pending_list st3 \<and>
      sys_code st3 = last (sys_code st2 # map fst (filter snd (resolved_by st2 st3)))"
    using inh(14)
    by (auto simp: upgrade_step_def resolved_by_def pending_list_def split: option.splits UpgradeGoAhead.splits)
  have o2: "keeps_relay st3 st'" "PendingUpwardMessages st' = PendingUpwardMessages st3 @ up2"
    "pending_list st' = pending_list st3 @ codes2" "fee_ok st3 \<longrightarrow> fee_ok st'"
    using ops2 by (auto simp: op_effect_def)
  have o1: "keeps_relay st1 st2" "PendingUpwardMessages st2 = PendingUpwardMessages st1 @ up1"
    "pending_list st2 = pending_list st1" "fee_ok st1 \<longrightarrow> fee_ok st2"
    using ops1 codes1 by (auto simp: op_effect_def)
  note kr = o1(1)[unfolded keeps_relay_def] o2(1)[unfolded keeps_relay_def]
  show ?thesis
    by (rule that[where parent = parent and para_head = para_head and capacity = capacity and wd = wd and hc = hc and rsp = rsp])
       (use inh kr init o1(2-4) o2(2-4) res open_block(6) codes1 in \<open>simp_all add: open_block(1) fee_ok_def cong: option.case_cong\<close>)
qed

end
