(* ===== verification/Parachain_Inbound.thy ===== *)
theory Parachain_Inbound
  imports Parachain_Blocks
begin

text \<open>
  Inbound messages of the pallet \<open>parachain-system\<close>: a head of a message queue chain commits to its messages, the
  running heads of the horizontal channels, the order in which the messages are handed on, and that the data of an
  honest collator is accepted.
\<close>

section \<open>Heads commit to messages\<close>

text \<open>The nodes of a chain of messages, as they are hashed: the previous head, the block number and the data.\<close>

fun chain_nodes :: "('h \<Rightarrow> BlockNumber \<times> bytes \<Rightarrow> 'h) \<Rightarrow> 'h \<Rightarrow> (BlockNumber \<times> bytes) list \<Rightarrow> ('h \<times> BlockNumber \<times> bytes) list" where
  "chain_nodes link h [] = []"
| "chain_nodes link h (m # ms) = (h, m) # chain_nodes link (link h m) ms"

definition node_hash :: "('b, 'h, 'p, 'e) para_config \<Rightarrow> 'h \<Rightarrow> BlockNumber \<times> bytes \<Rightarrow> 'h" where
  "node_hash cfg h m = hash_link cfg h (fst m) (hash_data cfg (snd m))"

text \<open>No two different nodes of the two chains have one hash, and no node hashes to the zero hash.\<close>

definition no_collision :: "('b, 'h, 'p, 'e) para_config \<Rightarrow> (BlockNumber \<times> bytes) list \<Rightarrow> (BlockNumber \<times> bytes) list \<Rightarrow> bool" where
  "no_collision cfg xs ys \<longleftrightarrow> (let h0 = hash_default (relay_codec cfg);
       ns = chain_nodes (node_hash cfg) h0 xs @ chain_nodes (node_hash cfg) h0 ys
     in list_all (\<lambda>(h, m). node_hash cfg h m \<noteq> h0 \<and>
          list_all (\<lambda>(h', m'). node_hash cfg h m = node_hash cfg h' m' \<longrightarrow> h = h' \<and> m = m') ns) ns)"

abbreviation dm_pair :: "InboundDownwardMessage \<Rightarrow> BlockNumber \<times> bytes" where
  "dm_pair m \<equiv> (dm_sent_at m, dm_msg m)"

abbreviation hm_pair :: "InboundHrmpMessage \<Rightarrow> BlockNumber \<times> bytes" where
  "hm_pair m \<equiv> (hm_sent_at m, hm_data m)"

lemma chain_nodes_append:
  "chain_nodes link h (xs @ ys) = chain_nodes link h xs @ chain_nodes link (fold (\<lambda>m h. link h m) xs h) ys"
  by (induction xs arbitrary: h) simp_all

lemma fold_extend_downward: "fold (extend_downward cfg) ms h = fold (\<lambda>m h. node_hash cfg h m) (map dm_pair ms) h"
  by (induction ms arbitrary: h) (simp_all add: extend_downward_def node_hash_def)

lemma fold_extend_hrmp: "fold (extend_hrmp cfg) ms h = fold (\<lambda>m h. node_hash cfg h m) (map hm_pair ms) h"
  by (induction ms arbitrary: h) (simp_all add: extend_hrmp_def node_hash_def)

text \<open>A head commits to its messages.\<close>

lemma chain_commits:
  assumes "fold (\<lambda>m h. node_hash cfg h m) xs h0 = fold (\<lambda>m h. node_hash cfg h m) ys h0"
    and "\<And>n n'. n \<in> set (chain_nodes (node_hash cfg) h0 xs) \<Longrightarrow> n' \<in> set (chain_nodes (node_hash cfg) h0 ys) \<Longrightarrow>
      node_hash cfg (fst n) (snd n) = node_hash cfg (fst n') (snd n') \<Longrightarrow> n = n'"
    and "\<And>n. n \<in> set (chain_nodes (node_hash cfg) h0 xs) \<union> set (chain_nodes (node_hash cfg) h0 ys) \<Longrightarrow>
      node_hash cfg (fst n) (snd n) \<noteq> h0"
  shows "xs = ys"
  using assms
proof (induction xs arbitrary: ys rule: rev_induct)
  case Nil
  show ?case
  proof (cases ys rule: rev_cases)
    case (snoc ys' y)
    with Nil(1) Nil(3)[of "(fold (\<lambda>m h. node_hash cfg h m) ys' h0, y)"] show ?thesis by (simp add: chain_nodes_append)
  qed simp
next
  case (snoc x xs)
  let ?fold = "\<lambda>zs. fold (\<lambda>m h. node_hash cfg h m) zs h0"
  show ?case
  proof (cases ys rule: rev_cases)
    case Nil
    with snoc.prems(1) snoc.prems(3)[of "(?fold xs, x)"] show ?thesis by (simp add: chain_nodes_append)
  next
    case (snoc ys' y)
    have "(?fold xs, x) = (?fold ys', y)"
      using snoc.prems(2)[of "(?fold xs, x)" "(?fold ys', y)"] snoc.prems(1) by (simp add: snoc chain_nodes_append)
    moreover have "xs = ys'"
      using calculation snoc.prems(2,3) by (intro snoc.IH) (auto simp: snoc chain_nodes_append)
    ultimately show ?thesis by (simp add: snoc)
  qed
qed

lemma no_collision_commits:
  assumes "no_collision cfg xs ys"
    and "fold (\<lambda>m h. node_hash cfg h m) xs (hash_default (relay_codec cfg)) = fold (\<lambda>m h. node_hash cfg h m) ys (hash_default (relay_codec cfg))"
  shows "xs = ys"
  using assms(1) by (intro chain_commits[OF assms(2)]) (fastforce simp: no_collision_def Let_def list_all_iff)+

lemma dm_pair_inj: "map dm_pair xs = map dm_pair ys \<longleftrightarrow> xs = ys"
  by (rule inj_map_eq_map) (auto intro!: injI)

lemma hm_pair_inj: "map hm_pair xs = map hm_pair ys \<longleftrightarrow> xs = ys"
  by (rule inj_map_eq_map) (auto intro!: injI)

section \<open>Horizontal messages by sender\<close>

definition of_sender :: "ParaId \<Rightarrow> (ParaId \<times> InboundHrmpMessage) list \<Rightarrow> InboundHrmpMessage list" where
  "of_sender s sms = map snd (filter (\<lambda>sm. fst sm = s) sms)"

lemma of_sender_simps [simp]:
  "of_sender s [] = []" "of_sender s ((s', m) # sms) = (if s' = s then m # of_sender s sms else of_sender s sms)"
  "of_sender s (sms @ sms') = of_sender s sms @ of_sender s sms'"
  by (simp_all add: of_sender_def)

lemma mqc_entry_extend_running:
  "mqc_entry (hash_default (relay_codec cfg)) last_heads s (extend_running cfg last_heads (s', m) running) =
     (if s' = s then extend_hrmp cfg m (mqc_entry (hash_default (relay_codec cfg)) last_heads s running)
      else mqc_entry (hash_default (relay_codec cfg)) last_heads s running)"
  by (cases "s' = s") (simp_all add: mqc_entry_def extend_running_def map_of_bt_insert)

lemma running_heads:
  "mqc_entry (hash_default (relay_codec cfg)) last_heads s (fold (extend_running cfg last_heads) sms running) =
     fold (extend_hrmp cfg) (of_sender s sms) (mqc_entry (hash_default (relay_codec cfg)) last_heads s running)"
  by (induction sms arbitrary: running) (auto simp: mqc_entry_extend_running)

lemma running_keys:
  "dom (bt_get (fold (extend_running cfg last_heads) sms running)) = dom (bt_get running) \<union> fst ` set sms"
  by (induction sms arbitrary: running) (auto simp: extend_running_def map_of_bt_insert split: prod.splits if_splits)

lemma check_mqc_heads_iff:
  "check_mqc_heads d last_heads ingress running \<noteq> None \<longleftrightarrow>
     list_all (\<lambda>(s, ch). mqc_entry d last_heads s running = (case mqc_head ch of Some h \<Rightarrow> h | None \<Rightarrow> d)) ingress"
proof (induction ingress arbitrary: running)
  case (Cons e ingress)
  obtain s ch where e: "e = (s, ch)" by (cases e)
  have same: "mqc_entry d last_heads s' (bt_insert s (mqc_entry d last_heads s running) running) = mqc_entry d last_heads s' running" for s'
    by (cases "s' = s") (simp_all add: mqc_entry_def map_of_bt_insert)
  let ?h = "case mqc_head ch of Some h \<Rightarrow> h | None \<Rightarrow> d"
  show ?case
  proof (cases "mqc_entry d last_heads s running = ?h")
    case True
    with same Cons.IH[of "bt_insert s ?h running"] show ?thesis by (simp add: e)
  qed (simp add: e)
qed simp

lemma check_mqc_heads_result:
  assumes "check_mqc_heads d last_heads ingress running = Some running'"
  shows "bt_get running' s = (if s \<in> fst ` set ingress then Some (mqc_entry d last_heads s running) else bt_get running s)"
  using assms
proof (induction ingress arbitrary: running)
  case (Cons e ingress)
  obtain s1 ch where e: "e = (s1, ch)" by (cases e)
  let ?r = "bt_insert s1 (mqc_entry d last_heads s1 running) running"
  from Cons.prems have "check_mqc_heads d last_heads ingress ?r = Some running'" by (simp add: e Let_def split: if_splits)
  from Cons.IH[OF this] show ?case by (auto simp: e mqc_entry_def map_of_bt_insert)
qed simp

section \<open>The order of horizontal messages\<close>

definition flatten_horizontal :: "(ParaId, InboundHrmpMessage list) btree \<Rightarrow> (ParaId \<times> InboundHrmpMessage) list" where
  "flatten_horizontal hms = concat (map (\<lambda>(s, ms). map (Pair s) ms) hms)"

lemma sort_horizontal_alt: "sort_horizontal hms = sort_key (\<lambda>(s, m). (hm_sent_at m, s)) (flatten_horizontal hms)"
  by (simp add: sort_horizontal_def flatten_horizontal_def)

lemma of_sender_flatten: "distinct (map fst hms) \<Longrightarrow>
    of_sender s (flatten_horizontal hms) = (case map_of hms s of Some ms \<Rightarrow> ms | None \<Rightarrow> [])"
proof (induction hms)
  case (Cons h hms)
  obtain s1 ms where h: "h = (s1, ms)" by (cases h)
  have one: "of_sender s (map (Pair s1) ms) = (if s1 = s then ms else [])"
    by (simp add: of_sender_def filter_map o_def)
  from Cons.prems have "map_of hms s1 = None" by (simp add: h map_of_eq_None_iff)
  with Cons one show ?case by (auto simp: h flatten_horizontal_def)
qed (simp add: flatten_horizontal_def)

lemma filter_sort_key_sorted:
  assumes "sorted (map f (filter P xs))"
  shows "filter P (sort_key f xs) = filter P xs"
  using assms by (simp add: filter_sort sort_key_id_if_sorted)

text \<open>The messages of one channel keep their order, where the channel has them in the order they were sent.\<close>

lemma of_sender_sort_horizontal:
  assumes "bt_wf hms" "sorted (map hm_sent_at (case map_of hms s of Some ms \<Rightarrow> ms | None \<Rightarrow> []))"
  shows "of_sender s (sort_horizontal hms) = (case map_of hms s of Some ms \<Rightarrow> ms | None \<Rightarrow> [])"
proof -
  have flat: "of_sender s (flatten_horizontal hms) = (case map_of hms s of Some ms \<Rightarrow> ms | None \<Rightarrow> [])"
    by (rule of_sender_flatten) (rule bt_wf_distinct[OF assms(1)])
  have sorted: "sorted (map (\<lambda>m. (hm_sent_at m, s)) ms) \<longleftrightarrow> sorted (map hm_sent_at ms)" for ms
    by (induction ms) auto
  have "map (\<lambda>(s, m). (hm_sent_at m, s)) (filter (\<lambda>sm. fst sm = s) xs) = map (\<lambda>m. (hm_sent_at m, s)) (of_sender s xs)" for xs
    by (induction xs) auto
  then show ?thesis
    using assms(2) flat unfolding of_sender_def sort_horizontal_alt
    by (subst filter_sort_key_sorted) (simp_all add: sorted flip: of_sender_def)
qed

text \<open>The inherent's effect on the heads of one sender: the messages extend the head of an open channel, and the
  head of a closed channel is forgotten.\<close>

lemma sort_horizontal_senders: "fst ` set (sort_horizontal hms) \<subseteq> fst ` set hms"
  by (force simp: sort_horizontal_alt flatten_horizontal_def)

lemma horizontal_heads:
  assumes "list_all (\<lambda>(s, _). map_of ingress s \<noteq> None) hms"
    and "check_mqc_heads (hash_default (relay_codec cfg)) heads ingress
      (fold (extend_running cfg heads) (sort_horizontal hms) []) = Some heads'"
  shows "mqc_entry (hash_default (relay_codec cfg)) heads' s [] =
      (if map_of ingress s = None then hash_default (relay_codec cfg)
       else fold (extend_hrmp cfg) (of_sender s (sort_horizontal hms)) (mqc_entry (hash_default (relay_codec cfg)) heads s []))"
    and "map_of ingress s = Some ch \<Longrightarrow> mqc_entry (hash_default (relay_codec cfg)) heads' s [] =
      (case mqc_head ch of Some h \<Rightarrow> h | None \<Rightarrow> hash_default (relay_codec cfg))"
proof -
  let ?d = "hash_default (relay_codec cfg)" and ?r = "fold (extend_running cfg heads) (sort_horizontal hms) []"
  have get: "bt_get heads' s = (if map_of ingress s = None then bt_get ?r s else Some (mqc_entry ?d heads s ?r))"
    using check_mqc_heads_result[OF assms(2), of s] by (simp add: map_of_eq_None_iff)
  have closed: "bt_get ?r s = None" if "map_of ingress s = None"
  proof (rule ccontr)
    assume "bt_get ?r s \<noteq> None"
    then have "s \<in> fst ` set hms" using running_keys[of cfg heads "sort_horizontal hms" "[]"] sort_horizontal_senders[of hms] by auto
    with assms(1) that show False by (auto simp: list_all_iff)
  qed
  show "mqc_entry ?d heads' s [] = (if map_of ingress s = None then ?d
      else fold (extend_hrmp cfg) (of_sender s (sort_horizontal hms)) (mqc_entry ?d heads s []))"
    using get closed running_heads[of cfg heads s "sort_horizontal hms" "[]"] by (simp add: mqc_entry_def[of ?d heads'])
  show "mqc_entry ?d heads' s [] = (case mqc_head ch of Some h \<Rightarrow> h | None \<Rightarrow> ?d)" if "map_of ingress s = Some ch"
    using get that check_mqc_heads_iff[of ?d heads ingress ?r] assms(2) map_of_SomeD[OF that]
    by (auto simp: mqc_entry_def[of ?d heads'] list_all_iff)
qed

section \<open>An honest collator\<close>

lemma takeWhile_drop_prefix:
  "k \<le> length (takeWhile p xs) \<Longrightarrow> dropWhile p (drop k xs) = dropWhile p xs"
proof (induction xs arbitrary: k)
  case (Cons x xs)
  then show ?case by (cases k) (auto split: if_splits)
qed simp

lemma drop_takeWhile: "drop (length (takeWhile p xs)) xs = dropWhile p xs"
  by (simp add: dropWhile_eq_drop)

lemma fold_dropWhile: "fold f (dropWhile p xs) (fold f (takeWhile p xs) h) = fold f xs h"
  by (metis fold_append comp_apply takeWhile_dropWhile_id)

text \<open>What a collator passes of a queue of the relay chain: a suffix that has at least the unprocessed messages.\<close>

definition unpruned :: "('m \<Rightarrow> bool) \<Rightarrow> 'm list \<Rightarrow> 'm list \<Rightarrow> bool" where
  "unpruned processed q ms \<longleftrightarrow> list_ex (\<lambda>k. ms = drop k q) [0..<Suc (length (takeWhile processed q))]"

abbreviation contents_of :: "(ParaId, InboundHrmpMessage list) btree \<Rightarrow> ParaId \<Rightarrow> InboundHrmpMessage list" where
  "contents_of hms s \<equiv> (case bt_get hms s of Some ms \<Rightarrow> ms | None \<Rightarrow> [])"

text \<open>The relay chain has sent the downward messages \<open>dq\<close> and, on the channel of sender \<open>s\<close>, the messages \<open>hq s\<close>. The
  parachain has processed those sent up to the last relay block it saw, and the data is a collator's.\<close>

definition collator_data ::
  "('b, 'h, 'p, 'e) para_config \<Rightarrow> InboundDownwardMessage list \<Rightarrow> (ParaId \<Rightarrow> InboundHrmpMessage list) \<Rightarrow>
   'h MessagingStateSnapshot \<Rightarrow> ('h, 'p) ParachainInherentData \<Rightarrow> ('b, 'h, 'p, 'e) para \<Rightarrow> bool" where
  "collator_data cfg dq hq s data st \<longleftrightarrow>
     (let d = hash_default (relay_codec cfg);
          dm_processed = (\<lambda>m. dm_sent_at m \<le> LastRelayChainBlockNumber st);
          hm_processed = (\<lambda>m. hm_sent_at m \<le> LastRelayChainBlockNumber st);
          hms = horizontal_messages data
      in LastDmqMqcHead st = fold (extend_downward cfg) (takeWhile dm_processed dq) d \<and>
         dmq_mqc_head s = fold (extend_downward cfg) dq d \<and> unpruned dm_processed dq (downward_messages data) \<and>
         bt_wf hms \<and> list_all (\<lambda>(i, _). map_of (ingress_channels s) i \<noteq> None) hms \<and>
         list_all (\<lambda>(i, ch). sorted (map hm_sent_at (hq i)) \<and>
           mqc_entry d (LastHrmpMqcHeads st) i [] = fold (extend_hrmp cfg) (takeWhile hm_processed (hq i)) d \<and>
           (case mqc_head ch of Some h \<Rightarrow> h | None \<Rightarrow> d) = fold (extend_hrmp cfg) (hq i) d \<and>
           unpruned hm_processed (hq i) (contents_of hms i)) (ingress_channels s))"

lemma unpruned_dropWhile: "unpruned p q ms \<Longrightarrow> drop (length (takeWhile p ms)) ms = dropWhile p q"
  by (auto simp: unpruned_def list_ex_iff less_Suc_eq_le drop_takeWhile takeWhile_drop_prefix simp del: upt_Suc)

lemma sorted_dropWhile: "sorted (map f xs) \<Longrightarrow> sorted (map f (dropWhile p xs))"
  by (simp add: dropWhile_eq_drop sorted_wrt_drop flip: drop_map)

lemma contents_of_map: "g [] = [] \<Longrightarrow> contents_of (map (\<lambda>(i, ms). (i, g ms)) hms) s = g (contents_of hms s)"
  by (induction hms) auto

lemma bt_wf_map_values: "bt_wf (map (\<lambda>(i, v). (i, g v)) m) = bt_wf m"
  by (simp add: bt_wf_def case_prod_unfold o_def)

lemma collator_downward:
  assumes "collator_data cfg dq hq s data st"
  shows "fold (extend_downward cfg) (downward_messages (drop_processed_messages_from_inherent data st)) (LastDmqMqcHead st) = dmq_mqc_head s"
proof -
  let ?p = "\<lambda>m. dm_sent_at m \<le> LastRelayChainBlockNumber st"
  from assms have "unpruned ?p dq (downward_messages data)" and h: "dmq_mqc_head s = fold (extend_downward cfg) dq (hash_default (relay_codec cfg))"
    "LastDmqMqcHead st = fold (extend_downward cfg) (takeWhile ?p dq) (hash_default (relay_codec cfg))"
    by (auto simp: collator_data_def Let_def)
  then have "downward_messages (drop_processed_messages_from_inherent data st) = dropWhile ?p dq"
    by (simp add: drop_processed_messages_from_inherent_def Let_def unpruned_dropWhile)
  then show ?thesis by (simp add: h fold_dropWhile)
qed

lemma collator_horizontal:
  assumes "collator_data cfg dq hq s data st"
  defines "hms \<equiv> horizontal_messages (drop_processed_messages_from_inherent data st)"
  shows "list_all (\<lambda>(i, _). map_of (ingress_channels s) i \<noteq> None) hms"
    and "check_mqc_heads (hash_default (relay_codec cfg)) (LastHrmpMqcHeads st) (ingress_channels s)
      (fold (extend_running cfg (LastHrmpMqcHeads st)) (sort_horizontal hms) []) \<noteq> None"
proof -
  let ?d = "hash_default (relay_codec cfg)" and ?p = "\<lambda>m. hm_sent_at m \<le> LastRelayChainBlockNumber st"
  have hms: "hms = map (\<lambda>(i, ms). (i, drop (length (takeWhile ?p ms)) ms)) (horizontal_messages data)"
    by (simp add: hms_def drop_processed_messages_from_inherent_def Let_def)
  show "list_all (\<lambda>(i, _). map_of (ingress_channels s) i \<noteq> None) hms"
    using assms(1) by (auto simp: hms collator_data_def Let_def list_all_iff)
  have wf: "bt_wf hms" using assms(1) by (simp add: hms bt_wf_map_values collator_data_def Let_def)
  have "mqc_entry ?d (LastHrmpMqcHeads st) i (fold (extend_running cfg (LastHrmpMqcHeads st)) (sort_horizontal hms) []) =
      (case mqc_head ch of Some h \<Rightarrow> h | None \<Rightarrow> ?d)" if "(i, ch) \<in> set (ingress_channels s)" for i ch
  proof -
    from assms(1) that have i: "sorted (map hm_sent_at (hq i))"
      "mqc_entry ?d (LastHrmpMqcHeads st) i [] = fold (extend_hrmp cfg) (takeWhile ?p (hq i)) ?d"
      "(case mqc_head ch of Some h \<Rightarrow> h | None \<Rightarrow> ?d) = fold (extend_hrmp cfg) (hq i) ?d"
      "unpruned ?p (hq i) (contents_of (horizontal_messages data) i)"
      by (auto simp: collator_data_def Let_def list_all_iff)
    have "contents_of hms i = dropWhile ?p (hq i)"
      unfolding hms by (subst contents_of_map) (simp_all add: unpruned_dropWhile[OF i(4)])
    moreover from this have "of_sender i (sort_horizontal hms) = dropWhile ?p (hq i)"
      using of_sender_sort_horizontal[OF wf, of i] sorted_dropWhile[OF i(1)] by simp
    ultimately show ?thesis by (simp add: running_heads i(2,3) fold_dropWhile)
  qed
  then show "check_mqc_heads ?d (LastHrmpMqcHeads st) (ingress_channels s)
      (fold (extend_running cfg (LastHrmpMqcHeads st)) (sort_horizontal hms) []) \<noteq> None"
    unfolding check_mqc_heads_iff by (auto simp: list_all_iff)
qed

end
