(* ===== verification/Parachain_Chain.thy ===== *)
theory Parachain_Chain
  imports Parachain_Inbound
begin

text \<open>
  What the pallet \<open>parachain-system\<close> keeps over a chain of blocks: the upward messages leave in the order they were
  accepted, the inbound messages are those the relay chain queued, a scheduled upgrade is resolved once, and the
  unincluded segment is one of \<open>Segment_Invariant\<close>.
\<close>

section \<open>A block\<close>

lemma block_effect:
  assumes "para_open cfg lg st st1" "para_on_finalize cfg st1 = Some st'"
  obtains parent para_head capacity hc rsp ump out signal where
    "segment_block (DbWeight cfg) para_head capacity parent ump out signal (HrmpWatermark st1)
       (relay_parent_number (validation_data (lg_data lg))) (from_relay_chain_state (lg_snapshot lg)) (Segment st) = Some (Segment st')"
    "UpwardMessages st' @ PendingUpwardMessages st' = PendingUpwardMessages st @ lg_accepted lg"
    "check_associated_relay_number cfg (relay_parent_number (validation_data (lg_data lg))) (LastRelayChainBlockNumber st)"
    "LastRelayChainBlockNumber st' = relay_parent_number (validation_data (lg_data lg))"
    "read_messaging_state_snapshot (relay_codec cfg) rsp hc = Inr (lg_snapshot lg)"
    "fold (extend_downward cfg) (downward_messages (lg_data lg)) (LastDmqMqcHead st) = dmq_mqc_head (lg_snapshot lg)"
    "LastDmqMqcHead st' = dmq_mqc_head (lg_snapshot lg)"
    "list_all (\<lambda>(sender, _). map_of (ingress_channels (lg_snapshot lg)) sender \<noteq> None) (horizontal_messages (lg_data lg))"
    "check_mqc_heads (hash_default (relay_codec cfg)) (LastHrmpMqcHeads st) (ingress_channels (lg_snapshot lg))
       (fold (extend_running cfg (LastHrmpMqcHeads st)) (sort_horizontal (horizontal_messages (lg_data lg))) []) = Some (LastHrmpMqcHeads st')"
    "pending_list st @ lg_scheduled lg = map fst (lg_resolved lg) @ pending_list st'"
    "sys_code st' = last (sys_code st # map fst (filter snd (lg_resolved lg)))" "fee_ok st \<longrightarrow> fee_ok st'"
proof (rule open_effect[OF assms(1)], goal_cases)
  case o: (1 parent para_head capacity wd hc rsp)
  show ?thesis
  proof (rule finalize_effect[OF assms(2) o(2-4)], goal_cases)
    case f: (1 ump out)
    show ?case
      by (rule that[where parent = parent and para_head = para_head and capacity = capacity and hc = hc and rsp = rsp
            and ump = ump and out = out and signal = "UpgradeGoAhead st1"])
         (use o f in \<open>simp_all add: segment_block_def pending_list_def\<close>)
  qed
qed

section \<open>Upward messages and upgrades\<close>

lemma chain_upward:
  "para_chain cfg code0 logs st \<Longrightarrow>
     concat (map lg_upward logs) @ PendingUpwardMessages st = concat (map lg_accepted logs)"
proof (induction rule: para_chain.induct)
  case (chain_genesis parent e)
  show ?case by (simp add: para_genesis_def)
next
  case (chain_block logs st lg st' st'')
  have "UpwardMessages st'' @ PendingUpwardMessages st'' = PendingUpwardMessages st @ lg_accepted lg"
    by (rule block_effect[OF chain_block.hyps(2,3)])
  then show ?case using chain_block.IH by simp
qed

lemma chain_upgrades:
  "para_chain cfg code0 logs st \<Longrightarrow>
     map fst (concat (map lg_resolved logs)) @ pending_list st = concat (map lg_scheduled logs) \<and>
     sys_code st = last (code0 # map fst (filter snd (concat (map lg_resolved logs))))"
proof (induction rule: para_chain.induct)
  case (chain_genesis parent e)
  show ?case by (simp add: para_genesis_def pending_list_def)
next
  case (chain_block logs st lg st' st'')
  have b: "pending_list st @ lg_scheduled lg = map fst (lg_resolved lg) @ pending_list st''"
    "sys_code st'' = last (sys_code st # map fst (filter snd (lg_resolved lg)))"
    by (rule block_effect[OF chain_block.hyps(2,3)], assumption)+
  have "map fst (concat (map lg_resolved logs)) @ map fst (lg_resolved lg) @ pending_list st'' =
      (map fst (concat (map lg_resolved logs)) @ pending_list st) @ lg_scheduled lg" by (simp add: b(1))
  with chain_block.IH b(2) show ?case by auto
qed

lemma chain_segment:
  "para_chain cfg code0 logs st \<Longrightarrow> list_all (\<lambda>lg. limits_below_max (from_relay_chain_state (lg_snapshot lg))) logs \<Longrightarrow>
     segment_reachable (Segment st)"
proof (induction rule: para_chain.induct)
  case (chain_genesis parent e)
  show ?case by (simp add: para_genesis_def segment_reachable.genesis)
next
  case (chain_block logs st lg st' st'')
  from chain_block.prems chain_block.IH have seg: "segment_reachable (Segment st)"
    "limits_below_max (from_relay_chain_state (lg_snapshot lg))" by simp_all
  show ?case by (rule block_effect[OF chain_block.hyps(2,3)]) (rule segment_reachable.block[OF seg])
qed

lemma chain_fee: "para_chain cfg code0 logs st \<Longrightarrow> fee_ok st"
proof (induction rule: para_chain.induct)
  case (chain_genesis parent e)
  show ?case by (simp add: para_genesis_def fee_ok_def)
next
  case (chain_block logs st lg st' st'')
  have "fee_ok st \<longrightarrow> fee_ok st''" by (rule block_effect[OF chain_block.hyps(2,3)])
  with chain_block.IH show ?case by simp
qed

section \<open>Inbound messages\<close>

lemma chain_downward:
  "para_chain cfg code0 logs st \<Longrightarrow>
     LastDmqMqcHead st = fold (extend_downward cfg) (concat (map (downward_messages \<circ> lg_data) logs)) (hash_default (relay_codec cfg)) \<and>
     (logs \<noteq> [] \<longrightarrow> LastDmqMqcHead st = dmq_mqc_head (lg_snapshot (last logs)))"
proof (induction rule: para_chain.induct)
  case (chain_genesis parent e)
  show ?case by (simp add: para_genesis_def)
next
  case (chain_block logs st lg st' st'')
  have "fold (extend_downward cfg) (downward_messages (lg_data lg)) (LastDmqMqcHead st) = dmq_mqc_head (lg_snapshot lg)"
    "LastDmqMqcHead st'' = dmq_mqc_head (lg_snapshot lg)"
    by (rule block_effect[OF chain_block.hyps(2,3)], assumption)+
  with chain_block.IH show ?case by simp
qed

text \<open>The messages of one sender taken since its channel was opened.\<close>

definition hrmp_step :: "ParaId \<Rightarrow> ('h, 'p) block_log \<Rightarrow> InboundHrmpMessage list \<Rightarrow> InboundHrmpMessage list" where
  "hrmp_step s lg taken = (if map_of (ingress_channels (lg_snapshot lg)) s = None then []
     else taken @ of_sender s (sort_horizontal (horizontal_messages (lg_data lg))))"

definition hrmp_taken :: "('h, 'p) block_log list \<Rightarrow> ParaId \<Rightarrow> InboundHrmpMessage list" where
  "hrmp_taken logs s = fold (hrmp_step s) logs []"

lemma hrmp_step_upward [simp]: "hrmp_step s (lg\<lparr>lg_upward := u\<rparr>) taken = hrmp_step s lg taken"
  by (simp add: hrmp_step_def)

lemma chain_hrmp:
  "para_chain cfg code0 logs st \<Longrightarrow>
     mqc_entry (hash_default (relay_codec cfg)) (LastHrmpMqcHeads st) s [] =
       fold (extend_hrmp cfg) (hrmp_taken logs s) (hash_default (relay_codec cfg)) \<and>
     (logs \<noteq> [] \<longrightarrow> (\<forall>ch. map_of (ingress_channels (lg_snapshot (last logs))) s = Some ch \<longrightarrow>
        mqc_entry (hash_default (relay_codec cfg)) (LastHrmpMqcHeads st) s [] =
          (case mqc_head ch of Some h \<Rightarrow> h | None \<Rightarrow> hash_default (relay_codec cfg))))"
proof (induction rule: para_chain.induct)
  case (chain_genesis parent e)
  show ?case by (simp add: para_genesis_def mqc_entry_def hrmp_taken_def)
next
  case (chain_block logs st lg st' st'')
  have h: "list_all (\<lambda>(sender, _). map_of (ingress_channels (lg_snapshot lg)) sender \<noteq> None) (horizontal_messages (lg_data lg))"
    "check_mqc_heads (hash_default (relay_codec cfg)) (LastHrmpMqcHeads st) (ingress_channels (lg_snapshot lg))
       (fold (extend_running cfg (LastHrmpMqcHeads st)) (sort_horizontal (horizontal_messages (lg_data lg))) []) = Some (LastHrmpMqcHeads st'')"
    by (rule block_effect[OF chain_block.hyps(2,3)], assumption)+
  show ?case
    using horizontal_heads[OF h, of s] chain_block.IH by (auto simp: hrmp_taken_def hrmp_step_def[of s lg])
qed

section \<open>Finalization does not panic\<close>

text \<open>The watermark of the segment is never above the relay block of the latest block.\<close>

abbreviation watermark_upto :: "BlockNumber \<Rightarrow> 'b segment_state \<Rightarrow> bool" where
  "watermark_upto n st \<equiv> (case hrmp_watermark (tracker_of st) of None \<Rightarrow> True | Some w \<Rightarrow> w \<le> n)"

lemma finalize_watermark:
  "finalize_segment ump out signal watermark relay_parent limits st = Some st' \<Longrightarrow> watermark_upto relay_parent st'"
  by (auto simp: finalize_segment_unfold Let_def tracker_append_def tracker_of_def watermark_update_new_def
      split: option.splits sum.splits if_splits)

lemma subtract_all_watermark: "subtract_all blocks a = Some a' \<Longrightarrow> hrmp_watermark a' = hrmp_watermark a"
proof (induction blocks arbitrary: a)
  case (Cons b blocks)
  then obtain a1 where "tracker_subtract a b = Some a1" "hrmp_watermark a' = hrmp_watermark a1"
    by (auto split: option.splits)
  then show ?case by (auto simp: tracker_subtract_def split: option.splits if_splits)
qed simp

lemma maybe_drop_watermark:
  assumes "maybe_drop_included_ancestors db para_head capacity parent st = Some (w, st')"
  shows "hrmp_watermark (tracker_of st') = hrmp_watermark (tracker_of st)"
  using assms
  by (auto simp: maybe_drop_included_ancestors_def Let_def tracker_of_def subtract_all_watermark
      split: option.splits if_splits prod.splits)

lemma chain_watermark: "para_chain cfg code0 logs st \<Longrightarrow> watermark_upto (LastRelayChainBlockNumber st) (Segment st)"
proof (induction rule: para_chain.induct)
  case (chain_genesis parent e)
  show ?case by (simp add: para_genesis_def tracker_of_def tracker_default_def)
next
  case (chain_block logs st lg st' st'')
  show ?case
    by (rule block_effect[OF chain_block.hyps(2,3)])
       (auto simp: segment_block_def dest: finalize_watermark split: option.splits)
qed

lemma last_message_above:
  assumes "\<forall>sm \<in> set sms. n < hm_sent_at (snd sm)" "fold advance_watermark sms w = Some w'" "\<forall>x. w = Some x \<longrightarrow> n < x"
  shows "n < w'"
  using assms
proof (induction sms arbitrary: w)
  case (Cons sm sms)
  obtain s m where sm: "sm = (s, m)" by (cases sm)
  have "\<forall>x. advance_watermark sm w = Some x \<longrightarrow> n < x"
    using Cons.prems(1,3) by (auto simp: sm advance_watermark_def split: option.splits if_splits)
  with Cons.prems Cons.IH[of "advance_watermark sm w"] show ?case by simp
qed simp

text \<open>The source of outbound messages keeps to the channels it is shown: at most one message to a recipient, and only
  messages for which the recipient's channel has room.\<close>

definition honest_outbound :: "('b, 'h, 'p, 'e) para_config \<Rightarrow> bool" where
  "honest_outbound cfg \<longleftrightarrow> (\<forall>n (ms :: 'h MessagingStateSnapshot option) e. let out = fst (take_outbound_messages cfg n (get_channel_status ms) (get_channel_info ms) e)
     in distinct (map fst out) \<and>
        list_all (\<lambda>(p, data). case get_channel_status ms p of Ready room _ \<Rightarrow> length data \<le> room | _ \<Rightarrow> False) out)"

definition channels_ok :: "'h MessagingStateSnapshot \<Rightarrow> bool" where
  "channels_ok ms \<longleftrightarrow> bt_wf (egress_channels ms) \<and>
     list_all (\<lambda>(_, c). ch_msg_count c \<le> max_capacity c \<and> unat (max_capacity c) < 2 ^ 32 - 1 \<and> total_size c \<le> max_total_size c)
       (egress_channels ms)"

lemma adjusted_channel_ok:
  assumes "channels_ok ms" "adjust_egress_bandwidth_limits (Some a) (Some ms) = Some ms'" "map_of (egress_channels ms') p = Some c"
    and "used_wf (used_bandwidth a)"
  shows "ch_msg_count c \<le> max_capacity c \<and> unat (max_capacity c) < 2 ^ 32 - 1 \<and> total_size c \<le> max_total_size c"
proof -
  have eg: "map_of (egress_channels ms') p = (case map_of (hrmp_outgoing (used_bandwidth a)) p of
      None \<Rightarrow> map_of (egress_channels ms) p
    | Some used \<Rightarrow> map_option (\<lambda>c. c\<lparr>total_size := min (total_size c + total_bytes used) (max_total_size c),
        ch_msg_count := min (ch_msg_count c + msg_count used) (max_capacity c)\<rparr>) (map_of (egress_channels ms) p))"
    using assms(2,4) by (auto simp: adjust_egress_bandwidth_limits_def Let_def map_of_adjust_channels used_wf_def bt_wf_distinct)
  have ok: "ch_msg_count c \<le> max_capacity c \<and> unat (max_capacity c) < 2 ^ 32 - 1 \<and> total_size c \<le> max_total_size c"
    if "map_of (egress_channels ms) p = Some c" for c
    using assms(1) map_of_SomeD[OF that] by (auto simp: channels_ok_def list_all_iff)
  show ?thesis
    using assms(3) eg ok by (auto split: option.splits)
qed

lemma ready_message_fits:
  assumes "ch_msg_count c \<le> max_capacity c \<and> unat (max_capacity c) < 2 ^ 32 - 1 \<and> total_size c \<le> max_total_size c"
    and "map_of (egress_channels ms) p = Some c" "get_channel_status (Some ms) p = Ready room mx" "length data \<le> room"
  shows "message_fits ms (p, data)"
proof -
  from assms(2,3) have r: "\<not> ch_msg_count c + 1 > max_capacity c" "room = unat (max_total_size c - total_size c)"
    by (auto simp: get_channel_status_def split: if_splits)
  from assms(1) have "unat (ch_msg_count c) + 1 < 2 ^ 32" by (auto simp: word_le_nat_alt)
  then have "unat (ch_msg_count c + 1) = unat (ch_msg_count c) + 1" by (simp add: unat_word_ariths(1))
  with r(1) have "unat (ch_msg_count c) + 1 \<le> unat (max_capacity c)" by (simp add: word_less_nat_alt not_less)
  moreover have "room = unat (max_total_size c) - unat (total_size c)" using assms(1) r(2) by (simp add: unat_sub)
  ultimately show ?thesis using assms(1,2,4) by (auto simp: message_fits_def word_le_nat_alt)
qed

lemma honest_outbound_fits:
  fixes cfg :: "('b, 'h, 'p, 'e) para_config" and ms :: "'h MessagingStateSnapshot"
  assumes "honest_outbound cfg" "channels_ok ms" "adjust_egress_bandwidth_limits (Some a) (Some ms) = Some ms'" "used_wf (used_bandwidth a)"
    and "take_outbound_messages cfg n (get_channel_status (Some ms')) (get_channel_info (Some ms')) e = (out, e')"
  shows "distinct (map fst out)" "list_all (message_fits ms') out"
proof -
  have h: "distinct (map fst out)"
    "list_all (\<lambda>(p, data). case get_channel_status (Some ms') p of Ready room _ \<Rightarrow> length data \<le> room | _ \<Rightarrow> False) out"
    using assms(1)[unfolded honest_outbound_def, rule_format, of n "Some ms'" e] by (simp_all add: assms(5) Let_def)
  show "distinct (map fst out)" by (rule h(1))
  show "list_all (message_fits ms') out"
    unfolding list_all_iff
  proof (rule ballI)
    fix m assume m: "m \<in> set out"
    obtain p data where pd: "m = (p, data)" by (cases m)
    from h(2) m obtain room mx where r: "get_channel_status (Some ms') p = Ready room mx" "length data \<le> room"
      by (cases "get_channel_status (Some ms') p") (auto simp: list_all_iff pd)
    then obtain c where c: "map_of (egress_channels ms') p = Some c" by (auto simp: get_channel_status_def split: option.splits)
    show "message_fits ms' m"
      unfolding pd by (rule ready_message_fits[OF adjusted_channel_ok[OF assms(2,3) c assms(4)] c r])
  qed
qed

lemma finalize_upward_some:
  assumes "RelevantMessagingState st = Some s"
    and "take_upward_messages (relay_dispatch_queue_remaining_capacity s) (max_upward_message_num_per_candidate hc)
      (PendingUpwardMessages st) = (ump, sent, pending)"
  obtains f where "finalize_upward hc st = Some (ump, st\<lparr>UpwardMessages := sent, PendingUpwardMessages := pending,
    UpwardDeliveryFeeFactor := f\<rparr>)"
proof -
  let ?st = "st\<lparr>UpwardMessages := sent, PendingUpwardMessages := pending\<rparr>"
  obtain num sz where ump: "ump = (num, sz)" by (cases ump)
  obtain f where f: "decrease_fee_factor ?st = Some (?st\<lparr>UpwardDeliveryFeeFactor := max UpwardInitialDeliveryFeeFactor f\<rparr>)"
    by (rule decrease_fee_factor_some)
  show ?thesis
  proof (cases "sum_list (map length pending) \<le> unat (max_upward_queue_size hc div THRESHOLD_FACTOR)")
    case True
    show ?thesis
      by (rule that[of "max UpwardInitialDeliveryFeeFactor f"]) (simp add: finalize_upward_def assms ump Let_def True f)
  next
    case False
    show ?thesis
      by (rule that[of "UpwardDeliveryFeeFactor st"]) (simp add: finalize_upward_def assms ump Let_def False)
  qed
qed

text \<open>The steps of \<open>on_finalize\<close> that may fail are the upward messages, which do not, and the segment.\<close>

lemma finalize_succeeds:
  assumes "ValidationData st = Some v" "HostConfiguration st = Some hc" "RelevantMessagingState st = Some s"
    and "adjust_egress_bandwidth_limits (Some (tracker_of (Segment st))) (Some s) = Some s'"
    and "take_upward_messages (relay_dispatch_queue_remaining_capacity s') (max_upward_message_num_per_candidate hc)
      (PendingUpwardMessages st) = (ump, sent, pending)"
    and seg: "\<And>n e out e'. take_outbound_messages cfg n (get_channel_status (Some s')) (get_channel_info (Some s')) e = (out, e') \<Longrightarrow>
      finalize_segment ump out (UpgradeGoAhead st) (HrmpWatermark st) (relay_parent_number v) (from_relay_chain_state s) (Segment st) \<noteq> None"
  shows "para_on_finalize cfg st \<noteq> None"
proof -
  define sta where "sta = st\<lparr>DidSetValidationCode := False, UpgradeRestrictionSignal := None, UpgradeGoAhead := None,
    LastRelayChainBlockNumber := relay_parent_number v, RelevantMessagingState := Some s'\<rparr>"
  obtain f where up: "finalize_upward hc sta = Some (ump, sta\<lparr>UpwardMessages := sent, PendingUpwardMessages := pending,
      UpwardDeliveryFeeFactor := f\<rparr>)"
    by (rule finalize_upward_some[of sta s' hc ump sent pending]) (simp_all add: sta_def assms(5))
  obtain out e' where out: "take_outbound_messages cfg (unat (min (hrmp_max_message_num_per_candidate hc) (AnnouncedHrmpMessagesPerCandidate st)))
      (get_channel_status (Some s')) (get_channel_info (Some s')) (para_env st) = (out, e')" by fastforce
  from seg[OF out] obtain seg' where seg': "finalize_segment ump out (UpgradeGoAhead st) (HrmpWatermark st) (relay_parent_number v)
      (from_relay_chain_state s) (Segment st) = Some seg'" by blast
  show ?thesis
    using up out seg' by (simp add: para_on_finalize_def Let_def assms(1-4) adjust_tracker_of sta_def)
qed

lemma open_segment:
  assumes "para_chain cfg code0 logs st" "list_all (\<lambda>lg. limits_below_max (from_relay_chain_state (lg_snapshot lg))) logs"
    and "para_open cfg lg st st1"
  shows "seg_inv (Segment st1)" "watermark_upto (LastRelayChainBlockNumber st) (Segment st1)"
proof -
  obtain parent para_head capacity wd where drop: "maybe_drop_included_ancestors (DbWeight cfg) para_head capacity parent
      (update_parent_hash parent (Segment st)) = Some (wd, Segment st1)"
    by (rule open_effect[OF assms(3)])
  note inv = segment_reachable_inv[OF chain_segment[OF assms(1,2)]]
  show "seg_inv (Segment st1)"
    using maybe_drop_cases[OF update_parent_hash_inv[OF inv, of parent], where para_head = para_head
        and capacity = capacity and parent = parent and db = "DbWeight cfg"] drop
    by (auto split: option.splits if_splits)
  show "watermark_upto (LastRelayChainBlockNumber st) (Segment st1)"
    using chain_watermark[OF assms(1)] maybe_drop_watermark[OF drop] by (simp add: tracker_of_def)
qed

lemma open_watermark:
  assumes "para_open cfg lg st st1" "watermark_upto (LastRelayChainBlockNumber st) (Segment st1)"
    and "list_all (\<lambda>(_, ms). list_all (\<lambda>m. LastRelayChainBlockNumber st < hm_sent_at m) ms) (horizontal_messages (lg_data lg))"
  shows "watermark_conflict (hrmp_watermark (tracker_of (Segment st1)))
    (watermark_update_new (HrmpWatermark st1) (relay_parent_number (validation_data (lg_data lg)))) = None"
proof -
  let ?sms = "sort_horizontal (horizontal_messages (lg_data lg))" and ?n = "relay_parent_number (validation_data (lg_data lg))"
  have w: "HrmpWatermark st1 = (case fold advance_watermark ?sms None of Some w \<Rightarrow> w | None \<Rightarrow> ?n)"
    by (rule open_effect[OF assms(1)])
  have above: "\<forall>sm \<in> set ?sms. LastRelayChainBlockNumber st < hm_sent_at (snd sm)"
    using assms(3) by (force simp: sort_horizontal_alt flatten_horizontal_def list_all_iff)
  show ?thesis
  proof (cases "hrmp_watermark (tracker_of (Segment st1))")
    case (Some x)
    show ?thesis
    proof (cases "fold advance_watermark ?sms None")
      case None
      with Some show ?thesis by (simp add: w watermark_update_new_def)
    next
      case (Some y)
      have "LastRelayChainBlockNumber st < y" by (rule last_message_above[OF above Some]) simp
      moreover have "x \<le> LastRelayChainBlockNumber st" using assms(2) \<open>hrmp_watermark _ = _\<close> by simp
      ultimately have "\<not> y \<le> x" by simp
      with \<open>hrmp_watermark _ = _\<close> Some show ?thesis by (simp add: w watermark_update_new_def)
    qed
  qed simp
qed

end
