(* ===== verification/Parachain_Properties.thy ===== *)
theory Parachain_Properties
  imports Parachain_Chain
begin

text \<open>
  The properties of the pallet \<open>parachain-system\<close> over its chains of blocks, and a chain of two blocks on which they
  are evaluated.
\<close>

section \<open>Running blocks\<close>

text \<open>A block with given upward messages and scheduled code after the inherent, for the examples.\<close>

fun run_ops :: "('b, 'h, 'p, 'e) para_config \<Rightarrow> bytes list \<Rightarrow> bytes list \<Rightarrow> ('b, 'h, 'p, 'e) para \<Rightarrow> ('b, 'h, 'p, 'e) para option" where
  "run_ops cfg [] [] st = Some st"
| "run_ops cfg [] (c # codes) st = (case set_code c st of Inr st' \<Rightarrow> run_ops cfg [] codes st' | Inl _ \<Rightarrow> None)"
| "run_ops cfg (m # up) codes st = (case send_upward_message cfg m st of (Inr _, st') \<Rightarrow> run_ops cfg up codes st' | _ \<Rightarrow> None)"

definition run_open ::
  "('b, 'h, 'p, 'e) para_config \<Rightarrow> 'b \<Rightarrow> ('h, 'p) ParachainInherentData \<Rightarrow> bytes list \<Rightarrow> bytes list \<Rightarrow> ('b, 'h, 'p, 'e) para \<Rightarrow>
   (('h, 'p) block_log \<times> ('b, 'h, 'p, 'e) para) option" where
  "run_open cfg parent data up codes st =
     (let st1 = snd (para_on_initialize cfg (new_block parent st))
      in case set_validation_data cfg NoneOrigin data st1 of
           Some (Inr (_, st2)) \<Rightarrow> (case RelevantMessagingState st2 of None \<Rightarrow> None
             | Some s \<Rightarrow> map_option (Pair \<lparr>lg_data = data, lg_snapshot = s, lg_accepted = up, lg_upward = [], lg_scheduled = codes,
                 lg_resolved = resolved_by st1 st2\<rparr>) (run_ops cfg up codes st2))
         | _ \<Rightarrow> None)"

lemma para_ops_Cons:
  assumes "para_ops cfg up codes st' st''" "para_op cfg up' codes' st st'"
  shows "para_ops cfg (up' @ up) (codes' @ codes) st st''"
  using assms
proof (induction rule: para_ops.induct)
  case (ops_none st0)
  show ?case using para_ops.ops_more[OF para_ops.ops_none ops_none] by simp
next
  case (ops_more up codes st0 st1 up1 codes1 st2)
  from para_ops.ops_more[OF ops_more.IH[OF ops_more.prems] ops_more.hyps(2)] show ?case by simp
qed

lemma run_ops_para_ops: "run_ops cfg up codes st = Some st' \<Longrightarrow> para_ops cfg up codes st st'"
proof (induction cfg up codes st rule: run_ops.induct)
  case (1 cfg st)
  then show ?case by (simp add: para_ops.ops_none)
next
  case (2 cfg c codes st)
  then obtain st1 where "set_code c st = Inr st1" "run_ops cfg [] codes st1 = Some st'" by (auto split: sum.splits)
  with 2 para_ops_Cons[OF _ op_set_code] show ?case by fastforce
next
  case (3 cfg m up codes st)
  then obtain r st1 where "send_upward_message cfg m st = (Inr r, st1)" "run_ops cfg up codes st1 = Some st'"
    by (auto split: sum.splits prod.splits)
  with 3 para_ops_Cons[OF _ op_send] show ?case by fastforce
qed

lemma run_open_para_open:
  assumes "run_open cfg parent data up codes st = Some (lg, st')" "length (downward_messages data) < 2 ^ 32"
  shows "para_open cfg lg st st'"
proof -
  obtain w1 st1 where i: "para_on_initialize cfg (new_block parent st) = (w1, st1)" by fastforce
  with assms(1) obtain w st2 s where v: "set_validation_data cfg NoneOrigin data st1 = Some (Inr (w, st2))"
    "RelevantMessagingState st2 = Some s" "run_ops cfg up codes st2 = Some st'"
    and lg: "lg = \<lparr>lg_data = data, lg_snapshot = s, lg_accepted = up, lg_upward = [], lg_scheduled = codes, lg_resolved = resolved_by st1 st2\<rparr>"
    by (auto simp: run_open_def split: option.splits sum.splits)
  show ?thesis
    using para_open.open_block[OF i para_ops.ops_none v(1) assms(2) v(2) run_ops_para_ops[OF v(3)]] by (simp add: lg)
qed

definition run_block ::
  "('b, 'h, 'p, 'e) para_config \<Rightarrow> 'b \<Rightarrow> ('h, 'p) ParachainInherentData \<Rightarrow> bytes list \<Rightarrow> bytes list \<Rightarrow> ('b, 'h, 'p, 'e) para \<Rightarrow>
   (('h, 'p) block_log \<times> ('b, 'h, 'p, 'e) para) option" where
  "run_block cfg parent data up codes st = (case run_open cfg parent data up codes st of None \<Rightarrow> None
     | Some (lg, st') \<Rightarrow> map_option (\<lambda>st''. (lg\<lparr>lg_upward := UpwardMessages st''\<rparr>, st'')) (para_on_finalize cfg st'))"

lemma run_block_chain:
  assumes "para_chain cfg code0 logs st" "run_block cfg parent data up codes st = Some (lg, st')"
    and "length (downward_messages data) < 2 ^ 32"
  shows "para_chain cfg code0 (logs @ [lg]) st'"
proof -
  from assms(2) obtain lg1 st1 where "run_open cfg parent data up codes st = Some (lg1, st1)"
    and f: "para_on_finalize cfg st1 = Some st'" "lg = lg1\<lparr>lg_upward := UpwardMessages st'\<rparr>"
    by (auto simp: run_block_def split: option.splits)
  from para_chain.chain_block[OF assms(1) run_open_para_open[OF this(1) assms(3)] f(1)] show ?thesis by (simp add: f(2))
qed

section \<open>A chain of two blocks\<close>

datatype ex_hash = ExZero | ExLink ex_hash u32 ex_hash | ExData bytes

definition ex_dmq1 :: ex_hash where "ex_dmq1 = ExLink ExZero 3 (ExData [1, 2])"
definition ex_dmq2 :: ex_hash where "ex_dmq2 = ExLink ex_dmq1 6 (ExData [5])"
definition ex_hrmp1 :: ex_hash where "ex_hrmp1 = ExLink ExZero 4 (ExData [9])"

definition ex_relay_channel :: "ex_hash option \<Rightarrow> ex_hash AbridgedHrmpChannel" where
  "ex_relay_channel h = \<lparr>max_capacity = 4, max_total_size = 50, max_message_size = 20, ch_msg_count = 1, total_size = 5, mqc_head = h\<rparr>"

definition ex_host :: AbridgedHostConfiguration where
  "ex_host = \<lparr>max_code_size = 100, max_head_data_size = 100, max_upward_queue_count = 10, max_upward_queue_size = 100,
     max_upward_message_size = 20, max_upward_message_num_per_candidate = 1, hrmp_max_message_num_per_candidate = 2,
     validation_upgrade_cooldown = 1, validation_upgrade_delay = 1, async_backing_params = \<lparr>max_candidate_depth = 3, allowed_ancestry_len = 2\<rparr>\<rparr>"

definition ex_codec :: "ex_hash RelayCodec" where
  "ex_codec = \<lparr>hash_default = ExZero, decode_hash = (\<lambda>bs. if bs = [1] then Some ex_dmq1 else if bs = [2] then Some ex_dmq2 else None),
     decode_capacity = (\<lambda>bs. Some \<lparr>remaining_count = 10, remaining_size = 100\<rparr>), decode_queue_size = (\<lambda>bs. None),
     decode_para_ids = (\<lambda>bs. Some (map ucast bs)),
     decode_channel = (\<lambda>bs. Some (ex_relay_channel (if bs = [1] then Some ex_hrmp1 else None))),
     decode_config = (\<lambda>bs. Some ex_host), decode_head_data = Some, decode_slot = (\<lambda>bs. None),
     decode_go_ahead = (\<lambda>bs. Some (if bs = [1] then GoAhead else Abort)), decode_restriction = (\<lambda>bs. None)\<rparr>"

text \<open>The source of outbound messages sends one message to para 5 where its channel has room.\<close>

definition ex_outbound ::
  "nat \<Rightarrow> (ParaId \<Rightarrow> ChannelStatus) \<Rightarrow> (ParaId \<Rightarrow> ChannelInfo option) \<Rightarrow> bytes list \<Rightarrow> (ParaId \<times> bytes) list \<times> bytes list" where
  "ex_outbound n status info e = (case status 5 of
     Ready room _ \<Rightarrow> if 2 \<le> room \<and> 0 < n then ([(5, [1, 1])], e) else ([], e) | _ \<Rightarrow> ([], e))"

definition ex_para_config :: "(nat, ex_hash, (RelayKey \<times> bytes) list, bytes list) para_config" where
  "ex_para_config = \<lparr>SelfParaId = 2, DbWeight = ex_db, ReservedXcmpWeight = weight_zero, max_block_weight = weight_zero,
     w_enqueue_inbound_downward_messages = (\<lambda>n. weight_zero), check_associated_relay_number = RelayNumberStrictlyIncreases,
     on_state_proof = FixedCapacityUnincludedSegment 3, on_validation_data = (\<lambda>_ e. e), on_validation_code_applied = (\<lambda>e. e),
     dmp_max_message_len = 10, dmp_handle_messages = (\<lambda>ms e. e @ ms), handle_xcmp_messages = (\<lambda>ms w e. (weight_zero, e @ map (snd \<circ> snd) ms)),
     take_outbound_messages = ex_outbound, open_proof = (\<lambda>p root. if root = ExZero then Some (\<lambda>k. Inr (map_of p k)) else None),
     relay_codec = ex_codec, hash_link = ExLink, hash_data = ExData, para_hash = (\<lambda>bs. case bs of [] \<Rightarrow> 0 | b # _ \<Rightarrow> unat b),
     xcm_hash = (\<lambda>m. m), migrations_ongoing = (\<lambda>e. False), current_version = \<lparr>spec_name = [1], spec_version = 1\<rparr>,
     runtime_version = (\<lambda>c. Some \<lparr>spec_name = [1], spec_version = 2\<rparr>)\<rparr>"

definition ex_proof :: "bytes \<Rightarrow> bytes \<Rightarrow> (RelayKey \<times> bytes) list \<Rightarrow> (RelayKey \<times> bytes) list" where
  "ex_proof head dmq extra = [(ACTIVE_CONFIG, []), (key_para_head 2, head), (key_dmq_mqc_head 2, dmq),
     (key_relay_dispatch_queue_remaining_capacity 2, []), (key_hrmp_ingress_channel_index 2, [7]), (key_hrmp_egress_channel_index 2, [5]),
     (key_hrmp_channels 7 2, [1]), (key_hrmp_channels 2 5, [0])] @ extra"

definition ex_data1 :: "(ex_hash, (RelayKey \<times> bytes) list) ParachainInherentData" where
  "ex_data1 = \<lparr>validation_data = \<lparr>parent_head = [0], relay_parent_number = 5, relay_parent_storage_root = ExZero, max_pov_size = 100\<rparr>,
     relay_chain_state = ex_proof [0] [1] [], downward_messages = [\<lparr>dm_sent_at = 3, dm_msg = [1, 2]\<rparr>],
     horizontal_messages = [(7, [\<lparr>hm_sent_at = 4, hm_data = [9]\<rparr>])]\<rparr>"

definition ex_data2 :: "(ex_hash, (RelayKey \<times> bytes) list) ParachainInherentData" where
  "ex_data2 = \<lparr>validation_data = \<lparr>parent_head = [1], relay_parent_number = 6, relay_parent_storage_root = ExZero, max_pov_size = 100\<rparr>,
     relay_chain_state = ex_proof [1] [2] [(key_upgrade_go_ahead_signal 2, [1])], downward_messages = [\<lparr>dm_sent_at = 6, dm_msg = [5]\<rparr>],
     horizontal_messages = []\<rparr>"

definition ex_relay_snapshot :: "ex_hash \<Rightarrow> ex_hash MessagingStateSnapshot" where
  "ex_relay_snapshot dmq = \<lparr>dmq_mqc_head = dmq, relay_dispatch_queue_remaining_capacity = \<lparr>remaining_count = 10, remaining_size = 100\<rparr>,
     ingress_channels = [(7, ex_relay_channel (Some ex_hrmp1))], egress_channels = [(5, ex_relay_channel None)]\<rparr>"

definition ex_log1 :: "(ex_hash, (RelayKey \<times> bytes) list) block_log" where
  "ex_log1 = \<lparr>lg_data = ex_data1, lg_snapshot = ex_relay_snapshot ex_dmq1, lg_accepted = [[8, 8], [6]], lg_upward = [[8, 8]],
     lg_scheduled = [[42]], lg_resolved = []\<rparr>"

definition ex_log2 :: "(ex_hash, (RelayKey \<times> bytes) list) block_log" where
  "ex_log2 = \<lparr>lg_data = ex_data2, lg_snapshot = ex_relay_snapshot ex_dmq2, lg_accepted = [[7]], lg_upward = [[6]],
     lg_scheduled = [], lg_resolved = [([42], True)]\<rparr>"

definition ex_para0 :: "(nat, ex_hash, (RelayKey \<times> bytes) list, bytes list) para" where
  "ex_para0 = para_genesis ex_para_config [0] 0 []"

definition ex_para1 :: "(nat, ex_hash, (RelayKey \<times> bytes) list, bytes list) para" where
  "ex_para1 = (case run_block ex_para_config 0 ex_data1 [[8, 8], [6]] [[42]] ex_para0 of Some (_, st) \<Rightarrow> st | None \<Rightarrow> ex_para0)"

definition ex_para2 :: "(nat, ex_hash, (RelayKey \<times> bytes) list, bytes list) para" where
  "ex_para2 = (case run_block ex_para_config 1 ex_data2 [[7]] [] ex_para1 of Some (_, st) \<Rightarrow> st | None \<Rightarrow> ex_para0)"

lemma ex_run1: "map_option fst (run_block ex_para_config 0 ex_data1 [[8, 8], [6]] [[42]] ex_para0) = Some ex_log1"
  by code_simp

lemma ex_run2: "map_option fst (run_block ex_para_config 1 ex_data2 [[7]] [] ex_para1) = Some ex_log2"
  by code_simp

lemma ex_chain1: "para_chain ex_para_config [0] [ex_log1] ex_para1"
proof -
  obtain st where r: "run_block ex_para_config 0 ex_data1 [[8, 8], [6]] [[42]] ex_para0 = Some (ex_log1, st)"
    using ex_run1 by (auto simp: map_option_eq_Some)
  have "para_chain ex_para_config [0] ([] @ [ex_log1]) st"
    by (rule run_block_chain[OF _ r]) (simp_all add: ex_para0_def para_chain.chain_genesis ex_data1_def)
  then show ?thesis by (simp add: ex_para1_def r)
qed

lemma ex_chain2: "para_chain ex_para_config [0] [ex_log1, ex_log2] ex_para2"
proof -
  obtain st where r: "run_block ex_para_config 1 ex_data2 [[7]] [] ex_para1 = Some (ex_log2, st)"
    using ex_run2 by (auto simp: map_option_eq_Some)
  have "para_chain ex_para_config [0] ([ex_log1] @ [ex_log2]) st"
    by (rule run_block_chain[OF ex_chain1 r]) (simp add: ex_data2_def)
  then show ?thesis by (simp add: ex_para2_def r[simplified])
qed

section \<open>Properties\<close>

text \<open>C14: upward messages are neither lost, nor repeated, nor reordered: over any chain of blocks, the messages the
  blocks sent to the relay chain, followed by those still pending, are exactly the messages the pallet accepted, in
  the order in which it accepted them.\<close>

theorem upward_messages_fifo:
  assumes "para_chain cfg code0 logs st"
  shows "concat (map lg_upward logs) @ PendingUpwardMessages st = concat (map lg_accepted logs)"
  by (rule chain_upward[OF assms])

theorem upward_messages_fifo_witness:
  "para_chain ex_para_config [0] [ex_log1, ex_log2] ex_para2 \<and> [[8, 8], [6]] @ PendingUpwardMessages ex_para2 = [[8, 8], [6], [7]]"
  using ex_chain2 upward_messages_fifo[OF ex_chain2] by (simp add: ex_log1_def ex_log2_def)

text \<open>C9: the downward messages a chain of blocks processed are exactly those the relay chain queued. Where the relay
  chain's message queue chain of \<open>q\<close> has the head that the latest block read from the relay chain's state, the messages of all
  inherents together are \<open>q\<close>, unless the hash function collides on two nodes of these two chains.\<close>

theorem downward_messages_exact:
  assumes "para_chain cfg code0 logs st" "logs \<noteq> []"
    and "fold (extend_downward cfg) q (hash_default (relay_codec cfg)) = dmq_mqc_head (lg_snapshot (last logs))"
    and "no_collision cfg (map dm_pair (concat (map (downward_messages \<circ> lg_data) logs))) (map dm_pair q)"
  shows "concat (map (downward_messages \<circ> lg_data) logs) = q"
proof -
  have "fold (extend_downward cfg) (concat (map (downward_messages \<circ> lg_data) logs)) (hash_default (relay_codec cfg)) =
      fold (extend_downward cfg) q (hash_default (relay_codec cfg))"
    using chain_downward[OF assms(1)] assms(2,3) by auto
  from no_collision_commits[OF assms(4) this[unfolded fold_extend_downward]] show ?thesis by (simp only: dm_pair_inj)
qed

theorem downward_messages_exact_witness:
  "concat (map (downward_messages \<circ> lg_data) [ex_log1, ex_log2]) =
     [\<lparr>dm_sent_at = 3, dm_msg = [1, 2]\<rparr>, \<lparr>dm_sent_at = 6, dm_msg = [5]\<rparr>]"
proof (rule downward_messages_exact[OF ex_chain2])
  show "[ex_log1, ex_log2] \<noteq> []" by simp
  show "fold (extend_downward ex_para_config) [\<lparr>dm_sent_at = 3, dm_msg = [1, 2]\<rparr>, \<lparr>dm_sent_at = 6, dm_msg = [5]\<rparr>]
      (hash_default (relay_codec ex_para_config)) = dmq_mqc_head (lg_snapshot (last [ex_log1, ex_log2]))" by code_simp
  show "no_collision ex_para_config (map dm_pair (concat (map (downward_messages \<circ> lg_data) [ex_log1, ex_log2])))
      (map dm_pair [\<lparr>dm_sent_at = 3, dm_msg = [1, 2]\<rparr>, \<lparr>dm_sent_at = 6, dm_msg = [5]\<rparr>])" by code_simp
qed

text \<open>C4: the horizontal messages taken from a sender since its channel was opened are exactly those the relay chain
  queued on it. Where the channel's message queue chain of \<open>q\<close> has the head that the latest block read, the sender's messages of all
  inherents since then are \<open>q\<close>, in the order in which they were handed on, unless the hash function collides on two
  nodes of these two chains.\<close>

theorem hrmp_messages_exact:
  assumes "para_chain cfg code0 logs st" "logs \<noteq> []" "map_of (ingress_channels (lg_snapshot (last logs))) sender = Some channel"
    and "fold (extend_hrmp cfg) q (hash_default (relay_codec cfg)) =
      (case mqc_head channel of Some h \<Rightarrow> h | None \<Rightarrow> hash_default (relay_codec cfg))"
    and "no_collision cfg (map hm_pair (hrmp_taken logs sender)) (map hm_pair q)"
  shows "hrmp_taken logs sender = q"
proof -
  have "fold (extend_hrmp cfg) (hrmp_taken logs sender) (hash_default (relay_codec cfg)) =
      fold (extend_hrmp cfg) q (hash_default (relay_codec cfg))"
    using chain_hrmp[OF assms(1), of sender] assms(2-4) by auto
  from no_collision_commits[OF assms(5) this[unfolded fold_extend_hrmp]] show ?thesis by (simp only: hm_pair_inj)
qed

theorem hrmp_messages_exact_witness: "hrmp_taken [ex_log1, ex_log2] 7 = [\<lparr>hm_sent_at = 4, hm_data = [9]\<rparr>]"
proof (rule hrmp_messages_exact[OF ex_chain2])
  show "[ex_log1, ex_log2] \<noteq> []" by simp
  show "map_of (ingress_channels (lg_snapshot (last [ex_log1, ex_log2]))) 7 = Some (ex_relay_channel (Some ex_hrmp1))" by code_simp
  show "fold (extend_hrmp ex_para_config) [\<lparr>hm_sent_at = 4, hm_data = [9]\<rparr>] (hash_default (relay_codec ex_para_config)) =
      (case mqc_head (ex_relay_channel (Some ex_hrmp1)) of Some h \<Rightarrow> h | None \<Rightarrow> hash_default (relay_codec ex_para_config))" by code_simp
  show "no_collision ex_para_config (map hm_pair (hrmp_taken [ex_log1, ex_log2] 7)) (map hm_pair [\<lparr>hm_sent_at = 4, hm_data = [9]\<rparr>])"
    by code_simp
qed

text \<open>C20: a scheduled upgrade is resolved once. Over any chain of blocks, the scheduled codes are those the relay chain's
  signals resolved, in order, followed by the pending one, and the runtime's code is the last one applied, or the
  genesis code.\<close>

theorem upgrades_resolved_once:
  assumes "para_chain cfg code0 logs st"
  shows "map fst (concat (map lg_resolved logs)) @ (case PendingValidationCode st of None \<Rightarrow> [] | Some c \<Rightarrow> [c]) =
      concat (map lg_scheduled logs) \<and>
    sys_code st = last (code0 # map fst (filter snd (concat (map lg_resolved logs))))"
  using chain_upgrades[OF assms] by (simp add: pending_list_def)

theorem upgrades_resolved_once_witness:
  "PendingValidationCode ex_para2 = None \<and> sys_code ex_para2 = [42] \<and> sys_code ex_para1 = [0] \<and> PendingValidationCode ex_para1 = Some [42]"
  using upgrades_resolved_once[OF ex_chain2] upgrades_resolved_once[OF ex_chain1]
  by (auto simp: ex_log1_def ex_log2_def split: option.splits)

text \<open>C21: the pallet runs the unincluded segment. Whatever operations, inherents and hooks a chain of blocks runs, its
  segment is one that a sequence of segment steps reaches, so that the tracker is the exact sum of the unincluded blocks,
  as long as no limit of the relay chain is \<open>u32::MAX\<close>.\<close>

theorem pallet_runs_segment:
  assumes "para_chain cfg code0 logs st" "list_all (\<lambda>lg. limits_below_max (from_relay_chain_state (lg_snapshot lg))) logs"
  shows "segment_reachable (Segment st)"
  by (rule chain_segment[OF assms])

lemma ex_limits_below: "list_all (\<lambda>lg. limits_below_max (from_relay_chain_state (lg_snapshot lg))) [ex_log1, ex_log2]"
  by code_simp

theorem pallet_runs_segment_witness: "segment_reachable (Segment ex_para2)"
  by (rule pallet_runs_segment[OF ex_chain2 ex_limits_below])

text \<open>C39: the factor of the upward delivery fee never falls below one, whatever the blocks send and however often
  finalization lowers it.\<close>

theorem fee_factor_at_least_one:
  assumes "para_chain cfg code0 logs st"
  shows "from_u32 1 \<le> UpwardDeliveryFeeFactor st \<and> 10 ^ 18 \<le> units (UpwardDeliveryFeeFactor st)"
  using chain_fee[OF assms] fee_ok_iff[of st] by (simp add: fee_ok_def UpwardInitialDeliveryFeeFactor_def)

theorem fee_factor_at_least_one_witness: "10 ^ 18 \<le> units (UpwardDeliveryFeeFactor ex_para2)"
  using fee_factor_at_least_one[OF ex_chain2] by simp

text \<open>C5: \<open>on_finalize\<close> does not panic. Where the relay chain's channels are within their own limits, the segment's
  bandwidth is within what the relay chain still accepts, the inherent's horizontal messages were sent after the last
  relay block seen, and the source of outbound messages keeps to the channels it is shown, the \<open>expect\<close> on the segment's limits
  holds, whatever upward messages and upgrade signals the block has. No limit of the earlier blocks is \<open>u32::MAX\<close>, and the
  pending upward messages and their bytes are fewer than \<open>2\<^sup>3\<^sup>2\<close>.\<close>

theorem finalize_never_panics:
  assumes "para_chain cfg code0 logs st" "list_all (\<lambda>lg. limits_below_max (from_relay_chain_state (lg_snapshot lg))) logs"
    and "para_open cfg lg st st1" "channels_ok (lg_snapshot lg)" "honest_outbound cfg"
    and "\<And>k. abs_used (used_bandwidth (tracker_of (Segment st1))) k \<le> abs_limit (from_relay_chain_state (lg_snapshot lg)) k"
    and "list_all (\<lambda>(_, ms). list_all (\<lambda>m. LastRelayChainBlockNumber st < hm_sent_at m) ms) (horizontal_messages (lg_data lg))"
    and "length (PendingUpwardMessages st1) < 2 ^ 32" "sum_list (map length (PendingUpwardMessages st1)) < 2 ^ 32"
  shows "para_on_finalize cfg st1 \<noteq> None"
proof -
  let ?s = "lg_snapshot lg" and ?a = "tracker_of (Segment st1)"
  obtain hc where o: "ValidationData st1 = Some (validation_data (lg_data lg))" "HostConfiguration st1 = Some hc"
    "RelevantMessagingState st1 = Some ?s" by (rule open_effect[OF assms(3)])
  note seg = open_segment[OF assms(1-3)]
  from seg(1) have wf: "used_wf (used_bandwidth ?a)" by (simp add: seg_inv_def Let_def tracks_def)
  obtain s' where s': "adjust_egress_bandwidth_limits (Some ?a) (Some ?s) = Some s'"
    by (simp add: adjust_egress_bandwidth_limits_def Let_def)
  obtain ump sent pending where t: "take_upward_messages (relay_dispatch_queue_remaining_capacity s')
      (max_upward_message_num_per_candidate hc) (PendingUpwardMessages st1) = (ump, sent, pending)" by (metis prod.exhaust)
  have "bt_wf (egress_channels ?s)" using assms(4) by (simp add: channels_ok_def)
  note room = finalize_room[OF this refl wf assms(6) s' t assms(8,9) _ _ open_watermark[OF assms(3) seg(2) assms(7)]]
  show ?thesis
    by (rule finalize_succeeds[OF o s' t]) (rule room; rule honest_outbound_fits[OF assms(5,4) s' wf])
qed

definition ex_open2 :: "(nat, ex_hash, (RelayKey \<times> bytes) list, bytes list) para" where
  "ex_open2 = (case run_open ex_para_config 1 ex_data2 [[7]] [] ex_para1 of Some (_, st) \<Rightarrow> st | None \<Rightarrow> ex_para0)"

lemma ex_open: "para_open ex_para_config (ex_log2\<lparr>lg_upward := []\<rparr>) ex_para1 ex_open2"
proof -
  have "map_option fst (run_open ex_para_config 1 ex_data2 [[7]] [] ex_para1) = Some (ex_log2\<lparr>lg_upward := []\<rparr>)" by code_simp
  then obtain st where r: "run_open ex_para_config 1 ex_data2 [[7]] [] ex_para1 = Some (ex_log2\<lparr>lg_upward := []\<rparr>, st)"
    by (auto simp: map_option_eq_Some)
  then have "ex_open2 = st" by (simp add: ex_open2_def r[simplified])
  then show ?thesis using run_open_para_open[OF r] by (simp add: ex_data2_def)
qed

theorem finalize_never_panics_witness: "para_on_finalize ex_para_config ex_open2 \<noteq> None"
proof (rule finalize_never_panics[OF ex_chain1 _ ex_open])
  show "list_all (\<lambda>lg. limits_below_max (from_relay_chain_state (lg_snapshot lg))) [ex_log1]" by code_simp
  show "channels_ok (lg_snapshot (ex_log2\<lparr>lg_upward := []\<rparr>))"
    by (simp add: channels_ok_def ex_log2_def ex_relay_snapshot_def ex_relay_channel_def bt_wf_def)
  show "honest_outbound ex_para_config"
    by (auto simp: honest_outbound_def ex_para_config_def ex_outbound_def Let_def split: ChannelStatus.splits)
  have "used_bandwidth (tracker_of (Segment ex_open2)) = used_default" by code_simp
  then show "abs_used (used_bandwidth (tracker_of (Segment ex_open2))) k \<le>
      abs_limit (from_relay_chain_state (lg_snapshot (ex_log2\<lparr>lg_upward := []\<rparr>))) k" for k by simp
  show "list_all (\<lambda>(_, ms). list_all (\<lambda>m. LastRelayChainBlockNumber ex_para1 < hm_sent_at m) ms)
      (horizontal_messages (lg_data (ex_log2\<lparr>lg_upward := []\<rparr>)))" by code_simp
  have "PendingUpwardMessages ex_open2 = [[6], [7]]" by code_simp
  then show "length (PendingUpwardMessages ex_open2) < 2 ^ 32" "sum_list (map length (PendingUpwardMessages ex_open2)) < 2 ^ 32"
    by simp_all
qed

section \<open>An honest collator is heard\<close>

lemma inherent_accepts:
  assumes "length (downward_messages data) < 2 ^ 32"
    and "fold (extend_downward cfg) (downward_messages data) (LastDmqMqcHead st) = expected"
  obtains w st' where "enqueue_inbound_downward_messages cfg expected (downward_messages data) st = Some (w, st')"
    "LastDmqMqcHead st' = expected" "LastHrmpMqcHeads st' = LastHrmpMqcHeads st"
proof (cases "downward_messages data = []")
  case True
  with assms(2) that show ?thesis by (simp add: enqueue_inbound_downward_messages_def)
next
  case False
  with assms(1) have "(of_nat (length (downward_messages data)) :: u32) \<noteq> 0" by (simp add: word_unat_eq_iff unat_of_nat)
  with assms(2) that show ?thesis by (simp add: enqueue_inbound_downward_messages_def Let_def deposit_para_event_def)
qed

lemma horizontal_accepts:
  assumes "list_all (\<lambda>(i, _). map_of (ingress_channels s) i \<noteq> None) (horizontal_messages data)"
    and "check_mqc_heads (hash_default (relay_codec cfg)) (LastHrmpMqcHeads st) (ingress_channels s)
      (fold (extend_running cfg (LastHrmpMqcHeads st)) (sort_horizontal (horizontal_messages data)) []) \<noteq> None"
  obtains w st' where "enqueue_inbound_horizontal_messages cfg (ingress_channels s) (horizontal_messages data) n st = Some (w, st')"
    "LastDmqMqcHead st' = LastDmqMqcHead st"
  using assms that by (auto simp: enqueue_inbound_horizontal_messages_def Let_def split_beta)

lemma drop_included_heads:
  "drop_included cfg rsp capacity st = Some (w, st') \<Longrightarrow>
     LastDmqMqcHead st' = LastDmqMqcHead st \<and> LastHrmpMqcHeads st' = LastHrmpMqcHeads st"
  by (auto simp: drop_included_def Let_def)

lemma process_upgrade_heads:
  "process_upgrade_signal cfg n signal st = Some st' \<Longrightarrow>
     LastDmqMqcHead st' = LastDmqMqcHead st \<and> LastHrmpMqcHeads st' = LastHrmpMqcHeads st"
  by (auto simp: process_upgrade_signal_def update_code_in_storage_def deposit_para_event_def Let_def
      split: if_splits option.splits UpgradeGoAhead.splits)

lemma store_heads:
  "store_relay_data cfg data rsp signal st = Some (s, st') \<Longrightarrow>
     LastDmqMqcHead st' = LastDmqMqcHead st \<and> LastHrmpMqcHeads st' = LastHrmpMqcHeads st"
  by (auto simp: store_relay_data_def split: sum.splits)

text \<open>The messages of an honest collator.\<close>

lemma messages_accepted:
  assumes "collator_data cfg dq hq s data st" "length (downward_messages (drop_processed_messages_from_inherent data st)) < 2 ^ 32"
    and "LastDmqMqcHead stc = LastDmqMqcHead st" "LastHrmpMqcHeads stc = LastHrmpMqcHeads st"
  obtains w3 std w4 st' where
    "enqueue_inbound_downward_messages cfg (dmq_mqc_head s) (downward_messages (drop_processed_messages_from_inherent data st)) stc = Some (w3, std)"
    "enqueue_inbound_horizontal_messages cfg (ingress_channels s) (horizontal_messages (drop_processed_messages_from_inherent data st)) n std =
      Some (w4, st')" "LastDmqMqcHead st' = dmq_mqc_head s"
proof -
  let ?data = "drop_processed_messages_from_inherent data st"
  from collator_downward[OF assms(1)] obtain w3 std where
    dmp: "enqueue_inbound_downward_messages cfg (dmq_mqc_head s) (downward_messages ?data) stc = Some (w3, std)"
      "LastDmqMqcHead std = dmq_mqc_head s" "LastHrmpMqcHeads std = LastHrmpMqcHeads stc"
    using inherent_accepts[OF assms(2), of cfg stc "dmq_mqc_head s"] unfolding assms(3,4) by blast
  obtain w4 st' where xcmp: "enqueue_inbound_horizontal_messages cfg (ingress_channels s) (horizontal_messages ?data) n std = Some (w4, st')"
      "LastDmqMqcHead st' = LastDmqMqcHead std"
    using collator_horizontal[OF assms(1)] horizontal_accepts[of s ?data cfg std n] unfolding dmp(3) assms(4) by blast
  show thesis by (rule that[OF dmp(1) xcmp(1)]) (simp add: xcmp(2) dmp(2))
qed

text \<open>What the inherent reads from the relay chain's state: the proof opens, the consensus hook accepts it and gives the
  capacity of the segment, and the signals, the configuration and the messaging state are in it.\<close>

definition relay_state_readable ::
  "('b, 'h, 'p, 'e) para_config \<Rightarrow> ('h, 'p) ParachainInherentData \<Rightarrow> RelayChainStateProof \<Rightarrow> UnincludedSegmentCapacity \<Rightarrow>
   UpgradeGoAhead option \<Rightarrow> 'h MessagingStateSnapshot \<Rightarrow> bool" where
  "relay_state_readable cfg data rsp capacity signal s \<longleftrightarrow>
     state_proof_new (open_proof cfg) (SelfParaId cfg) (relay_parent_storage_root (validation_data data)) (relay_chain_state data) = Inr rsp \<and>
     map_option snd (on_state_proof cfg rsp) = Some capacity \<and> read_upgrade_go_ahead_signal (relay_codec cfg) rsp = Inr signal \<and>
     (\<exists>restriction hc. read_upgrade_restriction_signal (relay_codec cfg) rsp = Inr restriction \<and>
        read_abridged_host_configuration (relay_codec cfg) rsp = Inr hc \<and>
        read_messaging_state_snapshot (relay_codec cfg) rsp hc = Inr s)"

text \<open>The blocks of the segment behind the included head that the proof holds, where the head is known; there is room for
  one more block, and the upgrade signal is the one those blocks consumed, or, where they consumed none, not a
  go-ahead without a pending upgrade.\<close>

definition head_of :: "('b, 'h, 'p, 'e) para_config \<Rightarrow> RelayChainStateProof \<Rightarrow> UnincludedSegmentCapacity \<Rightarrow> ('b, 'h, 'p, 'e) para \<Rightarrow> 'b option" where
  "head_of cfg rsp capacity st = select_included_head (case read_included_para_head (relay_codec cfg) rsp of
     Inl _ \<Rightarrow> None | Inr h \<Rightarrow> Some (para_hash cfg h)) capacity (sys_parent_hash st)"

definition signal_fits :: "UpgradeGoAhead option \<Rightarrow> bytes option \<Rightarrow> UpgradeGoAhead list \<Rightarrow> bool" where
  "signal_fits signal pending signals \<longleftrightarrow>
     (if signals = [] then signal \<noteq> Some GoAhead \<or> pending \<noteq> None else signal_list signal = signals)"

definition block_allowed ::
  "('b, 'h, 'p, 'e) para_config \<Rightarrow> RelayChainStateProof \<Rightarrow> UnincludedSegmentCapacity \<Rightarrow> UpgradeGoAhead option \<Rightarrow>
   ('b, 'h, 'p, 'e) para \<Rightarrow> bool" where
  "block_allowed cfg rsp capacity signal st \<longleftrightarrow> (case head_of cfg rsp capacity st of None \<Rightarrow> False
     | Some h \<Rightarrow> (let seg = unincluded_segment (Segment st)
         in size_after_included h seg < capacity_get capacity \<and>
            signal_fits signal (PendingValidationCode st) (seg_signals (drop (included_count h seg) seg))))"

lemma drop_included_cases:
  assumes "seg_inv (Segment st)" "all_hashed (Segment st)"
  shows "case head_of cfg rsp capacity st of None \<Rightarrow> drop_included cfg rsp capacity st = None
    | Some h \<Rightarrow> (let seg = unincluded_segment (Segment st)
        in if size_after_included h seg < capacity_get capacity
           then \<exists>w g. drop_included cfg rsp capacity st = Some (w, st\<lparr>Segment := g\<rparr>) \<and> seg_inv g \<and>
             unincluded_segment g = drop (included_count h seg) seg
           else drop_included cfg rsp capacity st = None)"
  using maybe_drop_cases[OF assms, where capacity = capacity and parent = "sys_parent_hash st" and db = "DbWeight cfg"
      and para_head = "case read_included_para_head (relay_codec cfg) rsp of Inl _ \<Rightarrow> None | Inr h \<Rightarrow> Some (para_hash cfg h)"]
  by (auto simp: drop_included_def head_of_def Let_def split: option.splits if_splits)

lemma signal_in_segment_consumed:
  assumes "seg_inv (Segment st)"
  shows "signal_list (signal_in_segment st) = seg_signals (unincluded_segment (Segment st))"
  using assms by (cases "aggregated_segment (Segment st)")
    (auto simp: seg_inv_def Let_def tracks_def tracker_of_def signal_in_segment_def tracker_default_def)

lemma process_upgrade_signal_iff:
  assumes "seg_inv (Segment st)"
  shows "process_upgrade_signal cfg n signal st \<noteq> None \<longleftrightarrow>
    signal_fits signal (PendingValidationCode st) (seg_signals (unincluded_segment (Segment st)))"
  unfolding signal_fits_def signal_in_segment_consumed[OF assms, symmetric]
  by (cases "signal_in_segment st"; cases signal)
     (auto simp: process_upgrade_signal_def Let_def split: option.splits UpgradeGoAhead.splits)

text \<open>The steps of the inherent before the messages.\<close>

lemma block_allowed_steps:
  assumes "seg_inv (Segment st)" "all_hashed (Segment st)"
  shows "block_allowed cfg rsp capacity signal st \<longleftrightarrow> (\<exists>w sta stb. drop_included cfg rsp capacity st = Some (w, sta) \<and>
    process_upgrade_signal cfg n signal (sta\<lparr>sys_logs := sys_logs sta @ l\<rparr>) = Some stb)"
proof -
  have "process_upgrade_signal cfg n signal (st\<lparr>Segment := g, sys_logs := sys_logs st @ l\<rparr>) \<noteq> None \<longleftrightarrow>
      signal_fits signal (PendingValidationCode st) (seg_signals (unincluded_segment g))" if "seg_inv g" for g
    using process_upgrade_signal_iff[of "st\<lparr>Segment := g, sys_logs := sys_logs st @ l\<rparr>" cfg n signal] that by simp
  with drop_included_cases[OF assms, of cfg rsp capacity] show ?thesis
    by (auto simp: block_allowed_def Let_def split: option.splits if_splits) metis+
qed

text \<open>C11: which inherents of honest collators are accepted. On any chain, let the block open on a relay parent with an
  allowed number and a relay chain state that can be read, and let the collator pass of each queue of the relay chain
  at least what the parachain has not processed, with any amount of old messages. Then \<open>create_inherent\<close> drops the
  processed ones so that the inherent is accepted, with the head of the downward queue the relay chain's, exactly if the
  block is allowed: the included head is known, the blocks behind it leave room in the segment, and the upgrade signal
  is the one they consumed, or, where they consumed none, not a go-ahead without a pending upgrade. Otherwise it
  panics.\<close>

theorem honest_inherent_accepted:
  assumes "para_chain cfg code0 logs st0" "list_all (\<lambda>lg. limits_below_max (from_relay_chain_state (lg_snapshot lg))) logs"
    and "st = snd (para_on_initialize cfg (new_block parent st0))"
    and "check_associated_relay_number cfg (relay_parent_number (validation_data data)) (LastRelayChainBlockNumber st)"
    and "relay_state_readable cfg data rsp capacity signal s"
    and "collator_data cfg dq hq s data st" "length (downward_messages data) < 2 ^ 32"
  shows "\<exists>call. create_inherent (Some data) st = Some (set_validation_data_call call) \<and>
    (if block_allowed cfg rsp capacity signal st
     then \<exists>w st'. set_validation_data cfg NoneOrigin call st = Some (Inr (w, st')) \<and> LastDmqMqcHead st' = dmq_mqc_head s
     else set_validation_data cfg NoneOrigin call st = None)"
proof -
  let ?data = "drop_processed_messages_from_inherent data st" and ?n = "relay_parent_number (validation_data data)"
  let ?log = "[RelayParentStorageRoot (relay_parent_storage_root (validation_data data)) ?n]"
  have seg: "Segment st = update_parent_hash parent (Segment st0)" and vd: "ValidationData st = None"
    by (simp_all add: assms(3) para_on_initialize_def new_block_def)
  have inv: "seg_inv (Segment st)" "all_hashed (Segment st)"
    unfolding seg by (rule update_parent_hash_inv[OF segment_reachable_inv[OF chain_segment[OF assms(1,2)]]])+
  from assms(5) obtain w1 restriction hc where read:
    "state_proof_new (open_proof cfg) (SelfParaId cfg) (relay_parent_storage_root (validation_data data)) (relay_chain_state data) = Inr rsp"
    "on_state_proof cfg rsp = Some (w1, capacity)" "read_upgrade_go_ahead_signal (relay_codec cfg) rsp = Inr signal"
    "read_upgrade_restriction_signal (relay_codec cfg) rsp = Inr restriction"
    "read_abridged_host_configuration (relay_codec cfg) rsp = Inr hc" "read_messaging_state_snapshot (relay_codec cfg) rsp hc = Inr s"
    by (auto simp: relay_state_readable_def)
  have same: "validation_data ?data = validation_data data" "relay_chain_state ?data = relay_chain_state data"
    "length (downward_messages ?data) < 2 ^ 32"
    using assms(7) by (simp_all add: drop_processed_messages_from_inherent_def Let_def)
  have create: "create_inherent (Some data) st = Some (set_validation_data_call ?data)" by (simp add: create_inherent_def)
  note steps = block_allowed_steps[OF inv, of cfg rsp capacity signal ?n ?log]
  note run = set_validation_data_def same(1,2) vd assms(4) read Let_def
  show ?thesis
  proof (cases "block_allowed cfg rsp capacity signal st")
    case True
    with steps obtain w2 sta stb where pre: "drop_included cfg rsp capacity st = Some (w2, sta)"
      "process_upgrade_signal cfg ?n signal (sta\<lparr>sys_logs := sys_logs sta @ ?log\<rparr>) = Some stb" by blast
    obtain stc where store: "store_relay_data cfg ?data rsp signal stb = Some (s, stc)" by (simp add: store_relay_data_def read)
    have heads: "LastDmqMqcHead stc = LastDmqMqcHead st" "LastHrmpMqcHeads stc = LastHrmpMqcHeads st"
      using drop_included_heads[OF pre(1)] process_upgrade_heads[OF pre(2)] store_heads[OF store] by simp_all
    obtain w st' where "set_validation_data cfg NoneOrigin ?data st = Some (Inr (w, st'))" "LastDmqMqcHead st' = dmq_mqc_head s"
      by (rule messages_accepted[OF assms(6) same(3) heads, where n = ?n]) (use pre store in \<open>auto simp: run\<close>)
    with True create show ?thesis by auto
  next
    case False
    with steps have "set_validation_data cfg NoneOrigin ?data st = None"
      by (cases "drop_included cfg rsp capacity st") (auto simp: run)
    with False create show ?thesis by simp
  qed
qed

text \<open>The collator of the example passes messages that the first block processed already.\<close>

definition ex_full_data :: "(ex_hash, (RelayKey \<times> bytes) list) ParachainInherentData" where
  "ex_full_data = ex_data2\<lparr>downward_messages := [\<lparr>dm_sent_at = 3, dm_msg = [1, 2]\<rparr>, \<lparr>dm_sent_at = 6, dm_msg = [5]\<rparr>],
     horizontal_messages := [(7, [\<lparr>hm_sent_at = 4, hm_data = [9]\<rparr>])]\<rparr>"

definition ex_hq :: "ParaId \<Rightarrow> InboundHrmpMessage list" where
  "ex_hq s = (if s = 7 then [\<lparr>hm_sent_at = 4, hm_data = [9]\<rparr>] else [])"

definition ex_init2 :: "(nat, ex_hash, (RelayKey \<times> bytes) list, bytes list) para" where
  "ex_init2 = snd (para_on_initialize ex_para_config (new_block 1 ex_para1))"

definition ex_rsp :: RelayChainStateProof where
  "ex_rsp = \<lparr>proof_para_id = 2, trie_backend = (\<lambda>k. Inr (map_of (ex_proof [1] [2] [(key_upgrade_go_ahead_signal 2, [1])]) k))\<rparr>"

lemma ex_full_data_simps [simp]: "validation_data ex_full_data = validation_data ex_data2"
  "relay_chain_state ex_full_data = ex_proof [1] [2] [(key_upgrade_go_ahead_signal 2, [1])]"
  "relay_parent_number (validation_data ex_data2) = 6" "relay_parent_storage_root (validation_data ex_data2) = ExZero"
  by (simp_all add: ex_full_data_def ex_data2_def)

lemma ex_heads2: "LastRelayChainBlockNumber ex_init2 = 5" "LastDmqMqcHead ex_init2 = ex_dmq1"
  "LastHrmpMqcHeads ex_init2 = [(7, ex_hrmp1)]"
  by code_simp+

theorem honest_inherent_accepted_witness:
  "block_allowed ex_para_config ex_rsp (Value 3) (Some GoAhead) ex_init2 \<and>
   (\<exists>call w st'. create_inherent (Some ex_full_data) ex_init2 = Some (set_validation_data_call call) \<and>
      set_validation_data ex_para_config NoneOrigin call ex_init2 = Some (Inr (w, st')) \<and> LastDmqMqcHead st' = ex_dmq2)"
proof -
  have chain: "list_all (\<lambda>lg. limits_below_max (from_relay_chain_state (lg_snapshot lg))) [ex_log1]"
    using ex_limits_below by simp
  have number: "check_associated_relay_number ex_para_config (relay_parent_number (validation_data ex_full_data))
      (LastRelayChainBlockNumber ex_init2)" by code_simp
  have "state_proof_new (open_proof ex_para_config) (SelfParaId ex_para_config)
      (relay_parent_storage_root (validation_data ex_full_data)) (relay_chain_state ex_full_data) = Inr ex_rsp"
    by (simp add: state_proof_new_def ex_rsp_def ex_para_config_def)
  moreover have "map_option snd (on_state_proof ex_para_config ex_rsp) = Some (Value 3)" by code_simp
  moreover have "read_upgrade_go_ahead_signal (relay_codec ex_para_config) ex_rsp = Inr (Some GoAhead)" by code_simp
  moreover have "case (read_upgrade_restriction_signal (relay_codec ex_para_config) ex_rsp,
      read_abridged_host_configuration (relay_codec ex_para_config) ex_rsp) of
      (Inr r, Inr hc) \<Rightarrow> read_messaging_state_snapshot (relay_codec ex_para_config) ex_rsp hc = Inr (ex_relay_snapshot ex_dmq2)
    | _ \<Rightarrow> False" by code_simp
  ultimately have read: "relay_state_readable ex_para_config ex_full_data ex_rsp (Value 3) (Some GoAhead) (ex_relay_snapshot ex_dmq2)"
    by (auto simp: relay_state_readable_def split: sum.splits)
  have data: "collator_data ex_para_config (downward_messages ex_full_data) ex_hq (ex_relay_snapshot ex_dmq2) ex_full_data ex_init2"
    unfolding collator_data_def ex_heads2 by code_simp
  have len: "length (downward_messages ex_full_data) < 2 ^ 32" by (simp add: ex_full_data_def)
  have allowed: "block_allowed ex_para_config ex_rsp (Value 3) (Some GoAhead) ex_init2" by code_simp
  have head: "dmq_mqc_head (ex_relay_snapshot ex_dmq2) = ex_dmq2" by (simp add: ex_relay_snapshot_def)
  show ?thesis
    using honest_inherent_accepted[OF ex_chain1 chain ex_init2_def number read data len] allowed unfolding head by auto
qed

end
