(* ===== verification/Parachain_Messages.thy ===== *)
theory Parachain_Messages
  imports Parachain_Properties MQ_Enqueue
begin

text \<open>
  The downward messages of a parachain and its message queue: \<open>EnqueueWithOrigin\<close> and \<open>TransformOrigin\<close> of
  \<open>substrate/frame/support/src/traits/messages.rs\<close>, which turn the pallet \<open>message-queue\<close> into the \<open>DmpQueue\<close> of the pallet
  \<open>parachain-system\<close>, and what the inherent of a block then does to the queue of the relay chain.
\<close>

section \<open>Adapters\<close>

text \<open>\<open>EnqueueWithOrigin<E, O>\<close> with the message queue as \<open>E\<close>; \<open>o'\<close> is \<open>O::get()\<close>.\<close>

definition handle_message :: "('o, 'x) mq_config \<Rightarrow> 'o \<Rightarrow> bytes \<Rightarrow> ('o, 'x) mq \<Rightarrow> ('o, 'x) mq" where
  "handle_message cf o' message st = enqueue_message cf message o' st"

definition handle_messages :: "('o, 'x) mq_config \<Rightarrow> 'o \<Rightarrow> bytes list \<Rightarrow> ('o, 'x) mq \<Rightarrow> ('o, 'x) mq" where
  "handle_messages cf o' messages st = enqueue_messages cf messages o' st"

definition handle_sweep_queue :: "'o \<Rightarrow> ('o, 'x) mq \<Rightarrow> ('o, 'x) mq" where
  "handle_sweep_queue o' st = sweep_queue o' st"

definition handle_footprint :: "'o \<Rightarrow> ('o, 'x) mq \<Rightarrow> QueueFootprint" where
  "handle_footprint o' st = footprint o' st"

text \<open>\<open>TransformOrigin<E, O, N, C>\<close>: the origin is converted first.\<close>

definition transform_enqueue_message :: "('n \<Rightarrow> 'o) \<Rightarrow> ('o, 'x) mq_config \<Rightarrow> bytes \<Rightarrow> 'n \<Rightarrow> ('o, 'x) mq \<Rightarrow> ('o, 'x) mq" where
  "transform_enqueue_message convert cf message n st = enqueue_message cf message (convert n) st"

definition transform_enqueue_messages :: "('n \<Rightarrow> 'o) \<Rightarrow> ('o, 'x) mq_config \<Rightarrow> bytes list \<Rightarrow> 'n \<Rightarrow> ('o, 'x) mq \<Rightarrow> ('o, 'x) mq" where
  "transform_enqueue_messages convert cf messages n st = enqueue_messages cf messages (convert n) st"

definition transform_sweep_queue :: "('n \<Rightarrow> 'o) \<Rightarrow> 'n \<Rightarrow> ('o, 'x) mq \<Rightarrow> ('o, 'x) mq" where
  "transform_sweep_queue convert n st = sweep_queue (convert n) st"

definition transform_footprint :: "('n \<Rightarrow> 'o) \<Rightarrow> 'n \<Rightarrow> ('o, 'x) mq \<Rightarrow> QueueFootprint" where
  "transform_footprint convert n st = footprint (convert n) st"

section \<open>What the pallet expects of its queue\<close>

text \<open>A handler of messages appends the messages that are not too long to what waits in it, as long as it does not
  run full.\<close>

locale message_handler =
  fixes handle :: "bytes list \<Rightarrow> 'e \<Rightarrow> 'e" and max_len :: u32 and ok :: "'e \<Rightarrow> bool" and full :: "'e \<Rightarrow> bool"
    and waits :: "'e \<Rightarrow> bytes list"
  assumes handle_appends: "ok e \<Longrightarrow> list_all (\<lambda>m. length m \<le> unat max_len) ms \<Longrightarrow> \<not> full (handle ms e) \<Longrightarrow>
    ok (handle ms e) \<and> waits (handle ms e) = waits e @ ms"
    and full_stays: "full e \<Longrightarrow> full (handle ms e)"
begin

lemma downward_full:
  assumes "enqueue_inbound_downward_messages cfg expected dms st = Some (w, st')" "dmp_handle_messages cfg = handle"
    and "\<not> full (para_env st')"
  shows "\<not> full (para_env st)"
  using assms full_stays
  by (auto simp: enqueue_inbound_downward_messages_def Let_def deposit_para_event_def split: if_splits)

lemma downward_handled:
  assumes "enqueue_inbound_downward_messages cfg expected dms st = Some (w, st')" "length dms < 2 ^ 32"
    and "dmp_handle_messages cfg = handle" "dmp_max_message_len cfg = max_len"
    and "ok (para_env st)" "\<not> full (para_env st')"
  shows "ok (para_env st') \<and> waits (para_env st') =
    waits (para_env st) @ filter (\<lambda>m. length m \<le> unat max_len) (map dm_msg dms)"
proof (cases "dms = []")
  case True
  with assms(1,5) show ?thesis by (auto simp: enqueue_inbound_downward_messages_def split: if_splits)
next
  case False
  with assms(2) have "(of_nat (length dms) :: u32) \<noteq> 0" by (simp add: word_unat_eq_iff unat_of_nat)
  with assms(1,3,4) have "para_env st' = handle (filter (\<lambda>m. length m \<le> unat max_len) (map dm_msg dms)) (para_env st)"
    by (auto simp: enqueue_inbound_downward_messages_def Let_def deposit_para_event_def split: if_splits)
  moreover have "list_all (\<lambda>m. length m \<le> unat max_len) (filter (\<lambda>m. length m \<le> unat max_len) (map dm_msg dms))"
    by (simp add: list_all_iff)
  ultimately show ?thesis using handle_appends assms(5,6) by metis
qed

end

section \<open>The message queue as the handler\<close>

abbreviation mq_max_len :: "('o, 'x) mq_config \<Rightarrow> u32" where
  "mq_max_len cf \<equiv> max_message_len (item_codec_of cf) (HeapSize cf)"

definition mq_ready :: "('o, 'x) mq_config \<Rightarrow> ('o, 'x) mq \<Rightarrow> bool" where
  "mq_ready cf st \<longleftrightarrow> mq_inv cf {} st \<and> mq_max_len cf \<noteq> 0"

context mq_codec
begin

lemma max_len_fits:
  assumes "mq_max_len cf \<noteq> 0" "length m \<le> unat (mq_max_len cf)"
  shows "fits_page cf m"
proof -
  let ?k = "ic_max_encoded_len (item_codec_of cf)"
  have k: "unat (of_nat ?k :: u32) = ?k" using cd.header_len(2) by (simp add: unat_of_nat)
  then have "unat (mq_max_len cf) = unat (HeapSize cf) - ?k" by (simp add: max_message_len_def unat_saturating_sub)
  moreover have "unat (mq_max_len cf) \<noteq> 0" using assms(1) by (simp add: unat_eq_zero)
  ultimately show ?thesis using assms(2) by (simp add: fits_page_def)
qed

lemma handle_messages_exhausted: "exhausted st \<Longrightarrow> exhausted (handle_messages cf o' ms st)"
proof -
  assume "exhausted st"
  have "ends_mono st (fold (do_enqueue_message cf o') ms st)"
    by (induction ms arbitrary: st) (auto intro: ends_mono_trans enqueue_ends_mono)
  from ends_mono_exhausted[OF this \<open>exhausted st\<close>] show ?thesis
    by (simp add: handle_messages_def enqueue_messages_def notify_changed_def Let_def exhausted_def get_book_def)
qed

lemma handle_messages_appends:
  assumes "mq_ready cf st" "list_all (\<lambda>m. length m \<le> unat (mq_max_len cf)) ms" "\<not> exhausted (handle_messages cf o' ms st)"
  shows "mq_ready cf (handle_messages cf o' ms st) \<and> queue_of cf (handle_messages cf o' ms st) o' = queue_of cf st o' @ ms"
proof -
  have "\<not> exhausted (fold (do_enqueue_message cf o') ms st)"
    using assms(3) by (simp add: handle_messages_def enqueue_messages_def notify_changed_def Let_def exhausted_def get_book_def)
  moreover have "fits_page cf m" if "m \<in> set ms" for m
    using that assms(1,2) by (intro max_len_fits) (auto simp: mq_ready_def list_all_iff)
  ultimately show ?thesis
    using enqueue_many[of ms "{}" st o'] assms(1)
    by (simp add: mq_ready_def handle_messages_def enqueue_messages_def notify_changed_def Let_def)
qed

end

text \<open>In a runtime whose environment has the message queue as its first part.\<close>

definition queue_handler :: "('o, 'x) mq_config \<Rightarrow> 'o \<Rightarrow> bytes list \<Rightarrow> ('o, 'x) mq \<times> 'r \<Rightarrow> ('o, 'x) mq \<times> 'r" where
  "queue_handler cf o' ms e = (handle_messages cf o' ms (fst e), snd e)"

sublocale mq_codec \<subseteq> relay: message_handler "queue_handler cf o'" "mq_max_len cf" "\<lambda>e. mq_ready cf (fst e)"
    "\<lambda>e. exhausted (fst e)" "\<lambda>e. queue_of cf (fst e) o'" for o'
  by unfold_locales (simp_all add: queue_handler_def handle_messages_appends handle_messages_exhausted)

section \<open>The inherent and the queue\<close>

text \<open>The other handlers of the runtime leave the queue of \<open>o'\<close> and the invariant of the message queue alone.\<close>

definition keeps_queue :: "('o, 'x) mq_config \<Rightarrow> 'o \<Rightarrow> (('o, 'x) mq \<times> 'r \<Rightarrow> ('o, 'x) mq \<times> 'r) \<Rightarrow> bool" where
  "keeps_queue cf o' f \<longleftrightarrow> (\<forall>e. mq_ready cf (fst e) \<longrightarrow> \<not> exhausted (fst (f e)) \<longrightarrow>
     mq_ready cf (fst (f e)) \<and> queue_of cf (fst (f e)) o' = queue_of cf (fst e) o') \<and>
   (\<forall>e. exhausted (fst e) \<longrightarrow> exhausted (fst (f e)))"

definition dmp_into_queue ::
  "('o, 'x) mq_config \<Rightarrow> 'o \<Rightarrow> ('b, 'h, 'p, ('o, 'x) mq \<times> 'r) para_config \<Rightarrow> bool" where
  "dmp_into_queue cf o' cfg \<longleftrightarrow> dmp_handle_messages cfg = queue_handler cf o' \<and> dmp_max_message_len cfg = mq_max_len cf \<and>
     (\<forall>v. keeps_queue cf o' (on_validation_data cfg v)) \<and> keeps_queue cf o' (on_validation_code_applied cfg) \<and>
     (\<forall>ms w. keeps_queue cf o' (\<lambda>e. snd (handle_xcmp_messages cfg ms w e)))"

lemma keeps_queueD:
  assumes "keeps_queue cf o' f"
  shows "mq_ready cf (fst e) \<Longrightarrow> \<not> exhausted (fst (f e)) \<Longrightarrow>
      mq_ready cf (fst (f e)) \<and> queue_of cf (fst (f e)) o' = queue_of cf (fst e) o'"
    and "\<not> exhausted (fst (f e)) \<Longrightarrow> \<not> exhausted (fst e)"
  using assms unfolding keeps_queue_def by blast+

lemma process_upgrade_env:
  "process_upgrade_signal cfg n signal st = Some st' \<Longrightarrow>
     para_env st' = para_env st \<or> para_env st' = on_validation_code_applied cfg (para_env st)"
  by (auto simp: process_upgrade_signal_def update_code_in_storage_def deposit_para_event_def Let_def
      split: if_splits option.splits UpgradeGoAhead.splits)

lemma horizontal_env:
  assumes "enqueue_inbound_horizontal_messages cfg ingress hms n st = Some (w, st')"
  obtains ms mw where "para_env st' = snd (handle_xcmp_messages cfg ms mw (para_env st))"
  using assms
  by (intro that[of "map (\<lambda>(sender, m). (sender, hm_sent_at m, hm_data m)) (sort_horizontal hms)"
        "case ReservedXcmpWeightOverride st of Some w \<Rightarrow> w | None \<Rightarrow> ReservedXcmpWeight cfg"])
     (auto simp: enqueue_inbound_horizontal_messages_def Let_def split_beta split: if_splits option.splits)

text \<open>The environment of the phases of the inherent.\<close>

lemma inherent_env:
  assumes "set_validation_data cfg NoneOrigin data st = Some (Inr (w, st'))"
  obtains st1 st2 expected w2 v ms mw where
    "para_env st1 = on_validation_data cfg v (para_env st) \<or>
     para_env st1 = on_validation_data cfg v (on_validation_code_applied cfg (para_env st))"
    "enqueue_inbound_downward_messages cfg expected (downward_messages data) st1 = Some (w2, st2)"
    "para_env st' = snd (handle_xcmp_messages cfg ms mw (para_env st2))"
proof -
  from assms obtain rsp capacity drop_w sta signal stb s stc dmp_w std xcmp_w where
    drop: "drop_included cfg rsp capacity st = Some (drop_w, sta)"
    and up: "process_upgrade_signal cfg (relay_parent_number (validation_data data)) signal
       (sta\<lparr>sys_logs := sys_logs sta @ [RelayParentStorageRoot (relay_parent_storage_root (validation_data data))
          (relay_parent_number (validation_data data))]\<rparr>) = Some stb"
    and store: "store_relay_data cfg data rsp signal stb = Some (s, stc)"
    and dmp: "enqueue_inbound_downward_messages cfg (dmq_mqc_head s) (downward_messages data) stc = Some (dmp_w, std)"
    and xcmp: "enqueue_inbound_horizontal_messages cfg (ingress_channels s) (horizontal_messages data)
       (relay_parent_number (validation_data data)) std = Some (xcmp_w, st')"
    by (auto simp: set_validation_data_def Let_def bind_eq_Some_conv split: if_splits sum.splits)
  have "para_env sta = para_env st" using drop by (auto simp: drop_included_def Let_def)
  moreover have "para_env stc = on_validation_data cfg (validation_data data) (para_env stb)"
    using store by (auto simp: store_relay_data_def split: sum.splits)
  moreover obtain ms mw where "para_env st' = snd (handle_xcmp_messages cfg ms mw (para_env std))"
    by (rule horizontal_env[OF xcmp])
  ultimately show ?thesis using process_upgrade_env[OF up] by (intro that[OF _ dmp]) auto
qed

context mq_codec
begin

lemma inherent_queue:
  assumes "dmp_into_queue cf o' cfg"
    and "set_validation_data cfg NoneOrigin data st = Some (Inr (w, st'))" "length (downward_messages data) < 2 ^ 32"
    and "mq_ready cf (fst (para_env st))" "\<not> exhausted (fst (para_env st'))"
  shows "mq_inv cf {} (fst (para_env st')) \<and> queue_of cf (fst (para_env st')) o' =
    queue_of cf (fst (para_env st)) o' @ filter (\<lambda>m. length m \<le> unat (mq_max_len cf)) (map dm_msg (downward_messages data))"
proof -
  have cfg: "dmp_handle_messages cfg = queue_handler cf o'" "dmp_max_message_len cfg = mq_max_len cf"
    "\<And>v. keeps_queue cf o' (on_validation_data cfg v)" "keeps_queue cf o' (on_validation_code_applied cfg)"
    "\<And>ms w. keeps_queue cf o' (\<lambda>e. snd (handle_xcmp_messages cfg ms w e))"
    using assms(1) by (simp_all add: dmp_into_queue_def)
  obtain st1 st2 expected w2 v ms mw where
    s1: "para_env st1 = on_validation_data cfg v (para_env st) \<or>
      para_env st1 = on_validation_data cfg v (on_validation_code_applied cfg (para_env st))"
    and s2: "enqueue_inbound_downward_messages cfg expected (downward_messages data) st1 = Some (w2, st2)"
    and s3: "para_env st' = snd (handle_xcmp_messages cfg ms mw (para_env st2))"
    by (rule inherent_env[OF assms(2)])
  have e2: "\<not> exhausted (fst (para_env st2))" using keeps_queueD(2)[OF cfg(5)] assms(5) s3 by metis
  then have e1: "\<not> exhausted (fst (para_env st1))"
    using relay.downward_full[OF s2 cfg(1)] by blast
  from s1 have r1: "mq_ready cf (fst (para_env st1)) \<and> queue_of cf (fst (para_env st1)) o' = queue_of cf (fst (para_env st)) o'"
    using keeps_queueD[OF cfg(3)] keeps_queueD[OF cfg(4)] assms(4) e1 by metis
  from relay.downward_handled[OF s2 assms(3) cfg(1,2)] r1 e2 have
    r2: "mq_ready cf (fst (para_env st2)) \<and> queue_of cf (fst (para_env st2)) o' = queue_of cf (fst (para_env st1)) o' @
      filter (\<lambda>m. length m \<le> unat (mq_max_len cf)) (map dm_msg (downward_messages data))" by blast
  from keeps_queueD(1)[OF cfg(5)] r2 assms(5) s3 have "mq_ready cf (fst (para_env st'))"
    "queue_of cf (fst (para_env st')) o' = queue_of cf (fst (para_env st2)) o'" by metis+
  with r1 r2 show ?thesis by (simp add: mq_ready_def)
qed

end

text \<open>C12: downward messages reach the message queue. In a runtime whose \<open>DmpQueue\<close> is the message queue at the relay
  chain's origin, and whose other handlers leave that queue alone, an accepted inherent appends its downward messages, in their order, to the
  queue of that origin, except for those longer than a message of the queue may be; and the invariant of the message
  queue holds afterwards.\<close>

theorem downward_messages_reach_queue:
  assumes "item_codec (item_codec_of cf)" "dmp_into_queue cf o' cfg"
    and "set_validation_data cfg NoneOrigin data st = Some (Inr (w, st'))" "length (downward_messages data) < 2 ^ 32"
    and "mq_ready cf (fst (para_env st))" "\<not> exhausted (fst (para_env st'))"
  shows "mq_inv cf {} (fst (para_env st')) \<and> queue_of cf (fst (para_env st')) o' =
    queue_of cf (fst (para_env st)) o' @ filter (\<lambda>m. length m \<le> unat (mq_max_len cf)) (map dm_msg (downward_messages data))"
  by (rule mq_codec.inherent_queue[OF mq_codec.intro[OF assms(1)] assms(2-6)])

section \<open>Example\<close>

definition ex_queue_config :: "(nat, ex_hash, (RelayKey \<times> bytes) list, (nat, unit) mq \<times> unit) para_config" where
  "ex_queue_config = \<lparr>SelfParaId = 2, DbWeight = ex_db, ReservedXcmpWeight = weight_zero, max_block_weight = weight_zero,
     w_enqueue_inbound_downward_messages = (\<lambda>n. weight_zero), check_associated_relay_number = RelayNumberStrictlyIncreases,
     on_state_proof = FixedCapacityUnincludedSegment 3, on_validation_data = (\<lambda>_ e. e), on_validation_code_applied = (\<lambda>e. e),
     dmp_max_message_len = mq_max_len (counting_config :: (nat, unit) mq_config), dmp_handle_messages = queue_handler counting_config 0,
     handle_xcmp_messages = (\<lambda>ms w e. (weight_zero, e)), take_outbound_messages = (\<lambda>n status info e. ([], e)),
     open_proof = (\<lambda>p root. if root = ExZero then Some (\<lambda>k. Inr (map_of p k)) else None),
     relay_codec = ex_codec, hash_link = ExLink, hash_data = ExData, para_hash = (\<lambda>bs. case bs of [] \<Rightarrow> 0 | b # _ \<Rightarrow> unat b),
     xcm_hash = (\<lambda>m. m), migrations_ongoing = (\<lambda>e. False), current_version = \<lparr>spec_name = [1], spec_version = 1\<rparr>,
     runtime_version = (\<lambda>c. Some \<lparr>spec_name = [1], spec_version = 2\<rparr>)\<rparr>"

definition ex_queue_start :: "(nat, ex_hash, (RelayKey \<times> bytes) list, (nat, unit) mq \<times> unit) para" where
  "ex_queue_start = snd (para_on_initialize ex_queue_config (new_block 0 (para_genesis ex_queue_config [0] 0 (empty_mq, ()))))"

lemma ex_queue_accepts: "\<exists>w st'. set_validation_data ex_queue_config NoneOrigin ex_data1 ex_queue_start = Some (Inr (w, st'))"
proof -
  have "(case set_validation_data ex_queue_config NoneOrigin ex_data1 ex_queue_start of Some (Inr _) \<Rightarrow> True | _ \<Rightarrow> False)"
    by code_simp
  then show ?thesis by (auto split: option.splits sum.splits)
qed

lemma ex_queue_dmp: "dmp_into_queue counting_config 0 ex_queue_config"
  by (simp add: dmp_into_queue_def keeps_queue_def ex_queue_config_def)

lemma ex_queue_max_len: "mq_max_len (counting_config :: (nat, unit) mq_config) \<noteq> 0 \<and> 2 \<le> unat (mq_max_len (counting_config :: (nat, unit) mq_config))"
  by (simp add: counting_config_def max_message_len_def fixed_codec_def saturating_sub_def)

lemma ex_queue_env:
  assumes "set_validation_data ex_queue_config NoneOrigin ex_data1 ex_queue_start = Some (Inr (w, st'))"
  shows "fst (para_env st') = handle_messages counting_config 0 [[1, 2]] empty_mq"
proof (rule inherent_env[OF assms])
  fix st1 st2 :: "(nat, ex_hash, (RelayKey \<times> bytes) list, (nat, unit) mq \<times> unit) para" and expected w2 v ms mw
  assume e1: "para_env st1 = on_validation_data ex_queue_config v (para_env ex_queue_start) \<or>
      para_env st1 = on_validation_data ex_queue_config v (on_validation_code_applied ex_queue_config (para_env ex_queue_start))"
    and dmp: "enqueue_inbound_downward_messages ex_queue_config expected (downward_messages ex_data1) st1 = Some (w2, st2)"
    and e2: "para_env st' = snd (handle_xcmp_messages ex_queue_config ms mw (para_env st2))"
  have "para_env st1 = (empty_mq, ())"
    using e1 by (auto simp: ex_queue_config_def ex_queue_start_def para_on_initialize_def new_block_def para_genesis_def)
  then show ?thesis
    using e2 dmp ex_queue_max_len
    by (auto simp: ex_queue_config_def enqueue_inbound_downward_messages_def ex_data1_def Let_def deposit_para_event_def
        queue_handler_def split: if_splits)
qed

lemma ex_queue_room: "\<not> exhausted (handle_messages counting_config (0 :: nat) [[1, 2]] empty_mq)"
  by (auto simp: exhausted_def handle_messages_def enqueue_messages_def notify_changed_def counting_config_def do_enqueue_message_eq
      empty_mq_def get_book_def default_book_def counted_def ready_ring_knit_def link_page_def put_book_def put_page_def umax_def
      saturating_inc_def saturating_add_def Let_def split: option.splits if_splits)

theorem downward_messages_reach_queue_witness:
  "\<exists>w st'. set_validation_data ex_queue_config NoneOrigin ex_data1 ex_queue_start = Some (Inr (w, st')) \<and>
    queue_of counting_config (fst (para_env st')) 0 = [[1, 2]]"
proof -
  obtain w st' where r: "set_validation_data ex_queue_config NoneOrigin ex_data1 ex_queue_start = Some (Inr (w, st'))"
    using ex_queue_accepts by blast
  have start: "fst (para_env ex_queue_start) = empty_mq"
    by (simp add: ex_queue_start_def para_on_initialize_def new_block_def para_genesis_def)
  have "mq_ready counting_config (fst (para_env ex_queue_start))"
    using ex_queue_max_len empty_mq_inv by (simp add: mq_ready_def start)
  moreover have "\<not> exhausted (fst (para_env st'))" using ex_queue_room by (simp add: ex_queue_env[OF r])
  moreover have "length (downward_messages ex_data1) < 2 ^ 32" by (simp add: ex_data1_def)
  moreover have "queue_of counting_config empty_mq (0 :: nat) = []"
    by (simp add: empty_mq_def get_book_def default_book_def queue_of_def waiting_def msgs_range_def)
  ultimately have "queue_of counting_config (fst (para_env st')) 0 = [[1, 2]]"
    using downward_messages_reach_queue[OF counting.codec ex_queue_dmp r] ex_queue_max_len by (simp add: ex_data1_def start)
  with r show ?thesis by blast
qed

end
