(* ===== verification/Spec2Isabelle.thy ===== *)
theory Spec2Isabelle
  imports Overlay_Cache MQ_Overweight Bridge_Protocol Parachain_Messages
begin

text \<open>
  A verification library of parts of the Polkadot SDK.

  \<^bold>\<open>The program.\<close> The repository holds the Substrate framework, the Polkadot relay chain, the Cumulus parachain
  framework and the bridges. A chain's runtime is a set of pallets over one storage. The runtime executes a block
  through the state machine, which collects its writes in an overlay of nested transactions. Everything the runtime
  does is metered by weights. Parachains hand messages to the relay chain within bandwidth limits, queue the messages
  they receive, and pass messages to other consensus systems over bridges. The development follows this path.

  \<^bold>\<open>Conventions\<close> (\<open>Rust_Prelude\<close>, \<open>BTree_Map\<close>). Fixed-width integers are words; the plain operators wrap, the checked
  and saturating ones of the source are definitions of their own. A \<open>usize\<close> that is only a length is a natural number.
  A \<open>Result\<close> is a sum with the error on the left. A panic, a failed \<open>expect\<close> and a loop that does not end are
  \<open>None\<close> of an option. State is passed and returned. A \<open>BTreeMap\<close> is a sorted association list, and the contract
  its users rely on is the locale \<open>ordered_map\<close>. Pallet configuration traits and third-party code (the SCALE codec,
  hashing) are parameters; what is relied on is stated as hypotheses, and every property with hypotheses has a witness
  with concrete functions.

  \<^bold>\<open>Weights\<close> (\<open>Weights\<close>; \<open>substrate/primitives/weights\<close>: \<open>weight_v2.rs\<close>, \<open>weight_meter.rs\<close>, \<open>lib.rs\<close>). \<open>Weight\<close> and
  \<open>WeightMeter\<close> are records, with one definition for every arithmetic, comparison and metering method. The lemmas show
  that a meter consumes exactly the weights that fit in both components and that the division counts how often a weight
  fits. The locale \<open>meter\<close> is what loops that charge a meter rely on to end.

  \<^bold>\<open>The unincluded segment\<close> (\<open>Unincluded_Segment\<close>, \<open>Segment_Bandwidth\<close>, \<open>Segment_Invariant\<close>;
  \<open>cumulus/pallets/parachain-system\<close>: \<open>unincluded_segment.rs\<close> and the parts of \<open>lib.rs\<close> and \<open>consensus_hook.rs\<close> that
  use it). A parachain block records the bandwidth it used (upward messages, channels, go-ahead signal); the segment
  tracker sums it over the blocks that are not yet included in the relay chain. The lemmas show that the tracker is
  that sum in every reachable state, that appending and subtracting undo each other, that what \<open>on_finalize\<close> lets a
  block send is within the limits, that it takes the longest prefix of upward messages that fits, and exactly when
  dropping included ancestors panics.

  \<^bold>\<open>Arithmetic\<close> (\<open>Arith128\<close>, \<open>Fixed_Point\<close>; \<open>substrate/primitives/arithmetic\<close>: \<open>helpers_128bit.rs\<close>, \<open>fixed_point.rs\<close> and the
  rounding modes of \<open>per_things.rs\<close>). A 256 bit number is a pair of words (\<open>Double128\<close>), multiplied and divided word by
  word as the code does; \<open>FixedU128\<close> is its inner word. The lemmas show that \<open>a * b / c\<close> is exact with the asked rounding for all
  128 bit numbers, that \<open>sqrt\<close> and \<open>gcd\<close> are the mathematical ones, that multiplication and division of fixed point
  numbers round the exact result (the checked division down, unlike what its comment says), and what \<open>floor\<close>, \<open>ceil\<close> and
  \<open>round\<close> return for every number, up to the largest integer of the type.

  \<^bold>\<open>The parachain-system pallet\<close> (\<open>Relay_State\<close>, \<open>Parachain_Data\<close>, \<open>Parachain_System\<close>, \<open>Parachain_Blocks\<close>,
  \<open>Parachain_Inbound\<close>, \<open>Parachain_Chain\<close>, \<open>Parachain_Properties\<close>, \<open>Parachain_Messages\<close>; \<open>cumulus/pallets/parachain-system\<close> with
  \<open>cumulus/primitives\<close>). \<open>Relay_State\<close> reads the relay chain's state out of a proof. \<open>Parachain_Data\<close> has the storage (record
  \<open>para\<close>), the runtime around the pallet (record \<open>para_config\<close>) and the queries; \<open>Parachain_System\<close> has the hooks, the
  inherent \<open>set_validation_data\<close> with the checks of the message queue chains, the sending of upward messages and the code
  upgrades. \<open>Parachain_Blocks\<close> makes blocks of them (\<open>para_op\<close>, \<open>para_open\<close>, \<open>para_chain\<close>, with a log of every block) and
  inverts each phase: what it keeps and changes. \<open>Parachain_Inbound\<close> shows that a head of a message queue chain commits
  to its messages, \<open>Parachain_Chain\<close> has the invariants over chains of blocks. The properties: the inbound messages are exactly
  those the relay chain queued, unless a hash collides on the very nodes of the two chains; an honest collator's inherent is accepted exactly if the segment has room, the included head is
  known and the upgrade signal is consistent; upward messages leave in
  order; a scheduled upgrade is resolved once; the segment is one of \<open>Segment_Invariant\<close>; \<open>on_finalize\<close> does not panic; the fee factor
  stays at least one. \<open>Parachain_Messages\<close> joins the pallet to the message queue through \<open>EnqueueWithOrigin\<close>: the locale
  \<open>message_handler\<close> is what the pallet expects of its \<open>DmpQueue\<close>, and the message queue is an instance.

  \<^bold>\<open>The storage overlay\<close> (\<open>Overlay_Changeset\<close>, \<open>Overlay_Refinement\<close>, \<open>Overlay_State\<close>, \<open>Overlay_Lockstep\<close>,
  \<open>Overlay_Cache\<close>; \<open>substrate/primitives/state-machine/src/overlayed_changes\<close>). A change set keeps, for every key, the
  values of the open transactions that wrote it, and the keys each transaction touched. It refines a plain stack of
  maps, errors included. \<open>OverlayedChanges\<close> runs one change set for the top storage, one for every child storage and
  one for the off-chain index in lockstep (locale \<open>transactional\<close>) and caches the storage transaction. The lemmas show
  that no sequence of commands panics, that rollback restores and commit is transparent, and that the cached root is
  that of the current values, in the state version of the call that computed it, as long as the runtime closes its
  transactions; \<open>exit_runtime\<close> keeps a stale root where it does not.

  \<^bold>\<open>The message queue pallet\<close> (\<open>MQ_Page\<close>, \<open>MQ_Ring\<close>, \<open>MQ_Pallet\<close>, \<open>MQ_Service\<close>, \<open>MQ_Invariant\<close>, \<open>MQ_Enqueue\<close>,
  \<open>MQ_Serving\<close>, \<open>MQ_Overweight\<close>; \<open>substrate/frame/message-queue/src/lib.rs\<close>). A page is a heap of encoded items
  behind a cursor (locales \<open>item_codec\<close>, \<open>mq_codec\<close> for the header codec); books link their queues in a ready ring. The
  lemmas show that a page behaves as a bounded list with a cursor, that enqueueing, servicing, sweeping, executing
  overweight messages and reaping keep the invariant of ring, books and pages, that a service takes the first waiting
  message and leaves the queues as the processor's calls make them, that it ends within its weight limit, that the mutex
  excludes re-entry, and that an overweight message is executed at most once. Two of the properties show, for every state that meets their conditions,
  how an execution of an overweight message makes the pallet lose messages.

  \<^bold>\<open>The bridge messages pallet\<close> (\<open>Bridge_Lanes\<close>, \<open>Bridge_Lane_Laws\<close>, \<open>Bridge_Weights\<close>, \<open>Bridge_Pallet\<close>,
  \<open>Bridge_Delivery\<close>, \<open>Bridge_Steps\<close>, \<open>Bridge_Protocol\<close>; \<open>bridges/modules/messages\<close> with
  \<open>bridges/primitives/messages\<close>). \<open>Bridge_Lanes\<close> has the lane data and both lanes over the storage traits, which are
  records of operations with the contracts \<open>inbound_storage\<close> and \<open>outbound_storage\<close>; \<open>Bridge_Pallet\<close> has the pallet's
  storage (record \<open>Messages\<close>), its calls, its hook and the sending interface, and \<open>Bridge_Delivery\<close> interprets the
  contracts on the runtime's lane storages. \<open>Bridge_Lane_Laws\<close> reads the entries of unrewarded relayers as a queue with
  one relayer per message: a delivery appends, a confirmation drops, rewards count. \<open>Bridge_Steps\<close> is the pallet as a
  transition system with the invariant of its lanes, and \<open>Bridge_Protocol\<close> puts two chains together, with relayers that
  prove past storages: every message is dispatched once, in order and as sent, and the lane never gets stuck.
  \<open>Bridge_Weights\<close> has the weight formulae and shows that the spot checks a runtime makes of them decide them everywhere.

  \<^bold>\<open>Bounds.\<close> There is no fuel. Loops that are not structural are \<open>partial_function (option)\<close>, and that they return is
  proved: the service loops of the message queue because every round charges the meter, the pruning loop of the bridge
  because every round raises the oldest nonce. Nonces, page indices and counters keep their width. The bridge's steps
  do not send the last nonce of a lane (\<open>2\<^sup>6\<^sup>4 - 1\<close>), and the queue invariant is about queues that have page indices
  left. The loops of the arithmetic are functions with a termination proof: the double word division because the number
  falls, the square root because the bit moves right. An inherent has fewer than \<open>2\<^sup>3\<^sup>2\<close> downward messages, as many
  as the memory of a runtime can hold. Where a claim needs a weight of the runtime not to be zero (a database write of the
  bridge, the service steps of the message queue), its text says so.

  \<^bold>\<open>Not modelled.\<close> In the parts above: the extensions of the overlay's \<open>std\<close> build; \<open>do_try_state\<close>, \<open>do_integrity_test\<close> and
  the debugging queries of the message queue; the fee polynomials of the weights; big integers, \<open>PerThing\<close>, the other fixed
  point types and floats of the arithmetic; \<open>validate_block\<close>, the migrations and the benchmark helpers of parachain-system, and the
  rest of frame-system; the runtime API details and the congestion map of the bridge pallet. The encoding of well-known
  keys, the trie and the codec are parameters, because they are third-party code.
  The rest of the repository is not modelled: the client (networking, consensus engines, transaction pool, database,
  RPC), which is concurrent I/O code around the runtime; the other pallets, the relay chain runtime, XCM and the other
  bridge modules, which are independent of the parts above except through the parameters (the XCMP queue is the handler and the
  source of horizontal messages in \<open>para_config\<close>, the relay chain's promises are hypotheses); macros, benchmarks, tests,
  generated weights of other pallets, templates and scripts.
\<close>

end
